(* ===== verification/Prelude.thy ===== *)
theory Prelude
  imports Main "HOL-Library.Word"
begin

text \<open>
  What every component of the development shares: the fixed-width integers of Rust and their
  checked, saturating and wrapping operations, results with an error side, array accesses that
  may miss, and the lemmas that read word arithmetic through \<^const>\<open>unat\<close>.

  Rust's \<open>u8\<close>, \<open>u16\<close>, \<open>u32\<close> and \<open>u64\<close> are words of that
  width; \<open>usize\<close> is \<^typ>\<open>nat\<close>, because every \<open>usize\<close> of the modelled code
  counts or indexes the elements of an array that exists in memory. \<open>Result<T, E>\<close> is
  \<open>'e + 't\<close> with \<open>Inl\<close> for \<open>Err\<close>; an operation on \<open>&mut self\<close> returns
  its result paired with the state it leaves, on its error paths too.
\<close>

unbundle bit_operations_syntax

type_synonym u8 = "8 word"

type_synonym u16 = "16 word"

type_synonym u32 = "32 word"

type_synonym u64 = "64 word"

named_theorems word_nat \<open>word operations of the source read through unat\<close>

named_theorems state_defs \<open>definitions of state changing operations\<close>

named_theorems views \<open>what an observation of the state returns after an update\<close>

subsection \<open>Checked and saturating arithmetic\<close>

definition checked_add :: "'n::len word \<Rightarrow> 'n word \<Rightarrow> 'n word option" where
  "checked_add a b = (if unat a + unat b < 2 ^ LENGTH('n) then Some (a + b) else None)"

definition checked_sub :: "'n::len word \<Rightarrow> 'n word \<Rightarrow> 'n word option" where
  "checked_sub a b = (if b \<le> a then Some (a - b) else None)"

definition checked_mul :: "'n::len word \<Rightarrow> 'n word \<Rightarrow> 'n word option" where
  "checked_mul a b = (if unat a * unat b < 2 ^ LENGTH('n) then Some (a * b) else None)"

definition saturating_add :: "'n::len word \<Rightarrow> 'n word \<Rightarrow> 'n word" where
  "saturating_add a b = (if unat a + unat b < 2 ^ LENGTH('n) then a + b else - 1)"

definition saturating_sub :: "'n::len word \<Rightarrow> 'n word \<Rightarrow> 'n word" where
  "saturating_sub a b = (if b \<le> a then a - b else 0)"

subsection \<open>Results and state\<close>

text \<open>The question mark operator on a value that carries the state with it.\<close>

definition try_state :: "('e + 'a) \<times> 's \<Rightarrow> ('a \<Rightarrow> 's \<Rightarrow> ('e + 'b) \<times> 's) \<Rightarrow> ('e + 'b) \<times> 's" where
  "try_state r k = (case r of (Inl e, s) \<Rightarrow> (Inl e, s) | (Inr a, s) \<Rightarrow> k a s)"

text \<open>The question mark operator on a plain result, and on an option read as a result.\<close>

definition try_result :: "'e + 'a \<Rightarrow> ('a \<Rightarrow> 'e + 'b) \<Rightarrow> 'e + 'b" where
  "try_result r k = (case r of Inl e \<Rightarrow> Inl e | Inr a \<Rightarrow> k a)"

definition ok_or :: "'a option \<Rightarrow> 'e \<Rightarrow> 'e + 'a" where
  "ok_or x e = (case x of None \<Rightarrow> Inl e | Some a \<Rightarrow> Inr a)"

definition is_ok :: "'e + 'a \<Rightarrow> bool" where
  "is_ok r = (case r of Inl _ \<Rightarrow> False | Inr _ \<Rightarrow> True)"

definition ok :: "'e + 'a \<Rightarrow> 'a option" where
  "ok r = (case r of Inl _ \<Rightarrow> None | Inr a \<Rightarrow> Some a)"

definition map_err :: "('e \<Rightarrow> 'f) \<Rightarrow> 'e + 'a \<Rightarrow> 'f + 'a" where
  "map_err f r = (case r of Inl e \<Rightarrow> Inl (f e) | Inr a \<Rightarrow> Inr a)"

subsection \<open>Array accesses\<close>

definition array_get :: "'a list \<Rightarrow> nat \<Rightarrow> 'a option" where
  "array_get xs i = (if i < length xs then Some (xs ! i) else None)"

definition array_set :: "'a list \<Rightarrow> nat \<Rightarrow> 'a \<Rightarrow> 'a list" where
  "array_set xs i x = xs[i := x]"

definition opt_head :: "'a list \<Rightarrow> 'a option" where
  "opt_head xs = (case xs of [] \<Rightarrow> None | x # _ \<Rightarrow> Some x)"

definition opt_last :: "'a list \<Rightarrow> 'a option" where
  "opt_last xs = (if xs = [] then None else Some (last xs))"

subsection \<open>Lemmas on words\<close>

lemma word_size_pos: "0 < (2::nat) ^ LENGTH('n::len)"
  by simp

lemma checked_add_Some [word_nat]:
  "checked_add a b = Some c \<longleftrightarrow> unat (a::'n::len word) + unat b < 2 ^ LENGTH('n) \<and> c = a + b"
  by (auto simp: checked_add_def)

lemma checked_add_None [word_nat]:
  "checked_add a b = None \<longleftrightarrow> 2 ^ LENGTH('n) \<le> unat (a::'n::len word) + unat b"
  by (auto simp: checked_add_def)

lemma checked_sub_Some [word_nat]:
  "checked_sub a b = Some c \<longleftrightarrow> b \<le> (a::'n::len word) \<and> c = a - b"
  by (auto simp: checked_sub_def)

lemma checked_sub_None [word_nat]: "checked_sub a b = None \<longleftrightarrow> a < (b::'n::len word)"
  by (auto simp: checked_sub_def)

lemma unat_add_fits:
  "unat (a::'n::len word) + unat b < 2 ^ LENGTH('n) \<Longrightarrow> unat (a + b) = unat a + unat b"
  by (simp add: unat_word_ariths)

lemma unat_sub_fits: "b \<le> (a::'n::len word) \<Longrightarrow> unat (a - b) = unat a - unat b"
  by (rule unat_sub)

lemma unat_saturating_sub [simp, word_nat]:
  "unat (saturating_sub a b) = unat (a::'n::len word) - unat b"
  by (auto simp: saturating_sub_def unat_sub_fits word_le_nat_alt)

lemma unat_saturating_add [simp, word_nat]:
  "unat (saturating_add a b) = min (unat (a::'n::len word) + unat b) (2 ^ LENGTH('n) - 1)"
proof -
  have "unat (- 1 :: 'n word) = 2 ^ LENGTH('n) - 1"
    by (simp add: unsigned_minus_1_eq_mask mask_eq_exp_minus_1)
  moreover have "0 < (2::nat) ^ LENGTH('n)"
    by (rule word_size_pos)
  ultimately show ?thesis
    unfolding saturating_add_def by (auto simp: unat_add_fits)
qed

lemma unat_inject [simp]: "unat a = unat b \<longleftrightarrow> a = (b :: 'n::len word)"
  by (auto intro: unsigned_word_eqI)

lemma unat_of_nat_fits: "n < 2 ^ LENGTH('n) \<Longrightarrow> unat (of_nat n :: 'n::len word) = n"
  by (simp add: unsigned_of_nat take_bit_nat_eq_self)

lemma unat_less_size [simp]: "unat (a::'n::len word) < 2 ^ LENGTH('n)"
  by (rule unsigned_less)

subsection \<open>Lemmas on results, options and arrays\<close>

lemma try_state_Inl [simp]: "try_state (Inl e, s) k = (Inl e, s)"
  by (simp add: try_state_def)

lemma try_state_Inr [simp]: "try_state (Inr a, s) k = k a s"
  by (simp add: try_state_def)

lemma try_result_simps [simp]:
  "try_result (Inl e) k = Inl e"
  "try_result (Inr a) k = k a"
  by (simp_all add: try_result_def)

lemma try_result_eq_Inr: "try_result r k = Inr b \<longleftrightarrow> (\<exists>a. r = Inr a \<and> k a = Inr b)"
  by (cases r) simp_all

lemma ok_or_simps [simp]: "ok_or None e = Inl e" "ok_or (Some a) e = Inr a"
  by (simp_all add: ok_or_def)

lemma ok_or_eq_Inr [simp]: "ok_or x e = Inr a \<longleftrightarrow> x = Some a"
  by (cases x) simp_all

lemma is_ok_simps [simp]: "\<not> is_ok (Inl e)" "is_ok (Inr a)"
  by (simp_all add: is_ok_def)

lemma is_ok_iff: "is_ok r \<longleftrightarrow> (\<exists>a. r = Inr a)"
  by (cases r) simp_all

lemma ok_simps [simp]: "ok (Inl e) = None" "ok (Inr a) = Some a"
  by (simp_all add: ok_def)

lemma ok_eq_Some [simp]: "ok r = Some a \<longleftrightarrow> r = Inr a"
  by (cases r) simp_all

lemma ok_eq_None: "ok r = None \<longleftrightarrow> (\<exists>e. r = Inl e)"
  by (cases r) simp_all

lemma map_err_simps [simp]: "map_err f (Inl e) = Inl (f e)" "map_err f (Inr a) = Inr a"
  by (simp_all add: map_err_def)

lemma map_err_eq_Inr [simp]: "map_err f r = Inr a \<longleftrightarrow> r = Inr a"
  by (cases r) simp_all

lemma array_get_Some: "array_get xs i = Some x \<longleftrightarrow> i < length xs \<and> x = xs ! i"
  by (auto simp: array_get_def)

lemma array_get_None [simp]: "array_get xs i = None \<longleftrightarrow> length xs \<le> i"
  by (auto simp: array_get_def)

lemma array_get_in [simp]: "i < length xs \<Longrightarrow> array_get xs i = Some (xs ! i)"
  by (simp add: array_get_def)

lemma length_array_set [simp]: "length (array_set xs i x) = length xs"
  by (simp add: array_set_def)

lemma nth_array_set:
  "i < length xs \<Longrightarrow> array_set xs j x ! i = (if i = j then x else xs ! i)"
  by (simp add: array_set_def nth_list_update)

lemma array_get_set:
  "array_get (array_set xs j x) i = (if i = j \<and> j < length xs then Some x else array_get xs i)"
  by (auto simp: array_get_def nth_array_set)

lemma opt_head_simps [simp]: "opt_head [] = None" "opt_head (x # xs) = Some x"
  by (simp_all add: opt_head_def)

lemma opt_last_simps [simp]:
  "opt_last [] = None"
  "opt_last (xs @ [x]) = Some x"
  by (simp_all add: opt_last_def)

lemma opt_last_Cons [simp]:
  "opt_last [x] = Some x"
  "opt_last (xs @ y # ys) = opt_last (y # ys)"
  "opt_last (x # y # ys) = opt_last (y # ys)"
  by (simp_all add: opt_last_def)

lemma opt_head_append [simp]: "opt_head (xs @ y # ys) = Some (if xs = [] then y else hd xs)"
  by (cases xs) simp_all

lemma opt_head_None [simp]: "opt_head xs = None \<longleftrightarrow> xs = []" "None = opt_head xs \<longleftrightarrow> xs = []"
  by (cases xs; simp)+

lemma opt_last_None [simp]: "opt_last xs = None \<longleftrightarrow> xs = []" "None = opt_last xs \<longleftrightarrow> xs = []"
  by (auto simp: opt_last_def)

lemma opt_head_Some: "opt_head xs = Some x \<longleftrightarrow> (\<exists>ys. xs = x # ys)"
  by (cases xs) auto

lemma opt_last_Some: "opt_last xs = Some x \<longleftrightarrow> (\<exists>ys. xs = ys @ [x])"
proof
  assume "opt_last xs = Some x"
  then have "xs \<noteq> []" and "last xs = x"
    by (auto simp: opt_last_def split: if_splits)
  then have "xs = butlast xs @ [x]"
    using append_butlast_last_id [of xs] by simp
  then show "\<exists>ys. xs = ys @ [x]"
    by blast
qed auto

lemma opt_last_in: "opt_last xs = Some x \<Longrightarrow> x \<in> set xs"
  by (auto simp: opt_last_Some)

lemma opt_head_in: "opt_head xs = Some x \<Longrightarrow> x \<in> set xs"
  by (auto simp: opt_head_Some)

lemma length_filter_update:
  "i < length xs \<Longrightarrow>
   length (filter P (xs[i := x])) + of_bool (P (xs ! i)) = length (filter P xs) + of_bool (P x)"
proof (induction xs arbitrary: i)
  case (Cons a xs)
  show ?case
  proof (cases i)
    case (Suc j)
    then show ?thesis using Cons.IH [of j] Cons.prems by auto
  qed auto
qed simp

end
