(* ===== verification/Abi.thy ===== *)
theory Abi
  imports Prelude
begin

text \<open>
  The system call interface crate, \<open>src/crates/abi\<close>: error codes (\<open>error.rs\<close>), rights
  (\<open>rights.rs\<close>), object types and the rights each accepts (\<open>object.rs\<close>), the handle
  encoding (\<open>handle.rs\<close>), thread states and faults (\<open>thread.rs\<close>) and the layout
  constants the kernel uses (\<open>layout.rs\<close>). The macro tables of the source declare each
  enumeration once and derive the decoder from it; the decoders here search the same table in the
  same order. \<open>Rights(u32)\<close> is the word itself, and \<open>Handle(NonZeroU64)\<close> is a
  constructor around the raw word whose well-formedness is \<open>handle_wf\<close>.
\<close>

section \<open>Errors\<close>

datatype error =
    InvalidHandle | WrongObjectType | AccessDenied | InvalidArgument | OutOfKernelMemory
  | PoolExhausted | OutOfHandles | QuotaExceeded | AddressInUse | NotMapped | AlreadyMapped
  | Unaligned | BufferTooSmall | WouldBlock | Busy | ObjectDestroyed | ReplyDropped | NotFound
  | AlreadyExists | Unsupported | UnknownSyscall | ArgumentCount | InvalidState | NotRunnable
  | Cancelled | OutOfMemory | Unavailable | NoVector

definition error_ALL :: "error list" where
  "error_ALL = [InvalidHandle, WrongObjectType, AccessDenied, InvalidArgument, OutOfKernelMemory,
     PoolExhausted, OutOfHandles, QuotaExceeded, AddressInUse, NotMapped, AlreadyMapped,
     Unaligned, BufferTooSmall, WouldBlock, Busy, ObjectDestroyed, ReplyDropped, NotFound,
     AlreadyExists, Unsupported, UnknownSyscall, ArgumentCount, InvalidState, NotRunnable,
     Cancelled, OutOfMemory, Unavailable, NoVector]"

fun error_code :: "error \<Rightarrow> u32" where
  "error_code InvalidHandle = 1"
| "error_code WrongObjectType = 2"
| "error_code AccessDenied = 3"
| "error_code InvalidArgument = 4"
| "error_code OutOfKernelMemory = 5"
| "error_code PoolExhausted = 6"
| "error_code OutOfHandles = 7"
| "error_code QuotaExceeded = 8"
| "error_code AddressInUse = 9"
| "error_code NotMapped = 10"
| "error_code AlreadyMapped = 11"
| "error_code Unaligned = 12"
| "error_code BufferTooSmall = 13"
| "error_code WouldBlock = 14"
| "error_code Busy = 15"
| "error_code ObjectDestroyed = 16"
| "error_code ReplyDropped = 17"
| "error_code NotFound = 18"
| "error_code AlreadyExists = 19"
| "error_code Unsupported = 20"
| "error_code UnknownSyscall = 21"
| "error_code ArgumentCount = 22"
| "error_code InvalidState = 23"
| "error_code NotRunnable = 24"
| "error_code Cancelled = 25"
| "error_code OutOfMemory = 26"
| "error_code Unavailable = 27"
| "error_code NoVector = 28"

definition error_from_code :: "u32 \<Rightarrow> error option" where
  "error_from_code code = find (\<lambda>e. error_code e = code) error_ALL"

definition error_try_from :: "u32 \<Rightarrow> error + error" where
  "error_try_from code = ok_or (error_from_code code) InvalidArgument"

section \<open>Rights\<close>

type_synonym rights = u32

definition RIGHT_READ :: rights where "RIGHT_READ = 1"

definition RIGHT_WRITE :: rights where "RIGHT_WRITE = 2"

definition RIGHT_EXECUTE :: rights where "RIGHT_EXECUTE = 4"

definition RIGHT_MAP :: rights where "RIGHT_MAP = 8"

definition RIGHT_INFO :: rights where "RIGHT_INFO = 16"

definition RIGHT_SEND :: rights where "RIGHT_SEND = 32"

definition RIGHT_RECV :: rights where "RIGHT_RECV = 64"

definition RIGHT_BADGE :: rights where "RIGHT_BADGE = 128"

definition RIGHT_SIGNAL :: rights where "RIGHT_SIGNAL = 256"

definition RIGHT_WAIT :: rights where "RIGHT_WAIT = 512"

definition RIGHT_BIND :: rights where "RIGHT_BIND = 1024"

definition RIGHT_MANAGE :: rights where "RIGHT_MANAGE = 2048"

definition RIGHT_INSTALL :: rights where "RIGHT_INSTALL = 4096"

definition RIGHT_DUPLICATE :: rights where "RIGHT_DUPLICATE = 8192"

definition RIGHT_TRANSFER :: rights where "RIGHT_TRANSFER = 16384"

definition rights_EMPTY :: rights where "rights_EMPTY = 0"

definition rights_NAMED :: "rights list" where
  "rights_NAMED = [RIGHT_READ, RIGHT_WRITE, RIGHT_EXECUTE, RIGHT_MAP, RIGHT_INFO, RIGHT_SEND,
     RIGHT_RECV, RIGHT_BADGE, RIGHT_SIGNAL, RIGHT_WAIT, RIGHT_BIND, RIGHT_MANAGE, RIGHT_INSTALL,
     RIGHT_DUPLICATE, RIGHT_TRANSFER]"

definition rights_ALL :: rights where
  "rights_ALL = foldr (OR) rights_NAMED 0"

definition rights_contains :: "rights \<Rightarrow> rights \<Rightarrow> bool" where
  "rights_contains self other = (self AND other = other)"

definition rights_is_subset_of :: "rights \<Rightarrow> rights \<Rightarrow> bool" where
  "rights_is_subset_of self other = rights_contains other self"

definition rights_union :: "rights \<Rightarrow> rights \<Rightarrow> rights" where
  "rights_union self other = self OR other"

definition rights_intersection :: "rights \<Rightarrow> rights \<Rightarrow> rights" where
  "rights_intersection self other = self AND other"

definition rights_difference :: "rights \<Rightarrow> rights \<Rightarrow> rights" where
  "rights_difference self other = self AND NOT other"

definition rights_is_empty :: "rights \<Rightarrow> bool" where
  "rights_is_empty self = (self = 0)"

definition rights_from_bits :: "u32 \<Rightarrow> error + rights" where
  "rights_from_bits bits = (if bits AND NOT rights_ALL = 0 then Inr bits else Inl InvalidArgument)"

section \<open>Object types\<close>

datatype object_type =
    ProcessType | ThreadType | MemoryObjectType | EndpointType | ReplyType | NotificationType
  | InterruptType | IoPortRangeType | SystemControlType

definition object_type_ALL :: "object_type list" where
  "object_type_ALL = [ProcessType, ThreadType, MemoryObjectType, EndpointType, ReplyType,
     NotificationType, InterruptType, IoPortRangeType, SystemControlType]"

fun object_type_code :: "object_type \<Rightarrow> u32" where
  "object_type_code ProcessType = 1"
| "object_type_code ThreadType = 2"
| "object_type_code MemoryObjectType = 3"
| "object_type_code EndpointType = 4"
| "object_type_code ReplyType = 5"
| "object_type_code NotificationType = 6"
| "object_type_code InterruptType = 7"
| "object_type_code IoPortRangeType = 8"
| "object_type_code SystemControlType = 9"

definition object_type_from_code :: "u32 \<Rightarrow> object_type option" where
  "object_type_from_code code = find (\<lambda>t. object_type_code t = code) object_type_ALL"

fun specific_rights :: "object_type \<Rightarrow> rights list" where
  "specific_rights ProcessType = [RIGHT_MANAGE, RIGHT_MAP, RIGHT_INSTALL, RIGHT_INFO]"
| "specific_rights ThreadType = [RIGHT_MANAGE]"
| "specific_rights MemoryObjectType =
     [RIGHT_READ, RIGHT_WRITE, RIGHT_EXECUTE, RIGHT_MAP, RIGHT_INFO]"
| "specific_rights EndpointType = [RIGHT_SEND, RIGHT_RECV, RIGHT_BADGE]"
| "specific_rights ReplyType = []"
| "specific_rights NotificationType = [RIGHT_SIGNAL, RIGHT_WAIT, RIGHT_BIND]"
| "specific_rights InterruptType = [RIGHT_MANAGE]"
| "specific_rights IoPortRangeType = [RIGHT_READ, RIGHT_WRITE]"
| "specific_rights SystemControlType = [RIGHT_MANAGE]"

definition rights_mask :: "object_type \<Rightarrow> rights" where
  "rights_mask t = rights_union (rights_union (foldl rights_union rights_EMPTY (specific_rights t))
     RIGHT_DUPLICATE) RIGHT_TRANSFER"

section \<open>Handles\<close>

datatype handle = Handle (handle_raw: u64)

definition HANDLE_INDEX_BITS :: nat where "HANDLE_INDEX_BITS = 32"

definition INDEX_MASK :: u64 where "INDEX_MASK = push_bit HANDLE_INDEX_BITS 1 - 1"

definition handle_new :: "u32 \<Rightarrow> u32 \<Rightarrow> handle option" where
  "handle_new index generation =
     (if generation = 0 then None
      else let raw = push_bit HANDLE_INDEX_BITS (ucast generation) OR ucast index
           in if raw = 0 then None else Some (Handle raw))"

definition handle_from_raw :: "u64 \<Rightarrow> handle option" where
  "handle_from_raw raw =
     (if raw \<noteq> 0 \<and> drop_bit HANDLE_INDEX_BITS raw \<noteq> 0 then Some (Handle raw) else None)"

definition handle_index :: "handle \<Rightarrow> u32" where
  "handle_index h = ucast (handle_raw h AND INDEX_MASK)"

definition handle_generation :: "handle \<Rightarrow> u32" where
  "handle_generation h = ucast (drop_bit HANDLE_INDEX_BITS (handle_raw h))"

definition handle_MAX :: handle where "handle_MAX = Handle (- 1)"

text \<open>The handles that \<open>Handle::new\<close> and \<open>Handle::from_raw\<close> hand out.\<close>

definition handle_wf :: "handle \<Rightarrow> bool" where
  "handle_wf h = (handle_generation h \<noteq> 0)"

section \<open>Thread states and faults\<close>

datatype thread_state =
    Inactive | Ready | Running | BlockedSend | BlockedRecv | BlockedReply | BlockedNotification
  | Suspended | Faulted | Exited

definition thread_state_ALL :: "thread_state list" where
  "thread_state_ALL = [Inactive, Ready, Running, BlockedSend, BlockedRecv, BlockedReply,
     BlockedNotification, Suspended, Faulted, Exited]"

fun thread_state_code :: "thread_state \<Rightarrow> u32" where
  "thread_state_code Inactive = 1"
| "thread_state_code Ready = 2"
| "thread_state_code Running = 3"
| "thread_state_code BlockedSend = 4"
| "thread_state_code BlockedRecv = 5"
| "thread_state_code BlockedReply = 6"
| "thread_state_code BlockedNotification = 7"
| "thread_state_code Suspended = 8"
| "thread_state_code Faulted = 9"
| "thread_state_code Exited = 10"

definition thread_state_from_code :: "u32 \<Rightarrow> thread_state option" where
  "thread_state_from_code code = find (\<lambda>s. thread_state_code s = code) thread_state_ALL"

definition is_blocked :: "thread_state \<Rightarrow> bool" where
  "is_blocked s = (s \<in> {BlockedSend, BlockedRecv, BlockedReply, BlockedNotification})"

definition is_runnable :: "thread_state \<Rightarrow> bool" where
  "is_runnable s = (s = Ready \<or> s = Running)"

definition is_dead :: "thread_state \<Rightarrow> bool" where
  "is_dead s = (s = Exited)"

datatype fault_kind =
    PageFault | GeneralProtection | InvalidOpcode | DivideError | Breakpoint | AlignmentCheck

definition fault_kind_ALL :: "fault_kind list" where
  "fault_kind_ALL =
     [PageFault, GeneralProtection, InvalidOpcode, DivideError, Breakpoint, AlignmentCheck]"

fun fault_kind_code :: "fault_kind \<Rightarrow> u32" where
  "fault_kind_code PageFault = 1"
| "fault_kind_code GeneralProtection = 2"
| "fault_kind_code InvalidOpcode = 3"
| "fault_kind_code DivideError = 4"
| "fault_kind_code Breakpoint = 5"
| "fault_kind_code AlignmentCheck = 6"

definition fault_kind_from_code :: "u32 \<Rightarrow> fault_kind option" where
  "fault_kind_from_code code = find (\<lambda>k. fault_kind_code k = code) fault_kind_ALL"

record fault =
  flt_kind :: fault_kind
  flt_address :: u64
  flt_instruction_pointer :: u64
  flt_error_code :: u64

section \<open>Layout constants\<close>

definition PAGE_SIZE :: u64 where "PAGE_SIZE = 4096"

definition PAGE_SHIFT :: nat where "PAGE_SHIFT = 12"

definition VIRT_ADDR_BITS :: nat where "VIRT_ADDR_BITS = 48"

definition PHYS_ADDR_BITS :: nat where "PHYS_ADDR_BITS = 52"

definition USER_SPACE_START :: u64 where "USER_SPACE_START = 0x10000"

definition USER_SPACE_END :: u64 where "USER_SPACE_END = 0x0000800000000000"

definition KERNEL_SPACE_START :: u64 where "KERNEL_SPACE_START = 0xFFFF800000000000"

definition IPC_BUFFER_TOP :: u64 where "IPC_BUFFER_TOP = USER_SPACE_END - PAGE_SIZE"

definition THREADS_PER_PROCESS :: nat where "THREADS_PER_PROCESS = 64"

definition REGIONS_PER_PROCESS :: nat where "REGIONS_PER_PROCESS = 64"

definition WATCHERS_PER_PROCESS :: nat where "WATCHERS_PER_PROCESS = 4"

definition MAX_MESSAGE_WORDS :: nat where "MAX_MESSAGE_WORDS = 480"

definition MAX_MESSAGE_HANDLES :: nat where "MAX_MESSAGE_HANDLES = 4"

definition PRIORITY_COUNT :: u8 where "PRIORITY_COUNT = 32"

definition DEFAULT_TIME_SLICE_TICKS :: u32 where "DEFAULT_TIME_SLICE_TICKS = 10"

definition ipc_buffer_address :: "nat \<Rightarrow> u64 option" where
  "ipc_buffer_address index =
     (if THREADS_PER_PROCESS \<le> index then None
      else checked_sub IPC_BUFFER_TOP (of_nat index * PAGE_SIZE))"

section \<open>Lemmas\<close>

subsection \<open>Codes\<close>

lemma find_code_sound: "find (\<lambda>y. code y = c) xs = Some x \<Longrightarrow> code x = c"
  by (induction xs) (auto split: if_splits)

lemma error_from_code_code [simp]: "error_from_code (error_code e) = Some e"
  by (cases e) (simp_all add: error_from_code_def error_ALL_def)

lemma thread_state_from_code_code [simp]: "thread_state_from_code (thread_state_code s) = Some s"
  by (cases s) (simp_all add: thread_state_from_code_def thread_state_ALL_def)

lemma object_type_from_code_code [simp]: "object_type_from_code (object_type_code t) = Some t"
  by (cases t) (simp_all add: object_type_from_code_def object_type_ALL_def)

lemma fault_kind_from_code_code [simp]: "fault_kind_from_code (fault_kind_code k) = Some k"
  by (cases k) (simp_all add: fault_kind_from_code_def fault_kind_ALL_def)

lemma from_code_eq_Some:
  "error_from_code c = Some e \<longleftrightarrow> error_code e = c"
  "thread_state_from_code c = Some s \<longleftrightarrow> thread_state_code s = c"
  "object_type_from_code c = Some t \<longleftrightarrow> object_type_code t = c"
  "fault_kind_from_code c = Some k \<longleftrightarrow> fault_kind_code k = c"
  using error_from_code_code thread_state_from_code_code object_type_from_code_code
    fault_kind_from_code_code
  by (auto simp: error_from_code_def thread_state_from_code_def object_type_from_code_def
      fault_kind_from_code_def dest: find_code_sound)

lemma error_code_nonzero: "error_code e \<noteq> 0"
  by (cases e) simp_all

subsection \<open>Rights are an intersection-closed order\<close>

lemmas rights_word_defs =
  rights_contains_def rights_is_subset_of_def rights_union_def rights_intersection_def
  rights_difference_def rights_is_empty_def rights_EMPTY_def

lemma rights_subset_bits:
  "rights_is_subset_of a b \<longleftrightarrow> (\<forall>n < 32. bit a n \<longrightarrow> bit b n)"
proof -
  have "b AND a = a \<longleftrightarrow> (\<forall>n < 32. bit (b AND a) n = bit a n)"
    by (simp add: bit_eq_iff [of "b AND a"] possible_bit_word)
  then show ?thesis
    by (auto simp: rights_word_defs bit_and_iff)
qed

lemma rights_subset_refl [simp]: "rights_is_subset_of a a"
  by (simp add: rights_word_defs)

lemma rights_subset_trans:
  "rights_is_subset_of a b \<Longrightarrow> rights_is_subset_of b c \<Longrightarrow> rights_is_subset_of a c"
  by (simp add: rights_subset_bits)

lemma rights_subset_antisym:
  "rights_is_subset_of a b \<Longrightarrow> rights_is_subset_of b a \<Longrightarrow> a = b"
  by (simp add: rights_word_defs and.commute)

lemma rights_difference_subset: "rights_is_subset_of (rights_difference a b) a"
  by (auto simp: rights_subset_bits rights_word_defs bit_and_iff)

lemma rights_intersection_subset: "rights_is_subset_of (rights_intersection a b) a"
  by (auto simp: rights_subset_bits rights_word_defs bit_and_iff)

subsection \<open>The handle encoding\<close>

lemma INDEX_MASK_mask: "INDEX_MASK = mask 32"
  by (simp add: INDEX_MASK_def HANDLE_INDEX_BITS_def mask_eq_decr_exp push_bit_eq_mult)

lemma handle_raw_index:
  "ucast ((push_bit 32 (ucast (g::u32)) OR ucast (i::u32) :: u64) AND INDEX_MASK) = i"
  by (rule bit_word_eqI) (auto simp: INDEX_MASK_mask bit_simps)

lemma handle_raw_generation:
  "ucast (drop_bit 32 (push_bit 32 (ucast (g::u32)) OR ucast (i::u32) :: u64)) = g"
  by (rule bit_word_eqI) (auto simp: bit_simps dest: bit_imp_le_length)

lemma handle_raw_split:
  "push_bit 32 (ucast (ucast (drop_bit 32 w) :: u32)) OR ucast (ucast (w AND INDEX_MASK) :: u32)
   = (w :: u64)"
  by (rule bit_word_eqI) (auto simp: INDEX_MASK_mask bit_simps)

lemma handle_new_zero [simp]: "handle_new i 0 = None"
  by (simp add: handle_new_def)

lemma handle_new_fields:
  assumes "handle_new i g = Some h"
  shows "handle_index h = i" "handle_generation h = g" "g \<noteq> 0" "handle_wf h"
  using assms handle_raw_index [of g i] handle_raw_generation [of g i]
  by (auto simp: handle_new_def Let_def handle_index_def handle_generation_def handle_wf_def
      HANDLE_INDEX_BITS_def split: if_splits)

lemma handle_new_total:
  assumes "g \<noteq> 0"
  shows "\<exists>h. handle_new i g = Some h"
proof -
  have "(push_bit 32 (ucast g) OR ucast i :: u64) \<noteq> 0"
    using handle_raw_generation [of g i] assms by (metis drop_bit_of_0 unsigned_0)
  with assms show ?thesis
    by (simp add: handle_new_def Let_def HANDLE_INDEX_BITS_def)
qed

lemma handle_new_of_fields:
  assumes "handle_wf h"
  shows "handle_new (handle_index h) (handle_generation h) = Some h"
  using assms handle_raw_split [of "handle_raw h"]
  by (cases h) (auto simp: handle_new_def Let_def handle_wf_def handle_index_def
      handle_generation_def HANDLE_INDEX_BITS_def)

lemma handle_eq_iff:
  assumes "handle_wf h" "handle_wf k"
  shows "h = k \<longleftrightarrow> handle_index h = handle_index k \<and> handle_generation h = handle_generation k"
  using assms handle_new_of_fields by (metis option.inject)

end
