(* ===== verification/Chains.thy ===== *)
theory Chains
  imports Prelude
begin

text \<open>
  Linked lists threaded through the elements of a store. The kernel keeps four kinds of them: the
  free slots of a pool and of the handle arena (singly linked), the run queues, the wait queues
  and the handle lists of the processes (doubly linked). The predicates here relate the link
  fields, read as functions, to the list of elements they thread; the lemmas say what the pointer
  updates of the code do to that list. The locale \<open>link_store\<close> is the interface of a store
  whose elements carry a pair of links: each kind of doubly linked list of the kernel interprets
  it on its own accessors and obtains the effect of unlinking, appending and inserting.
\<close>

section \<open>Definitions\<close>

definition head_or :: "'k list \<Rightarrow> 'k option \<Rightarrow> 'k option" where
  "head_or xs q = (case xs of [] \<Rightarrow> q | x # _ \<Rightarrow> Some x)"

definition last_or :: "'k option \<Rightarrow> 'k list \<Rightarrow> 'k option" where
  "last_or p xs = (if xs = [] then p else Some (last xs))"

text \<open>\<open>path nx xs q\<close>: following \<open>nx\<close> from the head visits exactly \<open>xs\<close>, then \<open>q\<close>.\<close>

primrec path :: "('k \<Rightarrow> 'k option) \<Rightarrow> 'k list \<Rightarrow> 'k option \<Rightarrow> bool" where
  "path nx [] q \<longleftrightarrow> True"
| "path nx (x # xs) q \<longleftrightarrow> nx x = head_or xs q \<and> path nx xs q"

text \<open>The same with back links: the element before the head is \<open>p\<close>.\<close>

primrec linked ::
  "('k \<Rightarrow> 'k option) \<Rightarrow> ('k \<Rightarrow> 'k option) \<Rightarrow> 'k option \<Rightarrow> 'k list \<Rightarrow> 'k option \<Rightarrow> bool" where
  "linked nx pv p [] q \<longleftrightarrow> True"
| "linked nx pv p (x # xs) q \<longleftrightarrow>
     pv x = p \<and> nx x = head_or xs q \<and> linked nx pv (Some x) xs q"

definition queue_list ::
  "('k \<Rightarrow> 'k option) \<Rightarrow> ('k \<Rightarrow> 'k option) \<Rightarrow> 'k option \<Rightarrow> 'k option \<Rightarrow> 'k list \<Rightarrow> bool" where
  "queue_list nx pv h t xs \<longleftrightarrow> h = opt_head xs \<and> t = opt_last xs \<and> linked nx pv None xs None"

text \<open>An update through a link that may be absent.\<close>

definition upd_opt :: "('k \<Rightarrow> 'v) \<Rightarrow> 'k option \<Rightarrow> 'v \<Rightarrow> 'k \<Rightarrow> 'v" where
  "upd_opt f k v = (case k of None \<Rightarrow> f | Some x \<Rightarrow> f(x := v))"

text \<open>A change made through a link, if there is one.\<close>

definition on_some :: "'k option \<Rightarrow> ('k \<Rightarrow> 's \<Rightarrow> 's) \<Rightarrow> 's \<Rightarrow> 's" where
  "on_some k f s = (case k of None \<Rightarrow> s | Some x \<Rightarrow> f x s)"

text \<open>A walk along the links that takes at most \<open>n\<close> steps.\<close>

fun walk :: "('k \<Rightarrow> 'k option) \<Rightarrow> nat \<Rightarrow> 'k option \<Rightarrow> 'k list" where
  "walk nx 0 p = []"
| "walk nx (Suc n) None = []"
| "walk nx (Suc n) (Some x) = x # walk nx n (nx x)"

section \<open>Paths\<close>

lemma head_or_simps [simp]:
  "head_or [] q = q"
  "head_or (x # xs) q = Some x"
  by (simp_all add: head_or_def)

lemma head_or_append: "head_or (xs @ ys) q = head_or xs (head_or ys q)"
  by (cases xs) simp_all

lemma head_or_None [simp]: "head_or xs None = opt_head xs"
  by (cases xs) simp_all

lemma last_or_simps [simp]:
  "last_or p [] = p"
  "last_or p (xs @ [x]) = Some x"
  by (simp_all add: last_or_def)

lemma last_or_Cons [simp]: "last_or p (x # xs) = last_or (Some x) xs"
  by (simp add: last_or_def)

lemma last_or_None: "last_or None xs = opt_last xs"
  by (simp add: last_or_def opt_last_def)

lemma path_append: "path nx (xs @ ys) q \<longleftrightarrow> path nx xs (head_or ys q) \<and> path nx ys q"
  by (induction xs) (auto simp: head_or_append)

lemma path_cong: "(\<And>x. x \<in> set xs \<Longrightarrow> nx x = nx' x) \<Longrightarrow> path nx xs q = path nx' xs q"
  by (induction xs) auto

lemma path_upd [simp]: "x \<notin> set xs \<Longrightarrow> path (nx(x := v)) xs q = path nx xs q"
  by (rule path_cong) auto

lemma path_determined: "path nx (x # xs) None \<Longrightarrow> path nx (x # ys) None \<Longrightarrow> xs = ys"
proof (induction xs arbitrary: x ys)
  case Nil
  then show ?case by (cases ys) auto
next
  case (Cons a xs)
  then show ?case by (cases ys) auto
qed

lemma path_distinct: "path nx xs None \<Longrightarrow> distinct xs"
proof (induction xs)
  case (Cons x xs)
  have "x \<notin> set xs"
  proof
    assume "x \<in> set xs"
    then obtain as bs where xs: "xs = as @ x # bs"
      by (meson split_list)
    with Cons.prems have "path nx ((x # as) @ (x # bs)) None"
      by simp
    then have "path nx (x # bs) None"
      unfolding path_append by blast
    with Cons.prems have "bs = xs"
      using path_determined by metis
    with xs show False
      by simp
  qed
  with Cons show ?case by simp
qed simp

lemma path_snoc:
  assumes "path nx xs None" and "x \<notin> set xs" and "nx x = None"
  shows "path (upd_opt nx (opt_last xs) (Some x)) (xs @ [x]) None"
proof (cases xs rule: rev_cases)
  case Nil
  with assms show ?thesis by (simp add: upd_opt_def)
next
  case (snoc ys y)
  with assms path_distinct [OF assms(1)] have "y \<notin> set ys" "y \<noteq> x"
    by auto
  with snoc assms show ?thesis
    by (simp add: upd_opt_def path_append)
qed

section \<open>Doubly linked lists\<close>

lemma linked_path: "linked nx pv p xs q \<Longrightarrow> path nx xs q"
  by (induction xs arbitrary: p) auto

lemma linked_distinct: "linked nx pv p xs None \<Longrightarrow> distinct xs"
  by (blast intro: path_distinct linked_path)

lemma linked_append:
  "linked nx pv p (xs @ ys) q \<longleftrightarrow>
   linked nx pv p xs (head_or ys q) \<and> linked nx pv (last_or p xs) ys q"
  by (induction xs arbitrary: p) (auto simp: head_or_append)

lemma linked_cong:
  "(\<And>x. x \<in> set xs \<Longrightarrow> nx x = nx' x \<and> pv x = pv' x) \<Longrightarrow>
   linked nx pv p xs q = linked nx' pv' p xs q"
  by (induction xs arbitrary: p) auto

lemma upd_opt_simps [simp]:
  "upd_opt f None v = f"
  "upd_opt f (Some k) v = f(k := v)"
  by (simp_all add: upd_opt_def)

lemma upd_opt_other: "k \<noteq> Some x \<Longrightarrow> upd_opt f k v x = f x"
  by (cases k) auto

lemma linked_upd_next:
  "x \<notin> set xs \<Longrightarrow> linked (nx(x := v)) pv p xs q = linked nx pv p xs q"
  by (rule linked_cong) auto

lemma linked_upd_prev:
  "x \<notin> set xs \<Longrightarrow> linked nx (pv(x := v)) p xs q = linked nx pv p xs q"
  by (rule linked_cong) auto

lemmas linked_upd [simp] = linked_upd_next linked_upd_prev

lemma linked_relink_end:
  assumes "linked nx pv p xs q" and "distinct xs"
  shows "linked (upd_opt nx (last_or None xs) q') pv p xs q'"
proof (cases xs rule: rev_cases)
  case (snoc ys y)
  with assms show ?thesis by (simp add: linked_append)
qed simp

lemma linked_relink_start:
  assumes "linked nx pv p xs q" and "distinct xs"
  shows "linked nx (upd_opt pv (head_or xs None) p') p' xs q"
proof (cases xs)
  case (Cons y ys)
  with assms show ?thesis by simp
qed simp

section \<open>Queues\<close>

lemma queue_listD:
  assumes "queue_list nx pv h t xs"
  shows "h = opt_head xs" "t = opt_last xs" "linked nx pv None xs None" "distinct xs"
  using assms by (auto simp: queue_list_def intro: linked_distinct)

lemma queue_list_empty [simp]: "queue_list nx pv None None []"
  by (simp add: queue_list_def)

lemma queue_list_Nil: "queue_list nx pv h t [] \<longleftrightarrow> h = None \<and> t = None"
  by (auto simp: queue_list_def)

lemma queue_list_head: "queue_list nx pv h t xs \<Longrightarrow> h = None \<longleftrightarrow> xs = []"
  by (simp add: queue_list_def)

lemma queue_list_unique:
  assumes "queue_list nx pv h t xs" and "queue_list nx pv h t' ys"
  shows "xs = ys"
proof (cases xs)
  case Nil
  with assms show ?thesis by (auto simp: queue_list_def)
next
  case (Cons x as)
  with assms obtain bs where ys: "ys = x # bs"
    by (cases ys) (auto simp: queue_list_def)
  with assms Cons have "path nx (x # as) None" "path nx (x # bs) None"
    by (auto simp: queue_list_def dest!: linked_path)
  with Cons ys show ?thesis
    using path_determined by metis
qed

lemma queue_list_cong:
  assumes "queue_list nx pv h t xs" and "\<And>x. x \<in> set xs \<Longrightarrow> nx' x = nx x \<and> pv' x = pv x"
  shows "queue_list nx' pv' h t xs"
  using assms linked_cong [of xs nx nx' pv pv'] by (auto simp: queue_list_def)

lemma queue_list_neighbours:
  assumes "queue_list nx pv h t (ys @ x # zs)"
  shows "pv x = opt_last ys" "nx x = opt_head zs"
  using assms by (auto simp: queue_list_def linked_append last_or_None)

lemma queue_list_next_in:
  assumes "queue_list nx pv h t xs" and "x \<in> set xs" and "nx x = Some y"
  shows "y \<in> set xs"
  using assms split_list [OF assms(2)] queue_list_neighbours
  by (fastforce simp: opt_head_Some)

lemma queue_list_prev_in:
  assumes "queue_list nx pv h t xs" and "x \<in> set xs" and "pv x = Some y"
  shows "y \<in> set xs"
  using assms split_list [OF assms(2)] queue_list_neighbours
  by (fastforce simp: opt_last_Some)

lemma queue_list_unlinked:
  assumes "queue_list nx pv h t xs" and "x \<in> set xs" and "nx x = None" and "pv x = None"
  shows "h = Some x" "t = Some x" "xs = [x]"
proof -
  obtain ys zs where xs: "xs = ys @ x # zs"
    using assms(2) by (meson split_list)
  with assms queue_list_neighbours [of nx pv h t ys x zs] have "ys = []" "zs = []"
    by auto
  with xs show "xs = [x]" by simp
  with assms(1) show "h = Some x" "t = Some x"
    by (auto simp: queue_list_def opt_last_def)
qed

lemma queue_list_unlink:
  assumes q: "queue_list nx pv h t (ys @ x # zs)"
  shows "queue_list ((upd_opt nx (pv x) (nx x))(x := None)) ((upd_opt pv (nx x) (pv x))(x := None))
    (if h = Some x then nx x else h) (if t = Some x then pv x else t) (ys @ zs)"
proof -
  have nb: "pv x = opt_last ys" "nx x = opt_head zs"
    using queue_list_neighbours [OF q] by auto
  have d: "distinct (ys @ x # zs)"
    by (rule queue_listD(4) [OF q])
  have l: "linked nx pv None ys (Some x)" "linked nx pv (Some x) zs None"
    using q by (auto simp: queue_list_def linked_append)
  have out: "x \<notin> set ys" "x \<notin> set zs" "set ys \<inter> set zs = {}"
    using d by auto
  have "linked (upd_opt nx (pv x) (nx x)) (upd_opt pv (nx x) (pv x)) None ys (opt_head zs)"
  proof -
    have "linked (upd_opt nx (pv x) (nx x)) pv None ys (opt_head zs)"
      using linked_relink_end [OF l(1)] d nb by (simp add: last_or_None)
    moreover have "\<And>y. y \<in> set ys \<Longrightarrow> upd_opt pv (nx x) (pv x) y = pv y"
      using nb out by (cases zs) auto
    ultimately show ?thesis
      using linked_cong [of ys "upd_opt nx (pv x) (nx x)" "upd_opt nx (pv x) (nx x)" pv
          "upd_opt pv (nx x) (pv x)"] by simp
  qed
  moreover have "linked (upd_opt nx (pv x) (nx x)) (upd_opt pv (nx x) (pv x)) (opt_last ys) zs None"
  proof -
    have "linked nx (upd_opt pv (nx x) (pv x)) (opt_last ys) zs None"
      using linked_relink_start [OF l(2)] d nb by simp
    moreover have "\<And>y. y \<in> set zs \<Longrightarrow> upd_opt nx (pv x) (nx x) y = nx y"
      using nb out by (cases ys rule: rev_cases) auto
    ultimately show ?thesis
      using linked_cong [of zs nx "upd_opt nx (pv x) (nx x)" "upd_opt pv (nx x) (pv x)"
          "upd_opt pv (nx x) (pv x)"] by simp
  qed
  moreover have "(if h = Some x then nx x else h) = opt_head (ys @ zs)"
    using q nb out by (cases ys) (auto simp: queue_list_def)
  moreover have "(if t = Some x then pv x else t) = opt_last (ys @ zs)"
    using q nb out by (cases zs rule: rev_cases) (auto simp: queue_list_def opt_last_def)
  ultimately show ?thesis
    using out by (simp add: queue_list_def linked_append last_or_None)
qed

lemma queue_list_append:
  assumes q: "queue_list nx pv h t xs" and x: "x \<notin> set xs"
  shows "queue_list (upd_opt (nx(x := None)) t (Some x)) (pv(x := t))
    (if t = None then Some x else h) (Some x) (xs @ [x])"
proof -
  have t: "t = opt_last xs" and d: "distinct xs" and l: "linked nx pv None xs None"
    using queue_listD [OF q] by auto
  have "linked (nx(x := None)) (pv(x := t)) None xs None"
    using l x by simp
  from linked_relink_end [OF this d, of "Some x"] show ?thesis
    using q t x by (cases xs rule: rev_cases)
      (auto simp: queue_list_def linked_append last_or_None neq_Nil_conv)
qed

lemma queue_list_insert_before:
  assumes q: "queue_list nx pv h t (ys @ y # zs)" and x: "x \<notin> set (ys @ y # zs)"
  shows "queue_list (upd_opt (nx(x := Some y)) (pv y) (Some x)) (pv(x := pv y, y := Some x))
    (if pv y = None then Some x else h) t (ys @ x # y # zs)"
proof -
  have nb: "pv y = opt_last ys"
    using queue_list_neighbours [OF q] by auto
  have d: "distinct (ys @ y # zs)"
    by (rule queue_listD(4) [OF q])
  have l: "linked nx pv None ys (Some y)" "linked nx pv (Some y) zs None" "nx y = opt_head zs"
    using q by (auto simp: queue_list_def linked_append)
  have "linked (nx(x := Some y)) (pv(x := pv y, y := Some x)) None ys (Some y)"
    using l x d by simp
  from linked_relink_end [OF this, of "Some x"] d
  have "linked (upd_opt (nx(x := Some y)) (opt_last ys) (Some x)) (pv(x := pv y, y := Some x))
      None ys (Some x)"
    by (simp add: last_or_None)
  moreover have nz: "upd_opt (nx(x := Some y)) (opt_last ys) (Some x) z = (nx(x := Some y)) z"
    if "z \<in> set (x # y # zs)" for z
    using that d x by (cases ys rule: rev_cases) auto
  from this have "linked (upd_opt (nx(x := Some y)) (opt_last ys) (Some x))
      (pv(x := pv y, y := Some x)) (opt_last ys) (x # y # zs) None"
    using l x d nb linked_cong [of zs "upd_opt (nx(x := Some y)) (opt_last ys) (Some x)"
        "nx(x := Some y)" "pv(x := pv y, y := Some x)" "pv(x := pv y, y := Some x)"]
    by auto
  moreover have "(if pv y = None then Some x else h) = opt_head (ys @ x # y # zs)"
    using q nb by (cases ys) (auto simp: queue_list_def)
  moreover have "t = opt_last (ys @ x # y # zs)"
    using q by (simp add: queue_list_def)
  ultimately show ?thesis
    using nb by (simp only: queue_list_def linked_append last_or_None) simp
qed

lemma walk_path:
  assumes "path nx xs None" and "length xs \<le> n"
  shows "walk nx n (opt_head xs) = xs"
  using assms
proof (induction xs arbitrary: n)
  case Nil
  then show ?case by (cases n) simp_all
next
  case (Cons x xs)
  then show ?case by (cases n) auto
qed

lemma walk_queue_list: "queue_list nx pv h t xs \<Longrightarrow> length xs \<le> n \<Longrightarrow> walk nx n h = xs"
  by (auto simp: queue_list_def intro: walk_path linked_path)

section \<open>The interface of a store with links\<close>

text \<open>
  A store of type \<open>'s\<close> holds elements named by \<open>'k\<close>; a live element has a next and a
  previous link, and the store can overwrite one of them or both. Writing through the name of an
  element that is not live is not constrained.
\<close>

locale link_store =
  fixes live :: "'s \<Rightarrow> 'k \<Rightarrow> bool"
    and nx :: "'s \<Rightarrow> 'k \<Rightarrow> 'k option"
    and pv :: "'s \<Rightarrow> 'k \<Rightarrow> 'k option"
    and set_next :: "'k \<Rightarrow> 'k option \<Rightarrow> 's \<Rightarrow> 's"
    and set_prev :: "'k \<Rightarrow> 'k option \<Rightarrow> 's \<Rightarrow> 's"
    and set_links :: "'k \<Rightarrow> 'k option \<Rightarrow> 'k option \<Rightarrow> 's \<Rightarrow> 's"
  assumes live_set_next: "live (set_next k v s) = live s"
    and live_set_prev: "live (set_prev k v s) = live s"
    and live_set_links: "live (set_links k v w s) = live s"
    and nx_set_next: "live s k \<Longrightarrow> nx (set_next k v s) = (nx s)(k := v)"
    and pv_set_next: "pv (set_next k v s) = pv s"
    and nx_set_prev: "nx (set_prev k v s) = nx s"
    and pv_set_prev: "live s k \<Longrightarrow> pv (set_prev k v s) = (pv s)(k := v)"
    and nx_set_links: "live s k \<Longrightarrow> nx (set_links k v w s) = (nx s)(k := v)"
    and pv_set_links: "live s k \<Longrightarrow> pv (set_links k v w s) = (pv s)(k := w)"
begin

abbreviation queue :: "'s \<Rightarrow> 'k option \<Rightarrow> 'k option \<Rightarrow> 'k list \<Rightarrow> bool" where
  "queue s h t xs \<equiv> queue_list (nx s) (pv s) h t xs"

abbreviation splice_out :: "'k \<Rightarrow> 's \<Rightarrow> 's" where
  "splice_out x s \<equiv> set_links x None None
     (on_some (nx s x) (\<lambda>k. set_prev k (pv s x)) (on_some (pv s x) (\<lambda>k. set_next k (nx s x)) s))"

lemma live_on_some:
  "live (on_some k (\<lambda>k. set_next k v) s) = live s"
  "live (on_some k (\<lambda>k. set_prev k v) s) = live s"
  by (cases k; simp add: on_some_def live_set_next live_set_prev)+

lemma links_on_some_next:
  assumes "\<And>x. k = Some x \<Longrightarrow> live s x"
  shows "nx (on_some k (\<lambda>k. set_next k v) s) = upd_opt (nx s) k v"
    "pv (on_some k (\<lambda>k. set_next k v) s) = pv s"
  using assms by (cases k; simp add: on_some_def nx_set_next pv_set_next)+

lemma links_on_some_prev:
  assumes "\<And>x. k = Some x \<Longrightarrow> live s x"
  shows "pv (on_some k (\<lambda>k. set_prev k v) s) = upd_opt (pv s) k v"
    "nx (on_some k (\<lambda>k. set_prev k v) s) = nx s"
  using assms by (cases k; simp add: on_some_def nx_set_prev pv_set_prev)+

lemma splice_out_live: "live (splice_out x s) = live s"
  by (simp add: live_set_links live_on_some)

lemma splice_out_links:
  assumes q: "queue s h t xs" and x: "x \<in> set xs" and l: "\<And>k. k \<in> set xs \<Longrightarrow> live s k"
  shows "nx (splice_out x s) = (upd_opt (nx s) (pv s x) (nx s x))(x := None)"
    "pv (splice_out x s) = (upd_opt (pv s) (nx s x) (pv s x))(x := None)"
proof -
  have "\<And>k. pv s x = Some k \<Longrightarrow> live s k" "\<And>k. nx s x = Some k \<Longrightarrow> live s k" "live s x"
    using q x l queue_list_next_in queue_list_prev_in by metis+
  then show "nx (splice_out x s) = (upd_opt (nx s) (pv s x) (nx s x))(x := None)"
    "pv (splice_out x s) = (upd_opt (pv s) (nx s x) (pv s x))(x := None)"
    by (simp_all add: nx_set_links pv_set_links live_on_some links_on_some_next links_on_some_prev)
qed

lemma splice_out_queue:
  assumes q: "queue s h t (ys @ x # zs)" and l: "\<And>k. k \<in> set (ys @ x # zs) \<Longrightarrow> live s k"
  shows "queue (splice_out x s) (if h = Some x then nx s x else h)
    (if t = Some x then pv s x else t) (ys @ zs)"
  using queue_list_unlink [OF q] splice_out_links [OF q _ l] by simp

lemma splice_out_frame:
  assumes q: "queue s h t xs" and x: "x \<in> set xs" and l: "\<And>k. k \<in> set xs \<Longrightarrow> live s k"
    and k: "k \<notin> set xs"
  shows "nx (splice_out x s) k = nx s k" "pv (splice_out x s) k = pv s k"
  using k x queue_list_next_in [OF q x] queue_list_prev_in [OF q x]
  by (auto simp: splice_out_links [OF q x l] intro!: upd_opt_other)

lemma append_queue:
  assumes q: "queue s h t xs" and x: "x \<notin> set xs" "live s x"
    and l: "\<And>k. k \<in> set xs \<Longrightarrow> live s k"
  defines "s' \<equiv> on_some t (\<lambda>k. set_next k (Some x)) (set_links x None t s)"
  shows "queue s' (if t = None then Some x else h) (Some x) (xs @ [x])"
    and "k \<notin> set (xs @ [x]) \<Longrightarrow> nx s' k = nx s k \<and> pv s' k = pv s k"
proof -
  have t: "\<And>k. t = Some k \<Longrightarrow> live s k \<and> k \<in> set xs"
    using queue_listD(2) [OF q] l by (metis opt_last_in)
  then have links: "nx s' = upd_opt ((nx s)(x := None)) t (Some x)" "pv s' = (pv s)(x := t)"
    using x by (simp_all add: s'_def links_on_some_next live_set_links nx_set_links pv_set_links)
  then show "queue s' (if t = None then Some x else h) (Some x) (xs @ [x])"
    using queue_list_append [OF q x(1)] by simp
  show "k \<notin> set (xs @ [x]) \<Longrightarrow> nx s' k = nx s k \<and> pv s' k = pv s k"
    using t by (cases t) (auto simp: links)
qed

lemma insert_before_queue:
  assumes q: "queue s h t (ys @ y # zs)" and x: "x \<notin> set (ys @ y # zs)" "live s x"
    and l: "\<And>k. k \<in> set (ys @ y # zs) \<Longrightarrow> live s k"
  defines "s' \<equiv> on_some (pv s y) (\<lambda>k. set_next k (Some x))
    (set_prev y (Some x) (set_links x (Some y) (pv s y) s))"
  shows "queue s' (if pv s y = None then Some x else h) t (ys @ x # y # zs)"
    and "k \<notin> set (ys @ x # y # zs) \<Longrightarrow> nx s' k = nx s k \<and> pv s' k = pv s k"
proof -
  have p: "\<And>k. pv s y = Some k \<Longrightarrow> live s k \<and> k \<in> set ys"
    using q l queue_list_neighbours [OF q] by (auto simp: opt_last_Some)
  then have links: "nx s' = upd_opt ((nx s)(x := Some y)) (pv s y) (Some x)"
    "pv s' = (pv s)(x := pv s y, y := Some x)"
    using x l by (simp_all add: s'_def links_on_some_next live_set_links live_set_prev
        nx_set_links pv_set_links nx_set_prev pv_set_prev)
  then show "queue s' (if pv s y = None then Some x else h) t (ys @ x # y # zs)"
    using queue_list_insert_before [OF q x(1)] by simp
  show "k \<notin> set (ys @ x # y # zs) \<Longrightarrow> nx s' k = nx s k \<and> pv s' k = pv s k"
    using p by (cases "pv s y") (auto simp: links)
qed

end

end
