(* ===== verification/Generations.thy ===== *)
theory Generations
  imports Prelude
begin

text \<open>
  Generation counters. Both the object pools and the handle arena hand out a slot together with a
  generation that rises each time the slot is handed out, and refuse an id whose generation is not
  the one of its slot. The locale \<open>generation_store\<close> states that discipline for any store; what
  follows from it is proved once: an id that stopped naming something names nothing again until its
  slot has been handed out \<open>2 ^ 32 - 1\<close> times more.
\<close>

text \<open>The generation a slot gets when it is handed out again; zero is skipped.\<close>

definition next_generation :: "u32 \<Rightarrow> u32" where
  "next_generation g = (if g + 1 = 0 then 1 else g + 1)"

text \<open>
  A run of a labelled step relation. The label is the slot that the step hands out, if it does;
  the number counts such steps.
\<close>

inductive run :: "('s \<Rightarrow> 'l option \<Rightarrow> 's \<Rightarrow> bool) \<Rightarrow> 's \<Rightarrow> nat \<Rightarrow> 's \<Rightarrow> bool" for step where
  run_refl: "run step s 0 s"
| run_quiet: "run step s n t \<Longrightarrow> step t None u \<Longrightarrow> run step s n u"
| run_hand_out: "run step s n t \<Longrightarrow> step t (Some i) u \<Longrightarrow> run step s (Suc n) u"

lemma next_generation_nonzero [simp]: "next_generation g \<noteq> 0"
  by (simp add: next_generation_def)

lemma unat_next_generation:
  assumes "g \<noteq> 0"
  shows "unat (next_generation g) = unat g mod (2 ^ 32 - 1) + 1"
proof (cases "g + 1 = 0")
  case True
  then have "g = - 1"
    by (simp add: eq_neg_iff_add_eq_0)
  with True show ?thesis
    by (simp add: next_generation_def unsigned_minus_1_eq_mask mask_eq_exp_minus_1)
next
  case False
  have "unat g \<noteq> 2 ^ 32 - 1"
  proof
    assume "unat g = 2 ^ 32 - 1"
    then have "unat g = unat (- 1 :: u32)"
      by (simp add: unsigned_minus_1_eq_mask mask_eq_exp_minus_1)
    then have "g = - 1"
      by (simp only: unat_inject)
    with False show False by simp
  qed
  with unat_less_size [of g] have "unat g < 2 ^ 32 - 1" by simp
  with False show ?thesis
    by (simp add: next_generation_def unat_add_fits)
qed

lemma unat_next_generation_power:
  assumes "g \<noteq> 0"
  shows "unat ((next_generation ^^ k) g) = (unat g - 1 + k) mod (2 ^ 32 - 1) + 1"
proof (induction k)
  case 0
  have "0 < unat g"
    using assms by (simp add: unat_gt_0)
  moreover have "unat g < 2 ^ 32"
    using unat_less_size [of g] by simp
  ultimately show ?case by simp
next
  case (Suc k)
  have "(next_generation ^^ k) g \<noteq> 0"
    using Suc by (metis Suc_eq_plus1 nat.distinct(1) unat_0)
  from unat_next_generation [OF this] Suc show ?case
    by (simp add: mod_Suc_eq)
qed

text \<open>The generations of a slot do not repeat before \<open>2 ^ 32 - 1\<close> of them have passed.\<close>

lemma next_generation_cycle:
  assumes "g \<noteq> 0" and "0 < k" and "k < 2 ^ 32 - 1"
  shows "(next_generation ^^ k) g \<noteq> g"
proof
  assume same: "(next_generation ^^ k) g = g"
  define a where "a = unat g - 1"
  have a: "unat g = a + 1" "a < 2 ^ 32 - 1"
    using unat_less_size [of g] assms(1) by (auto simp: a_def unat_gt_0 Suc_leI)
  with same unat_next_generation_power [OF assms(1), of k]
  have "(a + k) mod (2 ^ 32 - 1) = a"
    by (simp del: One_nat_def)
  then have "k mod (2 ^ 32 - 1) = 0 mod (2 ^ 32 - 1)"
    using mod_eq_iff_dvd_symdiff_nat [of "a + k" "2 ^ 32 - 1" a] a(2)
    by (simp add: mod_eq_0_iff_dvd)
  with assms show False by simp
qed

locale generation_store =
  fixes inv :: "'s \<Rightarrow> bool"
    and gen :: "'s \<Rightarrow> u32 \<Rightarrow> u32"
    and names :: "'s \<Rightarrow> u32 \<Rightarrow> u32 \<Rightarrow> bool"
    and step :: "'s \<Rightarrow> u32 option \<Rightarrow> 's \<Rightarrow> bool"
  assumes inv_step: "inv s \<Longrightarrow> step s l t \<Longrightarrow> inv t"
    and names_gen: "names s i g \<Longrightarrow> gen s i = g"
    and quiet_gen: "inv s \<Longrightarrow> step s None t \<Longrightarrow> gen t = gen s"
    and quiet_names: "inv s \<Longrightarrow> step s None t \<Longrightarrow> names t i g \<Longrightarrow> names s i g"
    and hand_out_gen:
      "inv s \<Longrightarrow> step s (Some i) t \<Longrightarrow> gen t = (gen s)(i := next_generation (gen s i))"
    and hand_out_names:
      "inv s \<Longrightarrow> step s (Some i) t \<Longrightarrow> j \<noteq> i \<Longrightarrow> names t j g \<Longrightarrow> names s j g"
begin

lemma inv_run: "run step s n t \<Longrightarrow> inv s \<Longrightarrow> inv t"
  by (induction rule: run.induct) (auto intro: inv_step)

text \<open>After \<open>k\<close> hand-outs of the slot its generation has risen \<open>k\<close> times.\<close>

lemma gen_run:
  assumes "run step s n t" and "inv s" and "\<not> names s i (gen s i)"
  shows "\<exists>k \<le> n. gen t i = (next_generation ^^ k) (gen s i) \<and> (k = 0 \<longrightarrow> \<not> names t i (gen s i))"
  using assms
proof (induction rule: run.induct)
  case (run_quiet s n t u)
  then have "inv t" by (blast intro: inv_run)
  with run_quiet show ?case
    using quiet_gen quiet_names by metis
next
  case (run_hand_out s n t j u)
  then have t: "inv t" by (blast intro: inv_run)
  from run_hand_out obtain k where k: "k \<le> n" "gen t i = (next_generation ^^ k) (gen s i)"
      "k = 0 \<longrightarrow> \<not> names t i (gen s i)"
    by blast
  show ?case
  proof (cases "j = i")
    case True
    with k hand_out_gen [OF t run_hand_out.hyps(2)] show ?thesis
      by (intro exI [of _ "Suc k"]) simp
  next
    case False
    with k hand_out_gen [OF t run_hand_out.hyps(2)] hand_out_names [OF t run_hand_out.hyps(2)]
    show ?thesis by (intro exI [of _ k]) auto
  qed
qed auto

lemma stale_run:
  assumes "run step s n t" and "inv s" and "\<not> names s i g" and "gen s i = g" and "g \<noteq> 0"
    and "n < 2 ^ 32 - 1"
  shows "\<not> names t i g"
proof -
  obtain k where k: "k \<le> n" "gen t i = (next_generation ^^ k) g" "k = 0 \<longrightarrow> \<not> names t i g"
    using gen_run [of s n t i] assms by auto
  show ?thesis
  proof (cases "k = 0")
    case False
    with k assms next_generation_cycle [of g k] have "gen t i \<noteq> g" by simp
    then show ?thesis using names_gen by blast
  qed (use k in simp)
qed

end

end
