(* ===== verification/Pool.thy ===== *)
theory Pool
  imports Abi Chains Generations
begin

text \<open>
  The object pool, \<open>src/crates/kernel/objects/src/pool.rs\<close>: a fixed number of slots, each free
  or held by a value with a reference count, ids that carry the generation of their slot, and a
  free list threaded through the released slots.

  \<open>Pool<T, N>\<close> is \<open>'t pool\<close> with \<open>N\<close> the length of the slot array, and
  \<open>ObjectId<T>\<close> is \<open>object_id\<close> (the phantom parameter carries no value).
  \<open>get_mut\<close> hands out a reference in the source; here it takes the change that is made through
  it. \<open>pool_wf p fl\<close> is the invariant of the module documentation with the list \<open>fl\<close> of
  released slots made explicit; \<open>pool_map\<close> is the partial function from ids to values that the
  other components reason with.
\<close>

section \<open>Ids and slots\<close>

datatype object_id = ObjectId (oid_index: u32) (oid_generation: u32)

datatype pool_error = Exhausted | StaleId | RefOverflow

fun error_of_pool_error :: "pool_error \<Rightarrow> error" where
  "error_of_pool_error Exhausted = PoolExhausted"
| "error_of_pool_error StaleId = InvalidHandle"
| "error_of_pool_error RefOverflow = QuotaExceeded"

record 't occupant =
  oc_refs :: u32
  oc_value :: 't

datatype 't occupancy = Free | Held "'t occupant"

fun occupancy_as_ref :: "'t occupancy \<Rightarrow> 't occupant option" where
  "occupancy_as_ref Free = None"
| "occupancy_as_ref (Held occupant) = Some occupant"

fun occupancy_is_free :: "'t occupancy \<Rightarrow> bool" where
  "occupancy_is_free Free = True"
| "occupancy_is_free (Held _) = False"

definition occupancy_clear :: "'t occupancy \<Rightarrow> bool \<times> 't occupancy" where
  "occupancy_clear self = (let held = \<not> occupancy_is_free self in (held, Free))"

record 't slot =
  sl_generation :: u32
  sl_next_free :: "u32 option"
  sl_occupancy :: "'t occupancy"

definition slot_FREE :: "'t slot" where
  "slot_FREE = \<lparr>sl_generation = 0, sl_next_free = None, sl_occupancy = Free\<rparr>"

section \<open>The pool\<close>

record 't pool =
  pl_slots :: "'t slot list"
  pl_free_head :: "u32 option"
  pl_free_tail :: "u32 option"
  pl_high_water :: u32
  pl_live :: u32

definition pool_new :: "nat \<Rightarrow> 't pool" where
  "pool_new n = \<lparr>pl_slots = replicate n slot_FREE, pl_free_head = None, pl_free_tail = None,
     pl_high_water = 0, pl_live = 0\<rparr>"

definition pool_capacity :: "'t pool \<Rightarrow> u32" where
  "pool_capacity p = (if length (pl_slots p) < 2 ^ 32 then of_nat (length (pl_slots p)) else - 1)"

definition pool_is_empty :: "'t pool \<Rightarrow> bool" where
  "pool_is_empty p = (pl_live p = 0)"

definition pool_slot :: "'t pool \<Rightarrow> u32 \<Rightarrow> 't slot option" where
  "pool_slot p index = array_get (pl_slots p) (unat index)"

definition pool_set_slot :: "'t pool \<Rightarrow> u32 \<Rightarrow> 't slot \<Rightarrow> 't pool" where
  "pool_set_slot p index slot = p\<lparr>pl_slots := array_set (pl_slots p) (unat index) slot\<rparr>"

definition pool_occupant :: "'t pool \<Rightarrow> object_id \<Rightarrow> pool_error + 't occupant" where
  "pool_occupant p oid =
     (case pool_slot p (oid_index oid) of
        None \<Rightarrow> Inl StaleId
      | Some slot \<Rightarrow>
          if sl_generation slot \<noteq> oid_generation oid then Inl StaleId
          else ok_or (occupancy_as_ref (sl_occupancy slot)) StaleId)"

text \<open>A write through the reference that \<open>occupant_mut\<close> returns.\<close>

definition pool_occupant_mut ::
  "'t pool \<Rightarrow> object_id \<Rightarrow> ('t occupant \<Rightarrow> 't occupant) \<Rightarrow> (pool_error + unit) \<times> 't pool" where
  "pool_occupant_mut p oid change =
     (case pool_slot p (oid_index oid) of
        None \<Rightarrow> (Inl StaleId, p)
      | Some slot \<Rightarrow>
          if sl_generation slot \<noteq> oid_generation oid then (Inl StaleId, p)
          else (case sl_occupancy slot of
                  Free \<Rightarrow> (Inl StaleId, p)
                | Held occupant \<Rightarrow>
                    (Inr (), pool_set_slot p (oid_index oid)
                       (slot\<lparr>sl_occupancy := Held (change occupant)\<rparr>))))"

definition pool_take_free_slot :: "'t pool \<Rightarrow> (pool_error + u32) \<times> 't pool" where
  "pool_take_free_slot p =
     (case pl_free_head p of
        Some index \<Rightarrow>
          let next_free = Option.bind (pool_slot p index) sl_next_free;
              p = p\<lparr>pl_free_head := next_free\<rparr>;
              p = (if next_free = None then p\<lparr>pl_free_tail := None\<rparr> else p)
          in (Inr index, p)
      | None \<Rightarrow>
          if unat (pl_high_water p) < length (pl_slots p)
          then (Inr (pl_high_water p), p\<lparr>pl_high_water := saturating_add (pl_high_water p) 1\<rparr>)
          else (Inl Exhausted, p))"

definition pool_allocate :: "'t pool \<Rightarrow> 't \<Rightarrow> (pool_error + object_id) \<times> 't pool" where
  "pool_allocate p v =
     try_state (pool_take_free_slot p) (\<lambda>index p.
       case pool_slot p index of
         None \<Rightarrow> (Inl Exhausted, p)
       | Some slot \<Rightarrow>
           let generation = next_generation (sl_generation slot);
               p = pool_set_slot p index
                 \<lparr>sl_generation = generation, sl_next_free = None,
                  sl_occupancy = Held \<lparr>oc_refs = 1, oc_value = v\<rparr>\<rparr>;
               p = p\<lparr>pl_live := saturating_add (pl_live p) 1\<rparr>
           in (Inr (ObjectId index generation), p))"

definition pool_get :: "'t pool \<Rightarrow> object_id \<Rightarrow> pool_error + 't" where
  "pool_get p oid = map_sum (\<lambda>e. e) oc_value (pool_occupant p oid)"

definition pool_get_mut ::
  "'t pool \<Rightarrow> object_id \<Rightarrow> ('t \<Rightarrow> 't) \<Rightarrow> (pool_error + unit) \<times> 't pool" where
  "pool_get_mut p oid body = pool_occupant_mut p oid (oc_value_update body)"

definition pool_references :: "'t pool \<Rightarrow> object_id \<Rightarrow> pool_error + u32" where
  "pool_references p oid = map_sum (\<lambda>e. e) oc_refs (pool_occupant p oid)"

definition pool_retain :: "'t pool \<Rightarrow> object_id \<Rightarrow> (pool_error + unit) \<times> 't pool" where
  "pool_retain p oid =
     (case pool_occupant p oid of
        Inl e \<Rightarrow> (Inl e, p)
      | Inr occupant \<Rightarrow>
          (case checked_add (oc_refs occupant) 1 of
             None \<Rightarrow> (Inl RefOverflow, p)
           | Some refs \<Rightarrow> pool_occupant_mut p oid (\<lambda>occupant. occupant\<lparr>oc_refs := refs\<rparr>)))"

definition pool_link_free :: "'t pool \<Rightarrow> u32 \<Rightarrow> u32 \<Rightarrow> 't pool" where
  "pool_link_free p tail index =
     (case pool_slot p tail of
        None \<Rightarrow> p
      | Some slot \<Rightarrow> pool_set_slot p tail (slot\<lparr>sl_next_free := Some index\<rparr>))"

definition pool_release :: "'t pool \<Rightarrow> object_id \<Rightarrow> (pool_error + bool) \<times> 't pool" where
  "pool_release p oid =
     (case pool_occupant p oid of
        Inl e \<Rightarrow> (Inl e, p)
      | Inr occupant \<Rightarrow>
          if 1 < oc_refs occupant then
            (Inr False, snd (pool_occupant_mut p oid
               (\<lambda>occupant. occupant\<lparr>oc_refs := saturating_sub (oc_refs occupant) 1\<rparr>)))
          else
            (case pool_slot p (oid_index oid) of
               None \<Rightarrow> (Inl StaleId, p)
             | Some slot \<Rightarrow>
                 let (freed, occupancy) = occupancy_clear (sl_occupancy slot);
                     p = pool_set_slot p (oid_index oid)
                       (slot\<lparr>sl_occupancy := occupancy, sl_next_free := None\<rparr>);
                     p = p\<lparr>pl_live := saturating_sub (pl_live p) 1\<rparr>;
                     p = (case pl_free_tail p of
                            Some tail \<Rightarrow> pool_link_free p tail (oid_index oid)
                          | None \<Rightarrow> p\<lparr>pl_free_head := Some (oid_index oid)\<rparr>);
                     p = p\<lparr>pl_free_tail := Some (oid_index oid)\<rparr>
                 in (Inr freed, p)))"

definition pool_force_release :: "'t pool \<Rightarrow> object_id \<Rightarrow> bool \<times> 't pool" where
  "pool_force_release p oid =
     (case pool_occupant_mut p oid (\<lambda>occupant. occupant\<lparr>oc_refs := 1\<rparr>) of
        (Inl _, p) \<Rightarrow> (False, p)
      | (Inr _, p) \<Rightarrow>
          (case pool_release p oid of (Inl _, p) \<Rightarrow> (False, p) | (Inr freed, p) \<Rightarrow> (freed, p)))"

definition pool_with :: "'t pool \<Rightarrow> object_id \<Rightarrow> ('t \<Rightarrow> 't) \<Rightarrow> bool \<times> 't pool" where
  "pool_with p oid body =
     (case pool_get_mut p oid body of (Inr _, p) \<Rightarrow> (True, p) | (Inl _, p) \<Rightarrow> (False, p))"

text \<open>
  The change alone, as the many callers use it that have looked the object up before: nothing
  happens when the oid is stale.
\<close>

definition pool_modify :: "'t pool \<Rightarrow> object_id \<Rightarrow> ('t \<Rightarrow> 't) \<Rightarrow> 't pool" where
  "pool_modify p oid body = snd (pool_get_mut p oid body)"

definition pool_iter :: "'t pool \<Rightarrow> (object_id \<times> 't) list" where
  "pool_iter p = List.map_filter
     (\<lambda>(index, slot). map_option
        (\<lambda>occupant. (ObjectId (of_nat index) (sl_generation slot), oc_value occupant))
        (occupancy_as_ref (sl_occupancy slot)))
     (enumerate 0 (take (unat (pl_high_water p)) (pl_slots p)))"

definition pool_ids :: "'t pool \<Rightarrow> object_id list" where
  "pool_ids p = map fst (pool_iter p)"

section \<open>The view and the invariant\<close>

definition pool_map :: "'t pool \<Rightarrow> object_id \<rightharpoonup> 't" where
  "pool_map p oid = ok (pool_get p oid)"

definition pool_refs :: "'t pool \<Rightarrow> object_id \<Rightarrow> nat" where
  "pool_refs p oid = (case pool_references p oid of Inl _ \<Rightarrow> 0 | Inr n \<Rightarrow> unat n)"

definition next_free_of :: "'t pool \<Rightarrow> u32 \<Rightarrow> u32 option" where
  "next_free_of p index = Option.bind (pool_slot p index) sl_next_free"

definition slot_free :: "'t pool \<Rightarrow> u32 \<Rightarrow> bool" where
  "slot_free p index =
     (case pool_slot p index of None \<Rightarrow> False | Some slot \<Rightarrow> occupancy_is_free (sl_occupancy slot))"

definition slot_ok :: "'t slot \<Rightarrow> bool" where
  "slot_ok s = (case sl_occupancy s of
     Free \<Rightarrow> True | Held occupant \<Rightarrow> 1 \<le> oc_refs occupant \<and> sl_generation s \<noteq> 0)"

definition pool_count :: "'t pool \<Rightarrow> nat" where
  "pool_count p = length (filter (\<lambda>s. \<not> occupancy_is_free (sl_occupancy s)) (pl_slots p))"

definition pool_wf :: "'t pool \<Rightarrow> u32 list \<Rightarrow> bool" where
  "pool_wf p fl \<longleftrightarrow>
     length (pl_slots p) < 2 ^ 32 \<and>
     unat (pl_high_water p) \<le> length (pl_slots p) \<and>
     path (next_free_of p) fl None \<and> pl_free_head p = opt_head fl \<and> pl_free_tail p = opt_last fl \<and>
     (\<forall>i. unat i < unat (pl_high_water p) \<longrightarrow> (slot_free p i \<longleftrightarrow> i \<in> set fl)) \<and>
     (\<forall>i \<in> set fl. unat i < unat (pl_high_water p)) \<and>
     (\<forall>i < length (pl_slots p). unat (pl_high_water p) \<le> i \<longrightarrow> pl_slots p ! i = slot_FREE) \<and>
     (\<forall>s \<in> set (pl_slots p). slot_ok s) \<and>
     unat (pl_live p) = pool_count p"

text \<open>The list of released slots, read from the links.\<close>

definition pool_free_list :: "'t pool \<Rightarrow> u32 list" where
  "pool_free_list p = walk (next_free_of p) (length (pl_slots p)) (pl_free_head p)"

definition pool_inv :: "'t pool \<Rightarrow> bool" where
  "pool_inv p = pool_wf p (pool_free_list p)"

text \<open>The slot that the next allocation takes, if there is one.\<close>

definition next_slot :: "'t pool \<Rightarrow> u32 list \<Rightarrow> u32 option" where
  "next_slot p fl = (case fl of
     i # _ \<Rightarrow> Some i
   | [] \<Rightarrow> if unat (pl_high_water p) < length (pl_slots p) then Some (pl_high_water p) else None)"

definition pool_generation :: "'t pool \<Rightarrow> u32 \<Rightarrow> u32" where
  "pool_generation p i = (case pool_slot p i of None \<Rightarrow> 0 | Some s \<Rightarrow> sl_generation s)"

text \<open>A slot handed out with a value, and a slot given back.\<close>

definition filled :: "'t slot \<Rightarrow> 't \<Rightarrow> 't slot" where
  "filled s v = \<lparr>sl_generation = next_generation (sl_generation s), sl_next_free = None,
     sl_occupancy = Held \<lparr>oc_refs = 1, oc_value = v\<rparr>\<rparr>"

definition freed :: "'t slot \<Rightarrow> 't slot" where
  "freed s = s\<lparr>sl_occupancy := Free, sl_next_free := None\<rparr>"

text \<open>The link from the last released slot, or from the head, to a slot given back.\<close>

definition free_append :: "'t pool \<Rightarrow> u32 option \<Rightarrow> u32 \<Rightarrow> 't pool" where
  "free_append p tail i = (case tail of
     Some t \<Rightarrow> pool_link_free p t i | None \<Rightarrow> p\<lparr>pl_free_head := Some i\<rparr>)"

text \<open>
  Every change a caller can make to a pool. The label is the slot that is handed out, if one is.
\<close>

inductive pool_step :: "'t pool \<Rightarrow> u32 option \<Rightarrow> 't pool \<Rightarrow> bool" where
  step_allocate: "pool_allocate p v = (Inr oid, q) \<Longrightarrow> pool_step p (Some (oid_index oid)) q"
| step_exhausted: "pool_allocate p v = (Inl e, q) \<Longrightarrow> pool_step p None q"
| step_retain: "pool_retain p oid = (r, q) \<Longrightarrow> pool_step p None q"
| step_release: "pool_release p oid = (r, q) \<Longrightarrow> pool_step p None q"
| step_force_release: "pool_force_release p oid = (b, q) \<Longrightarrow> pool_step p None q"
| step_get_mut: "pool_get_mut p oid f = (r, q) \<Longrightarrow> pool_step p None q"
| step_with: "pool_with p oid f = (b, q) \<Longrightarrow> pool_step p None q"

definition pool_names :: "'t pool \<Rightarrow> u32 \<Rightarrow> u32 \<Rightarrow> bool" where
  "pool_names p i g = (pool_map p (ObjectId i g) \<noteq> None)"

section \<open>Slots and ids\<close>

lemma slots_set_slot [simp]:
  "length (pl_slots (pool_set_slot p i s)) = length (pl_slots p)"
  "pl_high_water (pool_set_slot p i s) = pl_high_water p"
  "pl_free_head (pool_set_slot p i s) = pl_free_head p"
  "pl_free_tail (pool_set_slot p i s) = pl_free_tail p"
  "pl_live (pool_set_slot p i s) = pl_live p"
  by (simp_all add: pool_set_slot_def)

lemma pool_slot_updates [simp]:
  "pool_slot (p\<lparr>pl_live := n\<rparr>) i = pool_slot p i"
  "pool_slot (p\<lparr>pl_free_head := h\<rparr>) i = pool_slot p i"
  "pool_slot (p\<lparr>pl_free_tail := h\<rparr>) i = pool_slot p i"
  "pool_slot (p\<lparr>pl_high_water := n\<rparr>) i = pool_slot p i"
  by (simp_all add: pool_slot_def)

lemma pool_slot_set:
  "pool_slot (pool_set_slot p i s) j =
     (if j = i \<and> pool_slot p i \<noteq> None then Some s else pool_slot p j)"
  by (auto simp: pool_slot_def pool_set_slot_def array_get_set)

lemma pool_slot_in_range: "pool_slot p i = Some s \<Longrightarrow> unat i < length (pl_slots p) \<and> s = pl_slots p ! unat i"
  by (auto simp: pool_slot_def array_get_Some)

lemma pool_occupant_alt:
  "pool_occupant p oid = Inr oc \<longleftrightarrow> (\<exists>s. pool_slot p (oid_index oid) = Some s \<and>
     sl_generation s = oid_generation oid \<and> sl_occupancy s = Held oc)"
  by (cases "pool_slot p (oid_index oid)"; cases "sl_occupancy (the (pool_slot p (oid_index oid)))")
    (auto simp: pool_occupant_def)

lemma pool_occupant_stale: "pool_occupant p oid = Inl e \<Longrightarrow> e = StaleId"
  by (auto simp: pool_occupant_def ok_or_def split: option.splits if_splits)

lemma pool_map_eq_Some:
  "pool_map p oid = Some v \<longleftrightarrow> (\<exists>s oc. pool_slot p (oid_index oid) = Some s \<and>
     sl_generation s = oid_generation oid \<and> sl_occupancy s = Held oc \<and> oc_value oc = v)"
proof -
  have "pool_map p oid = Some v \<longleftrightarrow> (\<exists>oc. pool_occupant p oid = Inr oc \<and> oc_value oc = v)"
    by (cases "pool_occupant p oid") (auto simp: pool_map_def pool_get_def)
  then show ?thesis by (auto simp: pool_occupant_alt)
qed

lemma pool_get_map:
  "pool_get p oid = (case pool_map p oid of None \<Rightarrow> Inl StaleId | Some v \<Rightarrow> Inr v)"
  by (cases "pool_occupant p oid") (auto simp: pool_map_def pool_get_def dest: pool_occupant_stale)

lemma pool_occupant_map:
  "pool_map p oid = None \<Longrightarrow> pool_occupant p oid = Inl StaleId"
  "pool_map p oid = Some v \<Longrightarrow> \<exists>oc. pool_occupant p oid = Inr oc \<and> oc_value oc = v"
  by (cases "pool_occupant p oid"; auto simp: pool_map_def pool_get_def dest: pool_occupant_stale)+

lemma pool_occupant_mut_fst:
  "fst (pool_occupant_mut p oid f) = (case pool_map p oid of None \<Rightarrow> Inl StaleId | Some _ \<Rightarrow> Inr ())"
  by (auto simp: pool_occupant_mut_def pool_map_def pool_get_def pool_occupant_def
      split: option.splits occupancy.splits)

lemma pool_occupant_mut_stale: "pool_map p oid = None \<Longrightarrow> snd (pool_occupant_mut p oid f) = p"
  by (auto simp: pool_occupant_mut_def pool_map_def pool_get_def pool_occupant_def
      split: option.splits occupancy.splits)

lemma pool_occupant_mut_eq:
  "pool_slot p (oid_index oid) = Some s \<Longrightarrow> sl_generation s = oid_generation oid \<Longrightarrow>
   sl_occupancy s = Held oc \<Longrightarrow>
   pool_occupant_mut p oid f =
     (Inr (), pool_set_slot p (oid_index oid) (s\<lparr>sl_occupancy := Held (f oc)\<rparr>))"
  by (simp add: pool_occupant_mut_def)

section \<open>Reading after writing\<close>

lemma pool_map_set_held:
  assumes "pool_slot p (oid_index oid) = Some s" and "sl_generation s' = oid_generation oid"
    and "sl_occupancy s' = Held oc"
    and "\<And>oid'. oid_index oid' = oid_index oid \<Longrightarrow> oid' \<noteq> oid \<Longrightarrow> pool_map p oid' = None"
  shows "pool_map (pool_set_slot p (oid_index oid) s') = (pool_map p)(oid \<mapsto> oc_value oc)"
proof
  fix oid'
  show "pool_map (pool_set_slot p (oid_index oid) s') oid' =
    ((pool_map p)(oid \<mapsto> oc_value oc)) oid'"
  proof (cases "oid_index oid' = oid_index oid \<and> oid' \<noteq> oid")
    case True
    then have "oid_generation oid' \<noteq> oid_generation oid"
      by (auto simp: object_id.expand)
    with True assms show ?thesis
      by (simp add: pool_map_def pool_get_def pool_occupant_def pool_slot_set)
  next
    case False
    with assms(1-3) show ?thesis
      by (auto simp: pool_map_def pool_get_def pool_occupant_def pool_slot_set)
  qed
qed

lemma pool_map_one_generation:
  "pool_map p oid = Some v \<Longrightarrow> pool_map p oid' = Some w \<Longrightarrow> oid_index oid' = oid_index oid \<Longrightarrow> oid' = oid"
  by (cases oid; cases oid') (auto simp: pool_map_eq_Some)

lemma pool_map_occupant_mut:
  assumes "pool_map p oid = Some v" and "pool_occupant p oid = Inr oc"
  shows "pool_map (snd (pool_occupant_mut p oid f)) = (pool_map p)(oid \<mapsto> oc_value (f oc))"
proof -
  obtain s where s: "pool_slot p (oid_index oid) = Some s" "sl_generation s = oid_generation oid"
      "sl_occupancy s = Held oc"
    using assms(2) by (auto simp: pool_occupant_alt)
  show ?thesis
    unfolding pool_occupant_mut_eq [OF s] snd_conv
  proof (rule pool_map_set_held [OF s(1)])
    fix oid'
    assume "oid_index oid' = oid_index oid" "oid' \<noteq> oid"
    with assms(1) show "pool_map p oid' = None"
      using pool_map_one_generation by (metis not_Some_eq)
  qed (simp_all add: s)
qed

lemma pool_map_modify [views]:
  "pool_map (pool_modify p oid f) =
     (case pool_map p oid of None \<Rightarrow> pool_map p | Some v \<Rightarrow> (pool_map p)(oid \<mapsto> f v))"
proof (cases "pool_map p oid")
  case None
  then show ?thesis
    by (simp add: pool_modify_def pool_get_mut_def pool_occupant_mut_stale)
next
  case (Some v)
  then obtain oc where "pool_occupant p oid = Inr oc" "oc_value oc = v"
    using pool_occupant_map by metis
  with Some show ?thesis
    by (simp add: pool_modify_def pool_get_mut_def pool_map_occupant_mut)
qed

lemma pool_map_modify_live [simp]:
  "pool_map p oid = Some v \<Longrightarrow> pool_map (pool_modify p oid f) = (pool_map p)(oid \<mapsto> f v)"
  by (simp add: views)

lemma pool_modify_stale [simp]: "pool_map p oid = None \<Longrightarrow> pool_modify p oid f = p"
  by (simp add: pool_modify_def pool_get_mut_def pool_occupant_mut_stale)

lemma pool_map_modify_dom [simp]: "dom (pool_map (pool_modify p oid f)) = dom (pool_map p)"
  by (auto simp: views split: option.splits)

lemma pool_map_modify_None [simp]: "pool_map (pool_modify p oid f) x = None \<longleftrightarrow> pool_map p x = None"
  by (auto simp: views split: option.splits)

lemma pool_get_mut_eq:
  "pool_get_mut p oid f =
     (case pool_map p oid of None \<Rightarrow> (Inl StaleId, p) | Some _ \<Rightarrow> (Inr (), pool_modify p oid f))"
  by (auto simp: pool_modify_def pool_get_mut_def prod_eq_iff pool_occupant_mut_fst
      pool_occupant_mut_stale split: option.splits)

lemma pool_with_eq: "pool_with p oid f = (pool_map p oid \<noteq> None, pool_modify p oid f)"
  by (auto simp: pool_with_def pool_get_mut_eq split: option.splits)

section \<open>The invariant\<close>

lemma next_free_updates [simp]:
  "next_free_of (p\<lparr>pl_live := n\<rparr>) = next_free_of p"
  "next_free_of (p\<lparr>pl_free_head := h\<rparr>) = next_free_of p"
  "next_free_of (p\<lparr>pl_free_tail := h\<rparr>) = next_free_of p"
  "next_free_of (p\<lparr>pl_high_water := n\<rparr>) = next_free_of p"
  by (simp_all add: next_free_of_def fun_eq_iff)

lemma slot_free_updates [simp]:
  "slot_free (p\<lparr>pl_live := n\<rparr>) = slot_free p"
  "slot_free (p\<lparr>pl_free_head := h\<rparr>) = slot_free p"
  "slot_free (p\<lparr>pl_free_tail := h\<rparr>) = slot_free p"
  "slot_free (p\<lparr>pl_high_water := n\<rparr>) = slot_free p"
  by (simp_all add: slot_free_def fun_eq_iff)

lemma pool_map_updates [simp]:
  "pool_map (p\<lparr>pl_live := n\<rparr>) = pool_map p"
  "pool_map (p\<lparr>pl_free_head := h\<rparr>) = pool_map p"
  "pool_map (p\<lparr>pl_free_tail := h\<rparr>) = pool_map p"
  "pool_map (p\<lparr>pl_high_water := n\<rparr>) = pool_map p"
  by (simp_all add: pool_map_def pool_get_def pool_occupant_def fun_eq_iff)

lemma pool_count_updates [simp]:
  "pool_count (p\<lparr>pl_live := n\<rparr>) = pool_count p"
  "pool_count (p\<lparr>pl_free_head := h\<rparr>) = pool_count p"
  "pool_count (p\<lparr>pl_free_tail := h\<rparr>) = pool_count p"
  "pool_count (p\<lparr>pl_high_water := k\<rparr>) = pool_count p"
  by (simp_all add: pool_count_def)

lemma next_free_set_slot:
  "pool_slot p i = Some s \<Longrightarrow> next_free_of (pool_set_slot p i s') = (next_free_of p)(i := sl_next_free s')"
  by (auto simp: next_free_of_def pool_slot_set fun_eq_iff)

lemma slot_free_set_slot:
  "pool_slot p i = Some s \<Longrightarrow>
   slot_free (pool_set_slot p i s') = (slot_free p)(i := occupancy_is_free (sl_occupancy s'))"
  by (auto simp: slot_free_def pool_slot_set fun_eq_iff)

lemma nth_set_slot:
  "j < length (pl_slots p) \<Longrightarrow>
   pl_slots (pool_set_slot p i s') ! j = (if j = unat i then s' else pl_slots p ! j)"
  by (simp add: pool_set_slot_def nth_array_set)

lemma set_set_slot: "s \<in> set (pl_slots (pool_set_slot p i s')) \<Longrightarrow> s = s' \<or> s \<in> set (pl_slots p)"
  by (auto simp: pool_set_slot_def array_set_def dest: set_update_subset_insert [THEN subsetD])

lemma slots_ok_set_slot:
  "slot_ok s' \<Longrightarrow> \<forall>s \<in> set (pl_slots p). slot_ok s \<Longrightarrow> \<forall>s \<in> set (pl_slots (pool_set_slot p i s')). slot_ok s"
  using set_set_slot by metis

lemma pool_count_set_slot:
  assumes "pool_slot p i = Some s"
  shows "pool_count (pool_set_slot p i s') + of_bool (\<not> occupancy_is_free (sl_occupancy s)) =
    pool_count p + of_bool (\<not> occupancy_is_free (sl_occupancy s'))"
  using pool_slot_in_range [OF assms]
    length_filter_update [of "unat i" "pl_slots p" "\<lambda>s. \<not> occupancy_is_free (sl_occupancy s)" s']
  by (simp add: pool_count_def pool_set_slot_def array_set_def)

lemma pool_wfD:
  assumes "pool_wf p fl"
  shows "length (pl_slots p) < 2 ^ 32" "unat (pl_high_water p) \<le> length (pl_slots p)"
    "path (next_free_of p) fl None" "pl_free_head p = opt_head fl" "pl_free_tail p = opt_last fl"
    "\<And>i. unat i < unat (pl_high_water p) \<Longrightarrow> slot_free p i \<longleftrightarrow> i \<in> set fl"
    "\<And>i. i \<in> set fl \<Longrightarrow> unat i < unat (pl_high_water p)"
    "\<And>i. i < length (pl_slots p) \<Longrightarrow> unat (pl_high_water p) \<le> i \<Longrightarrow> pl_slots p ! i = slot_FREE"
    "\<And>s. s \<in> set (pl_slots p) \<Longrightarrow> slot_ok s" "unat (pl_live p) = pool_count p" "distinct fl"
  using assms by (auto simp: pool_wf_def intro: path_distinct)

lemma pool_wf_slot:
  assumes "pool_wf p fl" and "pool_slot p i = Some s"
  shows "slot_ok s" "unat (pl_high_water p) \<le> unat i \<Longrightarrow> s = slot_FREE"
  using pool_slot_in_range [OF assms(2)] pool_wfD [OF assms(1)] by auto

lemma pool_wf_below:
  assumes "pool_wf p fl" and "unat i < unat (pl_high_water p)"
  obtains s where "pool_slot p i = Some s"
  using assms pool_wfD(2) [OF assms(1)] by (auto simp: pool_slot_def)

lemma pool_wf_held_below:
  assumes "pool_wf p fl" and "pool_slot p i = Some s" and "sl_occupancy s = Held oc"
  shows "unat i < unat (pl_high_water p)" "i \<notin> set fl"
proof -
  show "unat i < unat (pl_high_water p)"
    using pool_wf_slot(2) [OF assms(1,2)] assms(3) by (force simp: slot_FREE_def not_less)
  then show "i \<notin> set fl"
    using pool_wfD(6) [OF assms(1), of i] assms(2,3) by (simp add: slot_free_def)
qed

lemma pool_wf_occupant:
  assumes "pool_wf p fl" and "pool_occupant p oid = Inr oc"
  shows "1 \<le> oc_refs oc" "oid_generation oid \<noteq> 0"
proof -
  obtain s where "pool_slot p (oid_index oid) = Some s" "sl_generation s = oid_generation oid"
      "sl_occupancy s = Held oc"
    using assms(2) by (auto simp: pool_occupant_alt)
  with pool_wf_slot(1) [OF assms(1)] show "1 \<le> oc_refs oc" "oid_generation oid \<noteq> 0"
    by (force simp: slot_ok_def)+
qed

lemma pool_wf_set_held:
  assumes wf: "pool_wf p fl" and s: "pool_slot p i = Some s" "sl_occupancy s = Held oc"
    and s': "sl_next_free s' = sl_next_free s" "sl_occupancy s' = Held oc'" "slot_ok s'"
  shows "pool_wf (pool_set_slot p i s') fl"
proof -
  have "pool_count (pool_set_slot p i s') = pool_count p"
    using pool_count_set_slot [OF s(1), of s'] s(2) s'(2) by simp
  moreover have "next_free_of (pool_set_slot p i s') = next_free_of p"
    using s(1) s'(1) by (auto simp: next_free_set_slot next_free_of_def fun_eq_iff)
  moreover have "slot_free (pool_set_slot p i s') = slot_free p"
    using s s'(2) by (auto simp: slot_free_set_slot slot_free_def fun_eq_iff)
  ultimately show ?thesis
    using wf pool_wf_held_below [OF wf s] slots_ok_set_slot [OF s'(3), of p i]
    unfolding pool_wf_def by (auto simp: nth_set_slot)
qed

lemma pool_wf_occupant_mut:
  assumes wf: "pool_wf p fl" and f: "\<And>oc. pool_occupant p oid = Inr oc \<Longrightarrow> 1 \<le> oc_refs (f oc)"
  shows "pool_wf (snd (pool_occupant_mut p oid f)) fl"
proof (cases "pool_map p oid")
  case None
  with wf show ?thesis by (simp add: pool_occupant_mut_stale)
next
  case (Some v)
  then obtain s oc where s: "pool_slot p (oid_index oid) = Some s"
      "sl_generation s = oid_generation oid" "sl_occupancy s = Held oc"
    by (auto simp: pool_map_eq_Some)
  then have "pool_occupant p oid = Inr oc"
    by (auto simp: pool_occupant_alt)
  with f pool_wf_slot(1) [OF wf s(1)] s(3)
  have "slot_ok (s\<lparr>sl_occupancy := Held (f oc)\<rparr>)"
    by (simp add: slot_ok_def)
  then show ?thesis
    using pool_wf_set_held [OF wf s(1,3)] by (simp add: pool_occupant_mut_eq [OF s])
qed

lemma pool_wf_modify: "pool_wf p fl \<Longrightarrow> pool_wf (pool_modify p oid f) fl"
proof -
  assume wf: "pool_wf p fl"
  then show ?thesis
    unfolding pool_modify_def pool_get_mut_def
    by (intro pool_wf_occupant_mut) (auto dest: pool_wf_occupant)
qed

lemma pool_wf_new: "n < 2 ^ 32 \<Longrightarrow> pool_wf (pool_new n) []"
  by (auto simp: pool_wf_def pool_new_def slot_ok_def slot_FREE_def pool_count_def
      filter_empty_conv)

section \<open>Allocation\<close>

lemma pool_wf_free_slot:
  assumes wf: "pool_wf p fl" and "slot_free p i"
  shows "i \<in> set fl \<or> unat (pl_high_water p) \<le> unat i"
  using pool_wfD(6) [OF wf, of i] assms(2) by (meson not_le)

lemma pool_map_free_slot: "slot_free p (oid_index oid) \<Longrightarrow> pool_map p oid = None"
  by (cases "pool_map p oid") (auto simp: slot_free_def pool_map_eq_Some)

lemma pool_map_set_free:
  assumes "pool_slot p i = Some s" and "sl_occupancy s' = Free"
  shows "pool_map (pool_set_slot p i s') oid = (if oid_index oid = i then None else pool_map p oid)"
  using assms by (auto simp: pool_map_def pool_get_def pool_occupant_def pool_slot_set)

lemma next_slot_free:
  assumes wf: "pool_wf p fl" and i: "next_slot p fl = Some i"
  shows "\<exists>s. pool_slot p i = Some s \<and> sl_occupancy s = Free"
proof (cases fl)
  case Nil
  with i have "i = pl_high_water p" "unat i < length (pl_slots p)"
    by (auto simp: next_slot_def split: if_splits)
  with pool_wfD(8) [OF wf, of "unat i"] show ?thesis
    by (auto simp: pool_slot_def slot_FREE_def)
next
  case (Cons j fl')
  with i have "i \<in> set fl" by (simp add: next_slot_def)
  with pool_wfD(6,7) [OF wf] have "slot_free p i" by blast
  then show ?thesis
    by (auto simp: slot_free_def split: option.splits elim: occupancy_is_free.elims)
qed

lemma filled_simps [simp]:
  "sl_generation (filled s v) = next_generation (sl_generation s)"
  "sl_next_free (filled s v) = None"
  "sl_occupancy (filled s v) = Held \<lparr>oc_refs = 1, oc_value = v\<rparr>"
  by (simp_all add: filled_def)

lemma filled_ok: "slot_ok (filled s v)"
  by (simp add: slot_ok_def)

lemma pool_allocate_released:
  assumes wf: "pool_wf p (i # fl)" and s: "pool_slot p i = Some s"
  shows "pool_allocate p v = (Inr (ObjectId i (next_generation (sl_generation s))),
    (pool_set_slot p i (filled s v))\<lparr>pl_free_head := opt_head fl, pl_free_tail := opt_last fl,
      pl_live := saturating_add (pl_live p) 1\<rparr>)"
proof -
  have "pl_free_head p = Some i" "sl_next_free s = opt_head fl" "pl_free_tail p = opt_last (i # fl)"
    using pool_wfD(3-5) [OF wf] s by (auto simp: next_free_of_def)
  with s show ?thesis
    by (cases fl; cases p) (auto simp: pool_allocate_def pool_take_free_slot_def filled_def
        pool_set_slot_def pool_slot_def Let_def)
qed

lemma pool_allocate_fresh:
  assumes wf: "pool_wf p []" and hw: "unat (pl_high_water p) < length (pl_slots p)"
  shows "pool_allocate p v = (Inr (ObjectId (pl_high_water p) 1),
    (pool_set_slot p (pl_high_water p) (filled slot_FREE v))\<lparr>pl_high_water := saturating_add (pl_high_water p) 1,
      pl_live := saturating_add (pl_live p) 1\<rparr>)"
proof -
  have "pool_slot p (pl_high_water p) = Some slot_FREE"
    using pool_wfD(8) [OF wf _ order_refl] hw by (simp add: pool_slot_def)
  with hw pool_wfD(4) [OF wf] show ?thesis
    by (cases p) (simp add: pool_allocate_def pool_take_free_slot_def filled_def
        pool_set_slot_def pool_slot_def slot_FREE_def next_generation_def Let_def)
qed

lemma pool_allocate_full:
  assumes wf: "pool_wf p fl" and "next_slot p fl = None"
  shows "pool_allocate p v = (Inl Exhausted, p)"
  using assms pool_wfD(4) [OF wf]
  by (auto simp: next_slot_def pool_allocate_def pool_take_free_slot_def split: list.splits if_splits)

lemma pool_wf_released:
  assumes wf: "pool_wf p (i # fl)" and s: "pool_slot p i = Some s" "sl_occupancy s = Free"
  shows "pool_wf ((pool_set_slot p i (filled s v))\<lparr>pl_free_head := opt_head fl,
    pl_free_tail := opt_last fl, pl_live := saturating_add (pl_live p) 1\<rparr>) fl"
proof -
  note D = pool_wfD [OF wf]
  have count: "pool_count (pool_set_slot p i (filled s v)) = Suc (pool_count p)"
    using pool_count_set_slot [OF s(1), of "filled s v"] s(2) by simp
  have "pool_count (pool_set_slot p i (filled s v)) \<le> length (pl_slots p)"
    using length_filter_le [of _ "pl_slots (pool_set_slot p i (filled s v))"]
    by (simp add: pool_count_def)
  with D(1,10) count have live: "unat (saturating_add (pl_live p) 1) = Suc (pool_count p)"
    by simp
  show ?thesis
    using wf count live D(11) slots_ok_set_slot [OF filled_ok, of p i s v]
    unfolding pool_wf_def
    by (auto simp: nth_set_slot next_free_set_slot [OF s(1)] slot_free_set_slot [OF s(1)])
qed

lemma pool_wf_fresh:
  assumes wf: "pool_wf p []" and hw: "unat (pl_high_water p) < length (pl_slots p)"
  shows "pool_wf ((pool_set_slot p (pl_high_water p) (filled slot_FREE v))
    \<lparr>pl_high_water := saturating_add (pl_high_water p) 1, pl_live := saturating_add (pl_live p) 1\<rparr>) []"
proof -
  note D = pool_wfD [OF wf]
  let ?i = "pl_high_water p"
  have s: "pool_slot p ?i = Some slot_FREE"
    using D(8) [OF _ order_refl] hw by (simp add: pool_slot_def)
  have count: "pool_count (pool_set_slot p ?i (filled slot_FREE v)) = Suc (pool_count p)"
    using pool_count_set_slot [OF s, of "filled slot_FREE v"] by (simp add: slot_FREE_def)
  have "pool_count (pool_set_slot p ?i (filled slot_FREE v)) \<le> length (pl_slots p)"
    using length_filter_le [of _ "pl_slots (pool_set_slot p ?i (filled slot_FREE v))"]
    by (simp add: pool_count_def)
  with D(1,10) count have live: "unat (saturating_add (pl_live p) 1) = Suc (pool_count p)"
    by simp
  have up: "unat (saturating_add ?i 1) = Suc (unat ?i)"
    using hw D(1) by simp
  show ?thesis
    using wf hw count live up slots_ok_set_slot [OF filled_ok, of p ?i slot_FREE v]
    unfolding pool_wf_def
    by (auto simp: nth_set_slot slot_free_set_slot [OF s] less_Suc_eq simp del: unat_saturating_add)
qed

lemma pool_allocate_spec:
  assumes wf: "pool_wf p fl" and i: "next_slot p fl = Some i"
  obtains oid p' where "pool_allocate p v = (Inr oid, p')" "pool_wf p' (tl fl)"
    "oid = ObjectId i (next_generation (pool_generation p i))" "pool_map p oid = None"
    "pool_map p' = (pool_map p)(oid \<mapsto> v)" "pool_occupant p' oid = Inr \<lparr>oc_refs = 1, oc_value = v\<rparr>"
    "\<forall>j. j \<noteq> i \<longrightarrow> pool_slot p' j = pool_slot p j"
    "pool_generation p' i = next_generation (pool_generation p i)"
proof -
  obtain s where s: "pool_slot p i = Some s" "sl_occupancy s = Free"
    using next_slot_free [OF wf i] by blast
  define oid where "oid = ObjectId i (next_generation (pool_generation p i))"
  have g: "pool_generation p i = sl_generation s"
    using s by (simp add: pool_generation_def)
  have free: "pool_map p oid' = None" if "oid_index oid' = i" for oid'
    using that s by (intro pool_map_free_slot) (simp add: slot_free_def)
  have map: "pool_map (pool_set_slot p i (filled s v)) = (pool_map p)(oid \<mapsto> v)"
    using pool_map_set_held [of p oid s "filled s v"] s free g by (simp add: oid_def)
  consider (rel) "fl = i # tl fl" | (fresh) "fl = []" "i = pl_high_water p"
      "unat (pl_high_water p) < length (pl_slots p)" "s = slot_FREE"
    using i pool_wf_slot(2) [OF wf s(1)] by (cases fl) (auto simp: next_slot_def split: if_splits)
  then show thesis
  proof cases
    case rel
    then have wf': "pool_wf p (i # tl fl)" using wf by simp
    show thesis
      by (rule that [OF pool_allocate_released [OF wf' s(1)] pool_wf_released [OF wf' s]])
        (use map s free g in \<open>auto simp: oid_def pool_occupant_alt pool_slot_set pool_generation_def\<close>)
  next
    case fresh
    then have wf': "pool_wf p []" using wf by simp
    have one: "next_generation (sl_generation slot_FREE) = 1"
      by (simp add: slot_FREE_def next_generation_def)
    show thesis
      by (rule that [OF pool_allocate_fresh [OF wf' fresh(3)]])
        (use pool_wf_fresh [OF wf' fresh(3)] map s free g fresh one in
          \<open>auto simp: oid_def pool_occupant_alt pool_slot_set pool_generation_def\<close>)
  qed
qed

section \<open>Retaining and releasing\<close>

lemma pool_map_set_same:
  assumes "pool_slot p i = Some s" and "sl_generation s' = sl_generation s"
    and "sl_occupancy s' = sl_occupancy s"
  shows "pool_map (pool_set_slot p i s') = pool_map p"
  using assms by (auto simp: pool_map_def pool_get_def pool_occupant_def pool_slot_set fun_eq_iff)

lemma freed_simps [simp]:
  "sl_generation (freed s) = sl_generation s"
  "sl_next_free (freed s) = None"
  "sl_occupancy (freed s) = Free"
  by (simp_all add: freed_def)

lemma freed_ok: "slot_ok (freed s)"
  by (simp add: slot_ok_def)

lemma pool_release_more:
  assumes "pool_occupant p oid = Inr oc" and "1 < oc_refs oc"
  shows "pool_release p oid = (Inr False, snd (pool_occupant_mut p oid
    (\<lambda>oc. oc\<lparr>oc_refs := saturating_sub (oc_refs oc) 1\<rparr>)))"
  using assms by (simp add: pool_release_def)

lemma pool_release_last:
  assumes wf: "pool_wf p fl" and oc: "pool_occupant p oid = Inr oc" and one: "\<not> 1 < oc_refs oc"
    and s: "pool_slot p (oid_index oid) = Some s"
  shows "pool_release p oid = (Inr True,
    (free_append (pool_set_slot p (oid_index oid) (freed s)) (opt_last fl) (oid_index oid))
    \<lparr>pl_live := saturating_sub (pl_live p) 1, pl_free_tail := Some (oid_index oid)\<rparr>)"
proof -
  have "sl_occupancy s = Held oc"
    using oc s by (auto simp: pool_occupant_alt)
  then show ?thesis
    using oc one s pool_wfD(5) [OF wf]
    by (cases p) (auto simp: pool_release_def occupancy_clear_def freed_def free_append_def
        pool_link_free_def pool_set_slot_def pool_slot_def Let_def array_get_set
        array_get_Some split: option.splits)
qed

lemma free_append_slot:
  "pool_slot (free_append q t i) j =
     (if t = Some j then map_option (sl_next_free_update (\<lambda>_. Some i)) (pool_slot q j)
      else pool_slot q j)"
  by (auto simp: free_append_def pool_link_free_def pool_slot_set split: option.splits)

lemma free_append_simps [simp]:
  "length (pl_slots (free_append q t i)) = length (pl_slots q)"
  "pl_high_water (free_append q t i) = pl_high_water q"
  "pl_free_head (free_append q t i) = (if t = None then Some i else pl_free_head q)"
  "slot_free (free_append q t i) = slot_free q"
  "pool_occupant (free_append q t i) = pool_occupant q"
  "pool_generation (free_append q t i) = pool_generation q"
  by (auto simp: free_append_def pool_link_free_def slot_free_def pool_generation_def
      pool_occupant_def pool_slot_set fun_eq_iff split: option.splits)

lemma free_append_next:
  "(\<And>k. t = Some k \<Longrightarrow> pool_slot q k \<noteq> None) \<Longrightarrow>
   next_free_of (free_append q t i) = upd_opt (next_free_of q) t (Some i)"
  by (auto simp: next_free_of_def free_append_slot fun_eq_iff upd_opt_def split: option.splits)

lemma free_append_nth:
  "j < length (pl_slots q) \<Longrightarrow> (\<And>k. t = Some k \<Longrightarrow> unat k \<noteq> j) \<Longrightarrow>
   pl_slots (free_append q t i) ! j = pl_slots q ! j"
  by (auto simp: free_append_def pool_link_free_def nth_set_slot split: option.splits)

lemma free_append_ok:
  assumes "\<forall>s \<in> set (pl_slots q). slot_ok s"
  shows "\<forall>s \<in> set (pl_slots (free_append q t i)). slot_ok s"
proof -
  have "slot_ok (st\<lparr>sl_next_free := Some i\<rparr>)" if "pool_slot q k = Some st" for k st
    using assms pool_slot_in_range [OF that] by (auto simp: slot_ok_def split: occupancy.splits)
  then have "\<forall>s \<in> set (pl_slots (pool_set_slot q k (st\<lparr>sl_next_free := Some i\<rparr>))). slot_ok s"
    if "pool_slot q k = Some st" for k st
    using slots_ok_set_slot [OF _ assms] that by blast
  with assms show ?thesis
    by (simp add: free_append_def pool_link_free_def split: option.splits)
qed

lemma free_append_count: "pool_count (free_append q t i) = pool_count q"
proof -
  have "pool_count (pool_set_slot q k (st\<lparr>sl_next_free := Some i\<rparr>)) = pool_count q"
    if "pool_slot q k = Some st" for k st
    using pool_count_set_slot [OF that, of "st\<lparr>sl_next_free := Some i\<rparr>"] by simp
  then show ?thesis
    by (simp add: free_append_def pool_link_free_def split: option.splits)
qed

lemma pool_wf_free:
  assumes wf: "pool_wf p fl" and s: "pool_slot p i = Some s" "sl_occupancy s = Held oc"
  shows "pool_wf ((free_append (pool_set_slot p i (freed s)) (opt_last fl) i)
    \<lparr>pl_live := saturating_sub (pl_live p) 1, pl_free_tail := Some i\<rparr>) (fl @ [i])"
proof -
  note D = pool_wfD [OF wf]
  define q where "q = pool_set_slot p i (freed s)"
  define p' where "p' = free_append q (opt_last fl) i"
  have below: "unat i < unat (pl_high_water p)" "i \<notin> set fl"
    using pool_wf_held_below [OF wf s] by auto
  have "pool_slot q k \<noteq> None" if "opt_last fl = Some k" for k
    using opt_last_in [OF that] D(7) [of k] pool_wf_below [OF wf, of k]
    by (auto simp: q_def pool_slot_set)
  then have nf: "next_free_of p' = upd_opt ((next_free_of p)(i := None)) (opt_last fl) (Some i)"
    by (simp add: p'_def q_def free_append_next next_free_set_slot [OF s(1)])
  have "path (next_free_of p') (fl @ [i]) None"
    unfolding nf using D(3) below(2) by (intro path_snoc) simp_all
  moreover have "slot_free p' = (slot_free p)(i := True)"
    by (simp add: p'_def q_def slot_free_set_slot [OF s(1)])
  moreover have "pl_slots p' ! j = pl_slots p ! j"
    if "j < length (pl_slots p)" "unat (pl_high_water p) \<le> j" for j
  proof -
    have "unat k \<noteq> j" if "opt_last fl = Some k" for k
      using opt_last_in [OF that] D(7) [of k] \<open>unat (pl_high_water p) \<le> j\<close> by linarith
    with that below(1) show ?thesis
      unfolding p'_def by (subst free_append_nth) (auto simp: q_def nth_set_slot)
  qed
  moreover have "\<forall>s \<in> set (pl_slots p'). slot_ok s"
    unfolding p'_def q_def
    by (intro free_append_ok slots_ok_set_slot [OF freed_ok]) (use D(9) in blast)
  moreover have "Suc (pool_count p') = pool_count p"
    using pool_count_set_slot [OF s(1), of "freed s"] s(2)
    by (simp add: p'_def q_def free_append_count)
  moreover have "pl_free_head p' = opt_head (fl @ [i])"
    using D(4) by (cases fl) (auto simp: p'_def q_def)
  moreover have "length (pl_slots p') = length (pl_slots p)" "pl_high_water p' = pl_high_water p"
    by (simp_all add: p'_def q_def)
  ultimately show ?thesis
    using D(1,2,6-8,10) below unfolding p'_def [symmetric] q_def [symmetric] pool_wf_def by auto
qed

text \<open>What the last release leaves: the slot is free at the end of the list of released slots.\<close>

lemma pool_release_last_spec:
  assumes wf: "pool_wf p fl" and oc: "pool_occupant p oid = Inr oc" and one: "\<not> 1 < oc_refs oc"
  obtains p' where "pool_release p oid = (Inr True, p')" "pool_wf p' (fl @ [oid_index oid])"
    "pool_map p' = (pool_map p)(oid := None)"
    "pool_generation p' = pool_generation p"
    "\<And>oid'. oid' \<noteq> oid \<Longrightarrow> pool_occupant p' oid' = pool_occupant p oid'"
proof -
  obtain s where s: "pool_slot p (oid_index oid) = Some s" "sl_generation s = oid_generation oid"
      "sl_occupancy s = Held oc"
    using oc by (auto simp: pool_occupant_alt)
  define q where "q = pool_set_slot p (oid_index oid) (freed s)"
  have occ: "pool_occupant q oid' = (if oid_index oid' = oid_index oid then Inl StaleId
      else pool_occupant p oid')" for oid'
    using s(1) by (simp add: pool_occupant_def q_def pool_slot_set)
  have stale: "pool_occupant p oid' = Inl StaleId" if "oid_index oid' = oid_index oid" "oid' \<noteq> oid"
    for oid'
    using that s(1,2) by (auto simp: pool_occupant_def object_id.expand)
  have gen: "pool_generation q = pool_generation p"
    using s(1) by (auto simp: pool_generation_def q_def pool_slot_set fun_eq_iff)
  have upd: "pool_occupant (r\<lparr>pl_live := n, pl_free_tail := h\<rparr>) = pool_occupant r"
    "pool_generation (r\<lparr>pl_live := n, pl_free_tail := h\<rparr>) = pool_generation r"
    for r :: "'a pool" and n h
    by (simp_all add: pool_occupant_def pool_generation_def fun_eq_iff)
  show thesis
    by (rule that [OF pool_release_last [OF wf oc one s(1)] pool_wf_free [OF wf s(1,3)]])
      (use occ stale gen upd in \<open>auto simp: q_def pool_map_def pool_get_def fun_eq_iff\<close>)
qed


lemma pool_release_more_spec:
  assumes wf: "pool_wf p fl" and oc: "pool_occupant p oid = Inr oc" and many: "1 < oc_refs oc"
  obtains p' where "pool_release p oid = (Inr False, p')" "pool_wf p' fl" "pool_map p' = pool_map p"
    "pool_occupant p' oid = Inr (oc\<lparr>oc_refs := oc_refs oc - 1\<rparr>)"
proof -
  let ?f = "\<lambda>oc. oc\<lparr>oc_refs := saturating_sub (oc_refs oc) 1\<rparr>"
  have sub: "saturating_sub (oc_refs oc) 1 = oc_refs oc - 1"
    using many by (simp add: saturating_sub_def order_less_imp_le)
  have "unat (saturating_sub (oc_refs oc) 1) \<ge> 1"
    using many by (simp add: word_less_nat_alt)
  then have "1 \<le> saturating_sub (oc_refs oc) 1"
    by (simp add: word_le_nat_alt)
  then have wf': "pool_wf (snd (pool_occupant_mut p oid ?f)) fl"
    using oc by (intro pool_wf_occupant_mut [OF wf]) auto
  have map: "pool_map p oid = Some (oc_value oc)"
    using oc by (simp add: pool_map_def pool_get_def)
  obtain s where s: "pool_slot p (oid_index oid) = Some s" "sl_generation s = oid_generation oid"
      "sl_occupancy s = Held oc"
    using oc by (auto simp: pool_occupant_alt)
  have "pool_occupant (snd (pool_occupant_mut p oid ?f)) oid = Inr (?f oc)"
    using s by (auto simp: pool_occupant_alt pool_occupant_mut_eq [OF s] pool_slot_set)
  then show thesis
    using pool_release_more [OF oc many] wf' pool_map_occupant_mut [OF map oc, of ?f] map sub
    by (intro that) (auto simp: fun_upd_idem)
qed

lemma pool_release_stale: "pool_map p oid = None \<Longrightarrow> pool_release p oid = (Inl StaleId, p)"
  by (simp add: pool_release_def pool_occupant_map)

lemma pool_generation_occupant_mut [simp]:
  "pool_generation (snd (pool_occupant_mut p oid f)) = pool_generation p"
  by (auto simp: pool_occupant_mut_def pool_generation_def pool_slot_set fun_eq_iff
      split: option.splits occupancy.splits)

lemma pool_retain_wf:
  assumes "pool_wf p fl"
  shows "pool_wf (snd (pool_retain p oid)) fl"
proof (cases "pool_occupant p oid")
  case (Inr oc)
  have "1 \<le> oc_refs oc + 1" if "checked_add (oc_refs oc) 1 = Some n" for n
    using that by (simp add: word_nat unat_add_fits word_le_nat_alt)
  with Inr assms show ?thesis
    by (auto simp: pool_retain_def word_nat split: option.splits intro!: pool_wf_occupant_mut)
qed (simp add: pool_retain_def assms)

lemma pool_map_retain [simp]: "pool_map (snd (pool_retain p oid)) = pool_map p"
proof (cases "pool_occupant p oid")
  case (Inr oc)
  then have "pool_map p oid = Some (oc_value oc)"
    by (simp add: pool_map_def pool_get_def)
  with Inr show ?thesis
    by (auto simp: pool_retain_def pool_map_occupant_mut fun_upd_idem split: option.splits)
qed (simp add: pool_retain_def)

lemma pool_retain_spec:
  assumes "pool_occupant p oid = Inr oc" and "unat (oc_refs oc) < 2 ^ 32 - 1"
  shows "fst (pool_retain p oid) = Inr ()"
    "pool_occupant (snd (pool_retain p oid)) oid = Inr (oc\<lparr>oc_refs := oc_refs oc + 1\<rparr>)"
proof -
  obtain s where s: "pool_slot p (oid_index oid) = Some s" "sl_generation s = oid_generation oid"
      "sl_occupancy s = Held oc"
    using assms(1) by (auto simp: pool_occupant_alt)
  have "checked_add (oc_refs oc) 1 = Some (oc_refs oc + 1)"
    using assms(2) by (simp add: word_nat)
  with assms(1) have eq: "pool_retain p oid =
      pool_occupant_mut p oid (\<lambda>oc'. oc'\<lparr>oc_refs := oc_refs oc + 1\<rparr>)"
    by (simp add: pool_retain_def)
  show "fst (pool_retain p oid) = Inr ()"
    "pool_occupant (snd (pool_retain p oid)) oid = Inr (oc\<lparr>oc_refs := oc_refs oc + 1\<rparr>)"
    using s by (auto simp: eq pool_occupant_mut_eq [OF s] pool_occupant_alt pool_slot_set)
qed

lemma pool_force_release_spec:
  assumes wf: "pool_wf p fl" and live: "pool_map p oid = Some v"
  obtains p' where "pool_force_release p oid = (True, p')" "pool_wf p' (fl @ [oid_index oid])"
    "pool_map p' = (pool_map p)(oid := None)" "pool_generation p' = pool_generation p"
proof -
  define f where "f = (\<lambda>oc :: 'a occupant. oc\<lparr>oc_refs := 1\<rparr>)"
  define q where "q = snd (pool_occupant_mut p oid f)"
  obtain s oc where s: "pool_slot p (oid_index oid) = Some s" "sl_generation s = oid_generation oid"
      "sl_occupancy s = Held oc"
    using live by (auto simp: pool_map_eq_Some)
  have q: "pool_occupant_mut p oid f = (Inr (), q)"
    by (simp add: q_def pool_occupant_mut_eq [OF s])
  have wf': "pool_wf q fl"
    unfolding q_def by (rule pool_wf_occupant_mut [OF wf]) (simp add: f_def)
  have oc': "pool_occupant q oid = Inr (f oc)"
    using s by (auto simp: q_def pool_occupant_mut_eq [OF s] pool_occupant_alt pool_slot_set)
  have one: "\<not> 1 < oc_refs (f oc)"
    by (simp add: f_def)
  obtain p' where p': "pool_release q oid = (Inr True, p')" "pool_wf p' (fl @ [oid_index oid])"
      "pool_map p' = (pool_map q)(oid := None)" "pool_generation p' = pool_generation q"
    by (rule pool_release_last_spec [OF wf' oc' one])
  have "pool_map q = (pool_map p)(oid \<mapsto> oc_value oc)"
    unfolding q_def using pool_map_occupant_mut [OF live, of oc f] s
    by (auto simp: pool_occupant_alt f_def)
  moreover have "pool_generation q = pool_generation p"
    by (simp add: q_def)
  moreover have "pool_force_release p oid = (True, p')"
    unfolding pool_force_release_def f_def [symmetric] q using p'(1) by simp
  ultimately show thesis
    using p' by (intro that [of p']) auto
qed

lemma pool_force_release_stale: "pool_map p oid = None \<Longrightarrow> pool_force_release p oid = (False, p)"
  using pool_occupant_mut_fst [of p oid "\<lambda>oc. oc\<lparr>oc_refs := 1\<rparr>"]
    pool_occupant_mut_stale [of p oid "\<lambda>oc. oc\<lparr>oc_refs := 1\<rparr>"]
  by (cases "pool_occupant_mut p oid (\<lambda>oc. oc\<lparr>oc_refs := 1\<rparr>)") (simp add: pool_force_release_def)

lemma pool_release_cases:
  assumes wf: "pool_wf p fl"
  obtains (stale) "pool_map p oid = None" "pool_release p oid = (Inl StaleId, p)"
  | (more) v p' where "pool_map p oid = Some v" "pool_release p oid = (Inr False, p')"
      "pool_wf p' fl" "pool_map p' = pool_map p" "pool_generation p' = pool_generation p"
  | (last) v p' where "pool_map p oid = Some v" "pool_release p oid = (Inr True, p')"
      "pool_wf p' (fl @ [oid_index oid])" "pool_map p' = (pool_map p)(oid := None)"
      "pool_generation p' = pool_generation p"
proof (cases "pool_occupant p oid")
  case (Inl e)
  then have "pool_map p oid = None" by (simp add: pool_map_def pool_get_def)
  then show thesis using pool_release_stale stale by metis
next
  case (Inr oc)
  then have v: "pool_map p oid = Some (oc_value oc)" by (simp add: pool_map_def pool_get_def)
  show thesis
  proof (cases "1 < oc_refs oc")
    case True
    obtain p' where p': "pool_release p oid = (Inr False, p')" "pool_wf p' fl"
        "pool_map p' = pool_map p"
      by (rule pool_release_more_spec [OF wf Inr True])
    then have "pool_generation p' = pool_generation p"
      using pool_release_more [OF Inr True] by auto
    with p' v show thesis by (intro more)
  next
    case False
    show thesis
      by (rule pool_release_last_spec [OF wf Inr False]) (rule last [OF v])
  qed
qed

section \<open>Every reachable pool\<close>

lemma pool_wf_length:
  assumes wf: "pool_wf p fl"
  shows "length fl \<le> unat (pl_high_water p)"
proof -
  have "distinct (map unat fl)"
    using pool_wfD(11) [OF wf] by (simp add: distinct_map inj_on_def)
  moreover have "set (map unat fl) \<subseteq> {..<unat (pl_high_water p)}"
    using pool_wfD(7) [OF wf] by auto
  ultimately show ?thesis
    using card_mono [of "{..<unat (pl_high_water p)}" "set (map unat fl)"]
      distinct_card [of "map unat fl"] by simp
qed

lemma pool_wf_unique:
  assumes wf: "pool_wf p fl"
  shows "pool_free_list p = fl"
  unfolding pool_free_list_def pool_wfD(4) [OF wf]
  using pool_wf_length [OF wf] pool_wfD(2) [OF wf] by (intro walk_path [OF pool_wfD(3) [OF wf]]) simp

lemma pool_inv_wf: "pool_inv p \<longleftrightarrow> (\<exists>fl. pool_wf p fl)"
  using pool_wf_unique by (auto simp: pool_inv_def)

lemma pool_wf_inv: "pool_wf p fl \<Longrightarrow> pool_inv p"
  by (auto simp: pool_inv_wf)

lemma pool_wf_count:
  assumes wf: "pool_wf p fl"
  shows "pool_count p + length fl = unat (pl_high_water p)"
proof -
  let ?hw = "unat (pl_high_water p)"
  let ?free = "\<lambda>i. occupancy_is_free (sl_occupancy (pl_slots p ! i))"
  note D = pool_wfD [OF wf]
  have "pool_count p = card {i. i < length (pl_slots p) \<and> \<not> ?free i}"
    by (simp add: pool_count_def length_filter_conv_card)
  also have "{i. i < length (pl_slots p) \<and> \<not> ?free i} = {..<?hw} - unat ` set fl"
  proof (intro set_eqI iffI)
    fix i
    assume i: "i \<in> {i. i < length (pl_slots p) \<and> \<not> ?free i}"
    then have "i < ?hw"
      using D(8) [of i] by (force simp: slot_FREE_def not_less)
    moreover have "unat (of_nat i :: u32) = i"
      using i D(1) by (intro unat_of_nat_fits) simp
    ultimately show "i \<in> {..<?hw} - unat ` set fl"
      using i D(6) by (force simp: slot_free_def pool_slot_def)
  next
    fix i
    assume i: "i \<in> {..<?hw} - unat ` set fl"
    moreover have u: "unat (of_nat i :: u32) = i"
      using i D(1,2) by (intro unat_of_nat_fits) simp
    ultimately have "\<not> slot_free p (of_nat i)"
      using D(6) [of "of_nat i"] by (metis DiffD1 DiffD2 imageI lessThan_iff)
    with i u D(2) show "i \<in> {i. i < length (pl_slots p) \<and> \<not> ?free i}"
      by (simp add: slot_free_def pool_slot_def)
  qed
  also have "card ({..<?hw} - unat ` set fl) = ?hw - card (unat ` set fl)"
    using D(7) by (subst card_Diff_subset) auto
  also have "card (unat ` set fl) = length fl"
    using D(11) by (simp add: card_image inj_on_def distinct_card)
  finally show ?thesis
    using pool_wf_length [OF wf] by simp
qed

lemma next_slot_None:
  assumes "pool_wf p fl"
  shows "next_slot p fl = None \<longleftrightarrow> unat (pl_live p) = length (pl_slots p)"
  using pool_wf_count [OF assms] pool_wfD(2,10) [OF assms]
  by (auto simp: next_slot_def split: list.splits)

lemma pool_allocate_cases:
  assumes wf: "pool_wf p fl"
  obtains (full) "pool_allocate p v = (Inl Exhausted, p)" "next_slot p fl = None"
  | (slot) i q where "next_slot p fl = Some i" "pool_wf q (tl fl)"
      "pool_allocate p v = (Inr (ObjectId i (next_generation (pool_generation p i))), q)"
      "pool_map q = (pool_map p)(ObjectId i (next_generation (pool_generation p i)) \<mapsto> v)"
      "pool_map p (ObjectId i (next_generation (pool_generation p i))) = None"
      "pool_generation q = (pool_generation p)(i := next_generation (pool_generation p i))"
proof (cases "next_slot p fl")
  case None
  then show thesis using pool_allocate_full [OF wf] full by metis
next
  case (Some i)
  obtain oid q where q: "pool_allocate p v = (Inr oid, q)" "pool_wf q (tl fl)"
      "oid = ObjectId i (next_generation (pool_generation p i))" "pool_map p oid = None"
      "pool_map q = (pool_map p)(oid \<mapsto> v)"
      "pool_occupant q oid = Inr \<lparr>oc_refs = 1, oc_value = v\<rparr>"
      "\<forall>j. j \<noteq> i \<longrightarrow> pool_slot q j = pool_slot p j"
      "pool_generation q i = next_generation (pool_generation p i)"
    by (rule pool_allocate_spec [OF wf Some, where v = v])
  then have "pool_generation q = (pool_generation p)(i := next_generation (pool_generation p i))"
    by (auto simp: pool_generation_def fun_eq_iff)
  with q Some show thesis by (intro slot) auto
qed

lemma pool_generation_retain [simp]: "pool_generation (snd (pool_retain p oid)) = pool_generation p"
  by (auto simp: pool_retain_def split: sum.splits option.splits)

lemma pool_generation_modify [simp]: "pool_generation (pool_modify p oid f) = pool_generation p"
  by (simp add: pool_modify_def pool_get_mut_def)

text \<open>One lemma for every step: it keeps the invariant and says what it does to the names.\<close>

lemma pool_step_quiet:
  assumes "pool_step p None q" and wf: "pool_wf p fl"
  shows "\<exists>fl'. pool_wf q fl'" "pool_generation q = pool_generation p"
    "\<And>oid. pool_map q oid \<noteq> None \<Longrightarrow> pool_map p oid \<noteq> None"
proof -
  have "(\<exists>fl'. pool_wf q fl') \<and> pool_generation q = pool_generation p \<and>
      (\<forall>oid. pool_map q oid \<noteq> None \<longrightarrow> pool_map p oid \<noteq> None)"
    using assms(1)
  proof cases
    case (step_exhausted v e)
    then show ?thesis using wf by (cases rule: pool_allocate_cases [OF wf, of v]) auto
  next
    case (step_retain oid r)
    then have q: "q = snd (pool_retain p oid)" by simp
    then show ?thesis using pool_retain_wf [OF wf, of oid] by auto
  next
    case (step_release oid r)
    then show ?thesis using wf by (cases rule: pool_release_cases [OF wf, of oid]) auto
  next
    case (step_force_release oid b)
    show ?thesis
    proof (cases "pool_map p oid")
      case None
      with step_force_release wf show ?thesis by (auto simp: pool_force_release_stale)
    next
      case (Some v)
      then show ?thesis
        by (rule pool_force_release_spec [OF wf]) (use step_force_release in auto)
    qed
  next
    case (step_get_mut oid f r)
    then have "q = pool_modify p oid f" by (simp add: pool_modify_def)
    then show ?thesis using pool_wf_modify [OF wf, of oid f] by (auto simp del: not_None_eq)
  next
    case (step_with oid f b)
    then have "q = pool_modify p oid f" by (simp add: pool_with_eq)
    then show ?thesis using pool_wf_modify [OF wf, of oid f] by (auto simp del: not_None_eq)
  qed
  then show "\<exists>fl'. pool_wf q fl'" "pool_generation q = pool_generation p"
    "\<And>oid. pool_map q oid \<noteq> None \<Longrightarrow> pool_map p oid \<noteq> None"
    by blast+
qed

lemma pool_step_hand_out:
  assumes "pool_step p (Some i) q" and wf: "pool_wf p fl"
  shows "\<exists>fl'. pool_wf q fl'"
    "pool_generation q = (pool_generation p)(i := next_generation (pool_generation p i))"
    "\<And>oid. oid_index oid \<noteq> i \<Longrightarrow> pool_map q oid = pool_map p oid"
proof -
  from assms(1) obtain v oid where a: "pool_allocate p v = (Inr oid, q)" "i = oid_index oid"
    by cases auto
  then show "\<exists>fl'. pool_wf q fl'"
    "pool_generation q = (pool_generation p)(i := next_generation (pool_generation p i))"
    "\<And>oid. oid_index oid \<noteq> i \<Longrightarrow> pool_map q oid = pool_map p oid"
    by (cases rule: pool_allocate_cases [OF wf, of v]; auto)+
qed

interpretation pool_ids: generation_store pool_inv pool_generation pool_names pool_step
proof
  fix p q :: "'t pool" and l
  assume "pool_inv p" "pool_step p l q"
  then show "pool_inv q"
    using pool_step_quiet(1) pool_step_hand_out(1) by (cases l) (auto simp: pool_inv_wf)
next
  fix p :: "'t pool" and i g
  assume "pool_names p i g"
  then show "pool_generation p i = g"
    by (auto simp: pool_names_def pool_generation_def pool_map_eq_Some)
next
  fix p q :: "'t pool" and i g
  assume "pool_inv p" "pool_step p None q"
  then show "pool_generation q = pool_generation p" "pool_names q i g \<Longrightarrow> pool_names p i g"
    using pool_step_quiet(2,3) unfolding pool_inv_wf pool_names_def by blast+
next
  fix p q :: "'t pool" and i j g
  assume "pool_inv p" "pool_step p (Some i) q"
  then show "pool_generation q = (pool_generation p)(i := next_generation (pool_generation p i))"
    "j \<noteq> i \<Longrightarrow> pool_names q j g \<Longrightarrow> pool_names p j g"
    using pool_step_hand_out(2,3) unfolding pool_inv_wf pool_names_def by fastforce+
qed

lemma pool_map_new [simp]: "pool_map (pool_new n) = Map.empty"
proof
  fix oid
  show "pool_map (pool_new n :: 'a pool) oid = None"
    using pool_map_free_slot [of "pool_new n :: 'a pool" oid]
    by (cases "pool_map (pool_new n :: 'a pool) oid")
      (auto simp: pool_map_eq_Some pool_new_def slot_FREE_def pool_slot_def array_get_def split: if_splits)
qed

lemma pool_inv_new: "n < 2 ^ 32 \<Longrightarrow> pool_inv (pool_new n)"
  by (rule pool_wf_inv [OF pool_wf_new])

lemma pool_inv_allocate: "pool_inv p \<Longrightarrow> pool_inv (snd (pool_allocate p v))"
  by (cases "pool_allocate p v"; cases "fst (pool_allocate p v)")
    (auto intro: pool_ids.inv_step pool_step.intros)

lemma pool_inv_release: "pool_inv p \<Longrightarrow> pool_inv (snd (pool_release p oid))"
  by (cases "pool_release p oid") (auto intro: pool_ids.inv_step pool_step.intros)

lemma pool_inv_force_release: "pool_inv p \<Longrightarrow> pool_inv (snd (pool_force_release p oid))"
  by (cases "pool_force_release p oid") (auto intro: pool_ids.inv_step pool_step.intros)

lemma pool_inv_retain: "pool_inv p \<Longrightarrow> pool_inv (snd (pool_retain p oid))"
  by (cases "pool_retain p oid") (auto intro: pool_ids.inv_step pool_step.intros)

lemma pool_inv_modify: "pool_inv p \<Longrightarrow> pool_inv (pool_modify p oid f)"
  by (auto simp: pool_inv_wf intro: pool_wf_modify)

lemma pool_run_allocate:
  assumes "fst (pool_allocate p v) = Inr oid"
  shows "run pool_step p 1 (snd (pool_allocate p v))"
proof -
  have "pool_step p (Some (oid_index oid)) (snd (pool_allocate p v))"
    using assms by (cases "pool_allocate p v") (auto intro: step_allocate)
  with run_refl [of pool_step p] show ?thesis
    using run_hand_out by fastforce
qed

text \<open>The definitions that evaluate a concrete pool.\<close>

lemmas pool_eval =
  pool_new_def pool_allocate_def pool_take_free_slot_def pool_release_def pool_link_free_def
  pool_occupant_mut_def pool_occupant_def pool_get_def pool_map_def pool_slot_def pool_set_slot_def
  pool_free_list_def next_free_of_def occupancy_clear_def array_set_def array_get_def
  saturating_add_def saturating_sub_def next_generation_def slot_FREE_def Let_def

section \<open>Properties\<close>

text \<open>
  C1: the invariant of the module documentation holds in every pool that the operations of the
  pool can lead to from an empty one: each slot is occupied with at least one reference, or in the
  list of released slots exactly once, or above the high-water mark and untouched, and the
  live counter is the number of occupied slots.
\<close>

theorem pool_reachable_inv:
  assumes "n < 2 ^ 32" and "run pool_step (pool_new n) k p"
  shows "pool_inv p"
  using pool_ids.inv_run [OF assms(2)] pool_wf_inv [OF pool_wf_new [OF assms(1)]] by blast

theorem pool_reachable_inv_witness:
  "pool_inv (snd (pool_release (snd (pool_allocate (pool_new 1) True)) (ObjectId 0 1)))"
proof -
  let ?p = "snd (pool_allocate (pool_new 1) True)"
  have "fst (pool_allocate (pool_new 1) True) = Inr (ObjectId 0 1)"
    by (simp add: pool_eval)
  then have "run pool_step (pool_new 1) 1 ?p"
    by (rule pool_run_allocate)
  then have "run pool_step (pool_new 1) 1 (snd (pool_release ?p (ObjectId 0 1)))"
    by (rule run_quiet) (rule step_release, rule prod.collapse [symmetric])
  then show ?thesis
    by (intro pool_reachable_inv) simp_all
qed

text \<open>
  C2: what \<open>allocate\<close> does. It is refused exactly when every slot is occupied, and then changes
  nothing; otherwise it returns an id that named nothing before, makes it name the value with one
  reference, and leaves what every other id names as it was.
\<close>

theorem pool_allocate_correct:
  assumes "pool_inv p" and "pool_allocate p v = (r, q)"
  shows "case r of
      Inl e \<Rightarrow> e = Exhausted \<and> q = p \<and> unat (pl_live p) = length (pl_slots p)
    | Inr oid \<Rightarrow> unat (pl_live p) < length (pl_slots p) \<and> oid_generation oid \<noteq> 0 \<and>
        pool_map p oid = None \<and> pool_map q = (pool_map p)(oid \<mapsto> v) \<and>
        pool_references q oid = Inr 1 \<and> pool_inv q"
proof -
  obtain fl where wf: "pool_wf p fl"
    using assms(1) by (auto simp: pool_inv_wf)
  show ?thesis
  proof (cases "next_slot p fl")
    case None
    with pool_allocate_full [OF wf, of v] assms(2) next_slot_None [OF wf] show ?thesis by auto
  next
    case (Some i)
    then have "unat (pl_live p) < length (pl_slots p)"
      using next_slot_None [OF wf] pool_wf_count [OF wf] pool_wfD(2,10) [OF wf] by auto
    moreover obtain oid where "r = Inr oid" "pool_map p oid = None" "oid_generation oid \<noteq> 0"
        "pool_map q = (pool_map p)(oid \<mapsto> v)" "pool_references q oid = Inr 1" "pool_inv q"
      by (rule pool_allocate_spec [OF wf Some, where v = v])
        (use assms(2) in \<open>auto simp: pool_references_def intro: pool_wf_inv\<close>)
    ultimately show ?thesis by simp
  qed
qed

theorem pool_allocate_correct_witness:
  "pool_map (snd (pool_allocate (pool_new 1) True)) (ObjectId 0 1) = Some True \<and>
   fst (pool_allocate (snd (pool_allocate (pool_new 1) True)) False) = Inl Exhausted"
proof -
  define p :: "bool pool" where "p = pool_new 1"
  have p: "pool_inv p" "fst (pool_allocate p True) = Inr (ObjectId 0 1)"
    unfolding p_def by (simp add: pool_inv_new, simp add: pool_eval)
  have "pool_map (snd (pool_allocate p True)) = (pool_map p)(ObjectId 0 1 \<mapsto> True)"
    using pool_allocate_correct [OF p(1), of True] p(2)
    by (cases "pool_allocate p True") auto
  moreover have "fst (pool_allocate (snd (pool_allocate p True)) False) = Inl Exhausted"
    unfolding p_def by (simp add: pool_eval)
  ultimately show ?thesis
    by (simp add: p_def)
qed

lemma pool_free_list_steps:
  assumes "pool_inv p"
  shows "pool_allocate p v = (Inr oid, q) \<Longrightarrow>
      pool_free_list q = tl (pool_free_list p) \<and>
      oid_index oid = (case pool_free_list p of i # _ \<Rightarrow> i | [] \<Rightarrow> pl_high_water p)"
    and "pool_release p oid = (Inr True, q) \<Longrightarrow>
      pool_free_list q = pool_free_list p @ [oid_index oid] \<and> pool_map q = (pool_map p)(oid := None)"
    and "pool_release p oid = (Inr False, q) \<Longrightarrow>
      pool_free_list q = pool_free_list p \<and> pool_map q = pool_map p"
proof -
  obtain fl where wf: "pool_wf p fl" and fl: "pool_free_list p = fl"
    using assms pool_wf_unique by (auto simp: pool_inv_wf)
  show "pool_free_list q = tl (pool_free_list p) \<and>
      oid_index oid = (case pool_free_list p of i # _ \<Rightarrow> i | [] \<Rightarrow> pl_high_water p)"
    if "pool_allocate p v = (Inr oid, q)"
    using that pool_wf_unique
    by (cases rule: pool_allocate_cases [OF wf, of v])
      (auto simp: fl next_slot_def split: list.splits if_splits)
  show "pool_free_list q = pool_free_list p @ [oid_index oid] \<and> pool_map q = (pool_map p)(oid := None)"
    if "pool_release p oid = (Inr True, q)"
    using that pool_wf_unique by (cases rule: pool_release_cases [OF wf, of oid]) (auto simp: fl)
  show "pool_free_list q = pool_free_list p \<and> pool_map q = pool_map p"
    if "pool_release p oid = (Inr False, q)"
    using that pool_wf_unique by (cases rule: pool_release_cases [OF wf, of oid]) (auto simp: fl)
qed

text \<open>
  C3: released slots are handed out again in the order of their release, before any slot that was
  never used. The list of released slots is a queue: an allocation takes its head, and only when it
  is empty the slot at the high-water mark; the release of the last reference appends the slot.
\<close>

theorem pool_free_list_fifo:
  assumes "pool_inv p"
  shows "(pool_allocate p v = (Inr oid, q) \<longrightarrow>
      pool_free_list q = tl (pool_free_list p) \<and>
      oid_index oid = (case pool_free_list p of i # _ \<Rightarrow> i | [] \<Rightarrow> pl_high_water p)) \<and>
    (pool_release p oid = (Inr True, q) \<longrightarrow>
      pool_free_list q = pool_free_list p @ [oid_index oid] \<and> pool_map q = (pool_map p)(oid := None)) \<and>
    (pool_release p oid = (Inr False, q) \<longrightarrow>
      pool_free_list q = pool_free_list p \<and> pool_map q = pool_map p)"
  using pool_free_list_steps [OF assms] by blast

theorem pool_free_list_fifo_witness:
  "pool_free_list (snd (pool_release (snd (pool_allocate (pool_new 1) True)) (ObjectId 0 1))) = [0]"
proof -
  define p where "p = snd (pool_allocate (pool_new 1) True)"
  have "pool_inv p"
    unfolding p_def by (simp add: pool_inv_allocate pool_inv_new)
  moreover have "fst (pool_release p (ObjectId 0 1)) = Inr True" "pool_free_list p = []"
    unfolding p_def by (simp_all add: pool_eval)
  ultimately show ?thesis
    using pool_free_list_fifo [of p _ "ObjectId 0 1"] unfolding p_def
    by (metis append_Nil object_id.sel(1) prod.collapse)
qed

text \<open>
  C4: an id whose object was released stays stale. After the last reference is dropped, no
  sequence of pool operations that hands out fewer than \<open>2 ^ 32 - 1\<close> slots makes the id name an
  object again, so a slot that is reused is never reached through an old id.
\<close>

theorem pool_released_id_stale:
  assumes "pool_inv p" and "pool_release p oid = (Inr True, q)"
    and "run pool_step q n s" and "n < 2 ^ 32 - 1"
  shows "pool_get s oid = Inl StaleId"
proof -
  obtain fl where wf: "pool_wf p fl"
    using assms(1) by (auto simp: pool_inv_wf)
  obtain v where v: "pool_map p oid = Some v" "pool_map q oid = None" "pool_inv q"
      "pool_generation q = pool_generation p"
    using assms(2) by (cases rule: pool_release_cases [OF wf, of oid]) (auto intro: pool_wf_inv)
  have "pool_generation q (oid_index oid) = oid_generation oid"
    using v(1,4) by (auto simp: pool_generation_def pool_map_eq_Some)
  moreover have "oid_generation oid \<noteq> 0"
    using pool_occupant_map(2) [OF v(1)] pool_wf_occupant(2) [OF wf] by blast
  ultimately have "\<not> pool_names s (oid_index oid) (oid_generation oid)"
    using v(2) by (intro pool_ids.stale_run [OF assms(3) v(3) _ _ _ assms(4)])
      (simp_all add: pool_names_def)
  then show ?thesis
    by (simp add: pool_names_def pool_get_map)
qed

theorem pool_released_id_stale_witness:
  "pool_get (snd (pool_allocate (snd (pool_release (snd (pool_allocate (pool_new 1) True))
     (ObjectId 0 1))) False)) (ObjectId 0 1) = Inl StaleId"
proof -
  define p where "p = snd (pool_allocate (pool_new 1) True)"
  define q where "q = snd (pool_release p (ObjectId 0 1))"
  have p: "pool_inv p"
    unfolding p_def by (simp add: pool_inv_allocate pool_inv_new)
  have "fst (pool_release p (ObjectId 0 1)) = Inr True" "fst (pool_allocate q False) = Inr (ObjectId 0 2)"
    unfolding p_def q_def by (simp_all add: pool_eval)
  then have "pool_release p (ObjectId 0 1) = (Inr True, q)"
    and "run pool_step q 1 (snd (pool_allocate q False))"
    using pool_run_allocate [of q False] by (auto simp: q_def prod_eq_iff)
  then show ?thesis
    using pool_released_id_stale [OF p] by (simp add: p_def q_def)
qed

end
