(* ===== verification/Addresses.thy ===== *)
theory Addresses
  imports Abi
begin

text \<open>
  The address types of the kernel, \<open>src/crates/kernel/types/src\<close>: alignments
  (\<open>align.rs\<close>), physical addresses, frames and frame ranges (\<open>phys.rs\<close>), virtual
  addresses, pages and page ranges (\<open>virt.rs\<close>), their errors (\<open>error.rs\<close>) and the
  cache policy (\<open>cache.rs\<close>).

  The newtypes over \<open>u64\<close> are the word itself; what their constructors establish is the
  predicate \<open>*_wf\<close> beside each of them. A range denotes a set of frame or page numbers, and
  the lemmas say which set each operation computes.
\<close>

section \<open>Errors, alignments and cache policies\<close>

datatype address_error =
    NonCanonical u64 | ExceedsPhysicalLimit u64 | AddressUnaligned u64 u64
  | InvalidAlignment u64 | AddressOverflow | CrossesCanonicalHole

datatype cache_policy = WriteBack | Uncached

definition is_uncached :: "cache_policy \<Rightarrow> bool" where
  "is_uncached c = (c = Uncached)"

type_synonym alignment = u64

definition is_power_of_two :: "u64 \<Rightarrow> bool" where
  "is_power_of_two w = list_ex (\<lambda>k. w = 2 ^ k) [0..<64]"

definition alignment_new :: "u64 \<Rightarrow> address_error + alignment" where
  "alignment_new bytes =
     (if is_power_of_two bytes then Inr bytes else Inl (InvalidAlignment bytes))"

definition alignment_BYTE :: alignment where "alignment_BYTE = 1"

definition alignment_PAGE :: alignment where "alignment_PAGE = PAGE_SIZE"

definition alignment_mask :: "alignment \<Rightarrow> u64" where
  "alignment_mask a = a - 1"

definition alignment_is_aligned :: "alignment \<Rightarrow> u64 \<Rightarrow> bool" where
  "alignment_is_aligned a x = (x AND alignment_mask a = 0)"

definition alignment_align_down :: "alignment \<Rightarrow> u64 \<Rightarrow> u64" where
  "alignment_align_down a x = x AND NOT (alignment_mask a)"

definition alignment_align_up :: "alignment \<Rightarrow> u64 \<Rightarrow> u64 option" where
  "alignment_align_up a x = (case checked_add x (alignment_mask a) of
     Some bumped \<Rightarrow> Some (alignment_align_down a bumped) | None \<Rightarrow> None)"

section \<open>Physical addresses and frames\<close>

type_synonym phys_addr = u64

type_synonym phys_frame = phys_addr

definition MAX_PHYS_ADDR :: u64 where "MAX_PHYS_ADDR = push_bit PHYS_ADDR_BITS 1 - 1"

definition MAX_FRAME_NUMBER :: u64 where "MAX_FRAME_NUMBER = drop_bit PAGE_SHIFT MAX_PHYS_ADDR"

definition phys_new :: "u64 \<Rightarrow> address_error + phys_addr" where
  "phys_new raw = (if raw \<le> MAX_PHYS_ADDR then Inr raw else Inl (ExceedsPhysicalLimit raw))"

definition phys_align_up :: "phys_addr \<Rightarrow> alignment \<Rightarrow> address_error + phys_addr" where
  "phys_align_up self a = (case alignment_align_up a self of
     Some raw \<Rightarrow> if raw \<le> MAX_PHYS_ADDR then Inr raw else Inl AddressOverflow
   | None \<Rightarrow> Inl AddressOverflow)"

definition phys_checked_add :: "phys_addr \<Rightarrow> u64 \<Rightarrow> phys_addr option" where
  "phys_checked_add self bytes = (case checked_add self bytes of
     Some raw \<Rightarrow> if raw \<le> MAX_PHYS_ADDR then Some raw else None
   | None \<Rightarrow> None)"

definition phys_frame_of :: "phys_addr \<Rightarrow> phys_frame" where
  "phys_frame_of self = alignment_align_down alignment_PAGE self"

definition frame_from_start :: "phys_addr \<Rightarrow> address_error + phys_frame" where
  "frame_from_start start = (if alignment_is_aligned alignment_PAGE start then Inr start
     else Inl (AddressUnaligned start PAGE_SIZE))"

definition frame_from_number :: "u64 \<Rightarrow> address_error + phys_frame" where
  "frame_from_number number = (if number \<le> MAX_FRAME_NUMBER then Inr (push_bit PAGE_SHIFT number)
     else Inl AddressOverflow)"

definition frame_number :: "phys_frame \<Rightarrow> u64" where
  "frame_number f = drop_bit PAGE_SHIFT f"

definition frame_last_address :: "phys_frame \<Rightarrow> phys_addr" where
  "frame_last_address f = f OR alignment_mask alignment_PAGE"

definition frame_checked_add :: "phys_frame \<Rightarrow> u64 \<Rightarrow> phys_frame option" where
  "frame_checked_add f count = (case checked_add (frame_number f) count of
     Some number \<Rightarrow> if number \<le> MAX_FRAME_NUMBER then Some (push_bit PAGE_SHIFT number) else None
   | None \<Rightarrow> None)"

definition frame_checked_sub :: "phys_frame \<Rightarrow> u64 \<Rightarrow> phys_frame option" where
  "frame_checked_sub f count =
     map_option (push_bit PAGE_SHIFT) (checked_sub (frame_number f) count)"

record frame_range =
  fr_start :: phys_frame
  fr_count :: u64

definition frame_range_EMPTY :: frame_range where
  "frame_range_EMPTY = \<lparr>fr_start = 0, fr_count = 0\<rparr>"

definition frame_range_new :: "phys_frame \<Rightarrow> u64 \<Rightarrow> address_error + frame_range" where
  "frame_range_new start count = (case checked_add (frame_number start) count of
     Some end_no \<Rightarrow> if end_no \<le> MAX_FRAME_NUMBER + 1 then Inr \<lparr>fr_start = start, fr_count = count\<rparr>
       else Inl AddressOverflow
   | None \<Rightarrow> Inl AddressOverflow)"

definition frame_range_from_numbers :: "u64 \<Rightarrow> u64 \<Rightarrow> address_error + frame_range" where
  "frame_range_from_numbers start_number end_no =
     (if end_no < start_number then Inl AddressOverflow
      else try_result (frame_from_number start_number)
             (\<lambda>start. frame_range_new start (end_no - start_number)))"

definition frame_range_is_empty :: "frame_range \<Rightarrow> bool" where
  "frame_range_is_empty r = (fr_count r = 0)"

definition frame_range_end_number :: "frame_range \<Rightarrow> u64" where
  "frame_range_end_number r = frame_number (fr_start r) + fr_count r"

definition frame_range_last :: "frame_range \<Rightarrow> phys_frame option" where
  "frame_range_last r = (if fr_count r = 0 then None else frame_checked_add (fr_start r) (fr_count r - 1))"

definition frame_range_contains :: "frame_range \<Rightarrow> phys_frame \<Rightarrow> bool" where
  "frame_range_contains r f =
     (frame_number (fr_start r) \<le> frame_number f \<and> frame_number f < frame_range_end_number r)"

definition frame_range_overlaps :: "frame_range \<Rightarrow> frame_range \<Rightarrow> bool" where
  "frame_range_overlaps r q =
     (\<not> frame_range_is_empty r \<and> \<not> frame_range_is_empty q \<and>
      frame_number (fr_start r) < frame_range_end_number q \<and>
      frame_number (fr_start q) < frame_range_end_number r)"

definition frame_range_intersection :: "frame_range \<Rightarrow> frame_range \<Rightarrow> frame_range option" where
  "frame_range_intersection r q =
     (if \<not> frame_range_overlaps r q then None
      else let start = (if frame_number (fr_start q) < frame_number (fr_start r)
                        then fr_start r else fr_start q);
               end_no = (if frame_range_end_number r < frame_range_end_number q
                          then frame_range_end_number r else frame_range_end_number q)
           in Some \<lparr>fr_start = start, fr_count = end_no - frame_number start\<rparr>)"

section \<open>Virtual addresses and pages\<close>

type_synonym virt_addr = u64

type_synonym page = virt_addr

definition is_canonical :: "u64 \<Rightarrow> bool" where
  "is_canonical raw = (raw < USER_SPACE_END \<or> KERNEL_SPACE_START \<le> raw)"

definition virt_new :: "u64 \<Rightarrow> address_error + virt_addr" where
  "virt_new raw = (if is_canonical raw then Inr raw else Inl (NonCanonical raw))"

definition virt_is_user :: "virt_addr \<Rightarrow> bool" where
  "virt_is_user a = (a < USER_SPACE_END)"

definition virt_is_kernel :: "virt_addr \<Rightarrow> bool" where
  "virt_is_kernel a = (KERNEL_SPACE_START \<le> a)"

text \<open>The test that the rounding and offset operations share: canonical, and in the same half.\<close>

definition same_half :: "u64 \<Rightarrow> virt_addr \<Rightarrow> bool" where
  "same_half raw self = (is_canonical raw \<and> (raw < USER_SPACE_END) = virt_is_user self)"

definition virt_align_down :: "virt_addr \<Rightarrow> alignment \<Rightarrow> address_error + virt_addr" where
  "virt_align_down self a = (let raw = alignment_align_down a self in
     if same_half raw self then Inr raw else Inl CrossesCanonicalHole)"

definition virt_align_up :: "virt_addr \<Rightarrow> alignment \<Rightarrow> address_error + virt_addr" where
  "virt_align_up self a = (case alignment_align_up a self of
     Some raw \<Rightarrow> if same_half raw self then Inr raw else Inl CrossesCanonicalHole
   | None \<Rightarrow> Inl AddressOverflow)"

definition virt_checked_add :: "virt_addr \<Rightarrow> u64 \<Rightarrow> virt_addr option" where
  "virt_checked_add self bytes = (case checked_add self bytes of
     Some raw \<Rightarrow> if same_half raw self then Some raw else None
   | None \<Rightarrow> None)"

definition virt_checked_sub :: "virt_addr \<Rightarrow> u64 \<Rightarrow> virt_addr option" where
  "virt_checked_sub self bytes = (case checked_sub self bytes of
     Some raw \<Rightarrow> if same_half raw self then Some raw else None
   | None \<Rightarrow> None)"

definition virt_page :: "virt_addr \<Rightarrow> page" where
  "virt_page self = alignment_align_down alignment_PAGE self"

definition page_from_start :: "virt_addr \<Rightarrow> address_error + page" where
  "page_from_start start = (if alignment_is_aligned alignment_PAGE start then Inr start
     else Inl (AddressUnaligned start PAGE_SIZE))"

definition page_number :: "page \<Rightarrow> u64" where
  "page_number p = drop_bit PAGE_SHIFT p"

definition page_is_user :: "page \<Rightarrow> bool" where
  "page_is_user p = virt_is_user p"

definition page_checked_add :: "page \<Rightarrow> u64 \<Rightarrow> page option" where
  "page_checked_add p count = (case checked_mul count PAGE_SIZE of
     Some bytes \<Rightarrow> virt_checked_add p bytes | None \<Rightarrow> None)"

definition page_checked_sub :: "page \<Rightarrow> u64 \<Rightarrow> page option" where
  "page_checked_sub p count = (case checked_mul count PAGE_SIZE of
     Some bytes \<Rightarrow> virt_checked_sub p bytes | None \<Rightarrow> None)"

record page_range =
  pr_start :: page
  pr_count :: u64

definition USER_END_PAGE :: u64 where "USER_END_PAGE = drop_bit PAGE_SHIFT USER_SPACE_END"

definition KERNEL_END_PAGE :: u64 where "KERNEL_END_PAGE = push_bit (64 - PAGE_SHIFT) 1"

definition page_range_new :: "page \<Rightarrow> u64 \<Rightarrow> address_error + page_range" where
  "page_range_new start count =
     (let limit = (if page_is_user start then USER_END_PAGE else KERNEL_END_PAGE) in
      case checked_add (page_number start) count of
        Some end_no \<Rightarrow>
          if end_no \<le> limit then Inr \<lparr>pr_start = start, pr_count = count\<rparr>
          else if page_is_user start then Inl CrossesCanonicalHole else Inl AddressOverflow
      | None \<Rightarrow> if page_is_user start then Inl CrossesCanonicalHole else Inl AddressOverflow)"

definition page_range_from_addresses :: "virt_addr \<Rightarrow> virt_addr \<Rightarrow> address_error + page_range" where
  "page_range_from_addresses start stop =
     (if stop < start then Inl AddressOverflow
      else if virt_is_user start \<noteq> virt_is_user stop then Inl CrossesCanonicalHole
      else let first = virt_page start;
               end_page_number = (case alignment_align_up alignment_PAGE stop of
                 Some raw \<Rightarrow> drop_bit PAGE_SHIFT raw | None \<Rightarrow> KERNEL_END_PAGE)
           in page_range_new first (end_page_number - page_number first))"

definition page_range_bytes :: "page_range \<Rightarrow> u64" where
  "page_range_bytes r = push_bit PAGE_SHIFT (pr_count r)"

definition page_range_is_empty :: "page_range \<Rightarrow> bool" where
  "page_range_is_empty r = (pr_count r = 0)"

definition page_range_is_user :: "page_range \<Rightarrow> bool" where
  "page_range_is_user r = page_is_user (pr_start r)"

definition page_range_end_number :: "page_range \<Rightarrow> u64" where
  "page_range_end_number r = page_number (pr_start r) + pr_count r"

definition page_range_last :: "page_range \<Rightarrow> page option" where
  "page_range_last r = (if pr_count r = 0 then None else page_checked_add (pr_start r) (pr_count r - 1))"

definition page_range_contains :: "page_range \<Rightarrow> page \<Rightarrow> bool" where
  "page_range_contains r p =
     (page_number (pr_start r) \<le> page_number p \<and> page_number p < page_range_end_number r)"

definition page_range_overlaps :: "page_range \<Rightarrow> page_range \<Rightarrow> bool" where
  "page_range_overlaps r q =
     (\<not> page_range_is_empty r \<and> \<not> page_range_is_empty q \<and>
      page_number (pr_start r) < page_range_end_number q \<and>
      page_number (pr_start q) < page_range_end_number r)"

section \<open>What the constructors establish\<close>

definition frame_wf :: "phys_frame \<Rightarrow> bool" where
  "frame_wf f = (f \<le> MAX_PHYS_ADDR \<and> alignment_is_aligned alignment_PAGE f)"

definition frame_range_wf :: "frame_range \<Rightarrow> bool" where
  "frame_range_wf r = (frame_wf (fr_start r) \<and>
     unat (frame_number (fr_start r)) + unat (fr_count r) \<le> 2 ^ 40)"

definition frame_set :: "frame_range \<Rightarrow> nat set" where
  "frame_set r = {unat (frame_number (fr_start r)) ..<
     unat (frame_number (fr_start r)) + unat (fr_count r)}"

definition page_wf :: "page \<Rightarrow> bool" where
  "page_wf p = (is_canonical p \<and> alignment_is_aligned alignment_PAGE p)"

definition half_limit :: "page \<Rightarrow> nat" where
  "half_limit p = (if page_is_user p then 2 ^ 35 else 2 ^ 52)"

definition page_range_wf :: "page_range \<Rightarrow> bool" where
  "page_range_wf r = (page_wf (pr_start r) \<and>
     unat (page_number (pr_start r)) + unat (pr_count r) \<le> half_limit (pr_start r))"

definition first_page :: "page_range \<Rightarrow> nat" where
  "first_page r = unat (page_number (pr_start r))"

definition end_page :: "page_range \<Rightarrow> nat" where
  "end_page r = unat (page_number (pr_start r)) + unat (pr_count r)"

definition page_set :: "page_range \<Rightarrow> nat set" where
  "page_set r = {first_page r ..< end_page r}"

section \<open>Alignments\<close>

lemma power_of_two_cases:
  assumes "is_power_of_two a"
  obtains k where "k < 64" "a = 2 ^ k"
  using assms by (auto simp: is_power_of_two_def list_ex_iff)

lemma alignment_mask_mask: "alignment_mask (2 ^ k) = mask k"
  by (simp add: alignment_mask_def mask_eq_decr_exp)

lemma alignment_PAGE_push: "alignment_PAGE = 2 ^ 12"
  by (simp add: alignment_PAGE_def PAGE_SIZE_def)

lemma align_down_push: "x AND NOT (mask k) = push_bit k (drop_bit k (x :: u64))"
  by (rule bit_word_eqI) (auto simp: bit_simps)

lemma take_bit_unat64 [simp]: "take_bit 64 (unat (x :: u64)) = unat x"
  using unat_less_size [of x] by (intro take_bit_nat_eq_self) simp

lemma unat_push_drop:
  "unat (push_bit k (drop_bit k (x :: u64))) = unat x div 2 ^ k * 2 ^ k"
proof -
  have "unat x div 2 ^ k * 2 ^ k \<le> unat x"
    by (rule div_times_less_eq_dividend)
  also have "unat x < 2 ^ 64"
    using unat_less_size [of x] by simp
  finally have "unat x div 2 ^ k * 2 ^ k < 2 ^ 64" .
  then show ?thesis
    unfolding unsigned_push_bit_eq unsigned_drop_bit_eq
    by (simp add: take_bit_nat_eq_self push_bit_eq_mult drop_bit_eq_div mult.commute)
qed

lemma unat_mask: "k < 64 \<Longrightarrow> unat (mask k :: u64) = 2 ^ k - 1"
proof -
  assume "k < 64"
  then have "unat (of_nat (mask k) :: u64) = mask k"
    using power_increasing [of k 64 "2 :: nat"]
    by (intro unat_of_nat_fits) (simp add: mask_eq_exp_minus_1)
  then show ?thesis
    by (simp add: of_nat_mask_eq mask_eq_exp_minus_1)
qed

lemma unat_align_down:
  "unat (alignment_align_down (2 ^ k) x) = unat x div 2 ^ k * 2 ^ k"
  by (simp add: alignment_align_down_def alignment_mask_mask align_down_push unat_push_drop)

lemma is_aligned_iff: "alignment_is_aligned (2 ^ k) x \<longleftrightarrow> 2 ^ k dvd unat x"
proof -
  have "x AND mask k = 0 \<longleftrightarrow> take_bit k x = 0"
    by (simp add: take_bit_eq_mask)
  also have "\<dots> \<longleftrightarrow> take_bit k (unat x) = 0"
    by (metis take_bit_word_eq_self unat_eq_zero unsigned_take_bit_eq unat_0)
  finally show ?thesis
    by (simp add: alignment_is_aligned_def alignment_mask_mask take_bit_eq_mod mod_eq_0_iff_dvd)
qed

lemma align_up_cases:
  assumes "k < 64"
  shows "alignment_align_up (2 ^ k) x = None \<longleftrightarrow> 2 ^ 64 \<le> unat x + (2 ^ k - 1)"
    "alignment_align_up (2 ^ k) x = Some y \<Longrightarrow>
       unat y = (unat x + (2 ^ k - 1)) div 2 ^ k * 2 ^ k"
  using assms
  by (auto simp: alignment_align_up_def alignment_mask_mask word_nat unat_mask unat_align_down
      unat_add_fits split: option.splits)

section \<open>Pages and page ranges\<close>

lemma unat_space_limits [simp]:
  "unat USER_SPACE_END = 2 ^ 47" "unat KERNEL_SPACE_START = 2 ^ 64 - 2 ^ 47"
  "unat PAGE_SIZE = 2 ^ 12"
  by (simp_all add: USER_SPACE_END_def KERNEL_SPACE_START_def PAGE_SIZE_def)

lemma unat_page_number: "unat (page_number p) = unat p div 2 ^ 12"
  unfolding page_number_def PAGE_SHIFT_def unsigned_drop_bit_eq by (simp add: drop_bit_eq_div)

lemma page_wf_iff:
  "page_wf p \<longleftrightarrow> (unat p < 2 ^ 47 \<or> 2 ^ 64 - 2 ^ 47 \<le> unat p) \<and> 2 ^ 12 dvd unat p"
  using is_aligned_iff [of 12 p]
  by (simp add: page_wf_def is_canonical_def alignment_PAGE_push word_less_nat_alt word_le_nat_alt)

lemma page_is_user_iff: "page_is_user p \<longleftrightarrow> unat p < 2 ^ 47"
  by (simp add: page_is_user_def virt_is_user_def word_less_nat_alt)

lemma unat_page: "page_wf p \<Longrightarrow> unat p = unat (page_number p) * 2 ^ 12"
  by (simp add: page_wf_iff unat_page_number)

lemma page_number_inject:
  assumes "page_wf p" "page_wf q" "unat (page_number p) = unat (page_number q)"
  shows "p = q"
  using unat_page [OF assms(1)] unat_page [OF assms(2)] assms(3) by (simp only: unat_inject [symmetric])

lemma page_number_half:
  assumes "page_wf p"
  shows "page_is_user p \<longleftrightarrow> unat (page_number p) < 2 ^ 35"
    "unat (page_number p) < half_limit p" "\<not> page_is_user p \<Longrightarrow> 2 ^ 52 - 2 ^ 35 \<le> unat (page_number p)"
proof -
  have p: "unat p = unat (page_number p) * 2 ^ 12" "unat p < 2 ^ 64"
    using unat_page [OF assms] unat_less_size [of p] by auto
  have c: "unat p < 2 ^ 47 \<or> 2 ^ 64 - 2 ^ 47 \<le> unat p"
    using assms by (simp add: page_wf_iff)
  show "page_is_user p \<longleftrightarrow> unat (page_number p) < 2 ^ 35"
    "unat (page_number p) < half_limit p" "\<not> page_is_user p \<Longrightarrow> 2 ^ 52 - 2 ^ 35 \<le> unat (page_number p)"
    using p c unfolding page_is_user_iff half_limit_def by auto
qed

lemma half_limit_le: "half_limit p \<le> 2 ^ 52"
  by (simp add: half_limit_def)

lemma page_range_end_number_unat:
  assumes "page_range_wf r"
  shows "unat (page_range_end_number r) = end_page r"
proof -
  have "unat (page_number (pr_start r)) + unat (pr_count r) < 2 ^ 64"
    using assms half_limit_le [of "pr_start r"] by (simp add: page_range_wf_def)
  then show ?thesis
    by (simp add: page_range_end_number_def end_page_def unat_add_fits)
qed

lemma page_range_new_iff:
  assumes "page_wf start"
  shows "page_range_new start count = Inr r \<longleftrightarrow>
    r = \<lparr>pr_start = start, pr_count = count\<rparr> \<and> page_range_wf r"
proof -
  let ?n = "unat (page_number start)"
  have lim: "unat (if page_is_user start then USER_END_PAGE else KERNEL_END_PAGE) = half_limit start"
    by (simp add: half_limit_def USER_END_PAGE_def KERNEL_END_PAGE_def USER_SPACE_END_def
        PAGE_SHIFT_def drop_bit_eq_div push_bit_eq_mult)
  have "page_range_new start count = Inr r \<longleftrightarrow> r = \<lparr>pr_start = start, pr_count = count\<rparr> \<and>
      ?n + unat count \<le> half_limit start"
    using lim half_limit_le [of start] unat_add_fits [of "page_number start" count]
    by (auto simp: page_range_new_def Let_def word_nat word_le_nat_alt split: option.splits if_splits)
  with assms show ?thesis
    by (auto simp: page_range_wf_def)
qed

lemma page_checked_add_iff:
  assumes "page_wf p"
  shows "page_checked_add p count = Some q \<longleftrightarrow>
    unat (page_number p) + unat count < half_limit p \<and> unat q = unat p + unat count * 2 ^ 12"
proof -
  have p: "unat p = unat (page_number p) * 2 ^ 12"
    by (rule unat_page [OF assms])
  have c: "unat p < 2 ^ 47 \<or> 2 ^ 64 - 2 ^ 47 \<le> unat p"
    using assms by (simp add: page_wf_iff)
  have "page_checked_add p count = Some q \<longleftrightarrow> unat count * 2 ^ 12 < 2 ^ 64 \<and>
      unat p + unat (count * PAGE_SIZE) < 2 ^ 64 \<and> q = p + count * PAGE_SIZE \<and>
      same_half (p + count * PAGE_SIZE) p"
    by (auto simp: page_checked_add_def virt_checked_add_def checked_mul_def word_nat
        split: option.splits if_splits)
  also have "\<dots> \<longleftrightarrow> unat count * 2 ^ 12 < 2 ^ 64 \<and> unat p + unat count * 2 ^ 12 < 2 ^ 64 \<and>
      unat q = unat p + unat count * 2 ^ 12 \<and>
      (unat p + unat count * 2 ^ 12 < 2 ^ 47 \<or> 2 ^ 64 - 2 ^ 47 \<le> unat p + unat count * 2 ^ 12) \<and>
      (unat p + unat count * 2 ^ 12 < 2 ^ 47) = (unat p < 2 ^ 47)"
  proof (cases "unat count * 2 ^ 12 < 2 ^ 64")
    case True
    then have m: "unat (count * PAGE_SIZE) = unat count * 2 ^ 12"
      by (simp add: unat_word_ariths)
    have "q = p + count * PAGE_SIZE \<longleftrightarrow> unat q = unat p + unat count * 2 ^ 12"
      if "unat p + unat count * 2 ^ 12 < 2 ^ 64"
      using that m unat_add_fits [of p "count * PAGE_SIZE"] by (simp flip: unat_inject)
    with m True show ?thesis
      using unat_add_fits [of p "count * PAGE_SIZE"]
      by (auto simp: same_half_def is_canonical_def virt_is_user_def word_less_nat_alt word_le_nat_alt)
  qed simp
  also have "\<dots> \<longleftrightarrow> unat (page_number p) + unat count < half_limit p \<and>
      unat q = unat p + unat count * 2 ^ 12"
    using p c unfolding half_limit_def page_is_user_iff by auto
  finally show ?thesis .
qed

lemma page_checked_add_page:
  assumes "page_wf p" and "page_checked_add p count = Some q"
  shows "page_wf q" "unat (page_number q) = unat (page_number p) + unat count"
    "page_is_user q = page_is_user p" "half_limit q = half_limit p"
proof -
  have q: "unat (page_number p) + unat count < half_limit p" "unat q = unat p + unat count * 2 ^ 12"
    using assms page_checked_add_iff by auto
  have p: "unat p = unat (page_number p) * 2 ^ 12"
    by (rule unat_page [OF assms(1)])
  with q(2) have n: "unat q = (unat (page_number p) + unat count) * 2 ^ 12"
    by simp
  then show no: "unat (page_number q) = unat (page_number p) + unat count"
    by (simp only: unat_page_number) simp
  show u: "page_is_user q = page_is_user p"
    using p q page_number_half [OF assms(1)] unfolding half_limit_def page_is_user_iff
    by (auto split: if_splits)
  then show "half_limit q = half_limit p"
    by (simp add: half_limit_def)
  show "page_wf q"
    using assms(1) u n q(2) unfolding page_wf_iff page_is_user_iff by auto
qed

lemma page_checked_add_total:
  assumes "page_wf p" and "unat (page_number p) + unat count < half_limit p"
  obtains q where "page_checked_add p count = Some q"
proof -
  have "(unat (page_number p) + unat count) * 2 ^ 12 < 2 ^ 64"
    using assms(2) half_limit_le [of p] by simp
  then have "unat (of_nat (unat p + unat count * 2 ^ 12) :: u64) = unat p + unat count * 2 ^ 12"
    using unat_page [OF assms(1)] by (intro unat_of_nat_fits) simp
  with assms page_checked_add_iff [OF assms(1)] that show thesis by blast
qed

lemma page_range_overlaps_iff:
  assumes "page_range_wf r" "page_range_wf q"
  shows "page_range_overlaps r q \<longleftrightarrow> page_set r \<inter> page_set q \<noteq> {}"
proof -
  have e: "page_range_is_empty x \<longleftrightarrow> first_page x = end_page x" for x
    by (auto simp: page_range_is_empty_def first_page_def end_page_def unat_eq_zero)
  have le: "first_page x \<le> end_page x" for x
    by (simp add: first_page_def end_page_def)
  have "page_range_overlaps r q \<longleftrightarrow> first_page r < end_page r \<and> first_page q < end_page q \<and>
      first_page r < end_page q \<and> first_page q < end_page r"
    using e le by (auto simp: page_range_overlaps_def word_less_nat_alt first_page_def [symmetric]
        page_range_end_number_unat [OF assms(1)] page_range_end_number_unat [OF assms(2)]
        order.strict_iff_order)
  also have "\<dots> \<longleftrightarrow> max (first_page r) (first_page q) \<in> page_set r \<inter> page_set q"
    by (auto simp: page_set_def max_def)
  also have "\<dots> \<longleftrightarrow> page_set r \<inter> page_set q \<noteq> {}"
    by (auto simp: page_set_def)
  finally show ?thesis .
qed

lemma page_range_contains_iff:
  "page_range_wf r \<Longrightarrow> page_range_contains r p \<longleftrightarrow> unat (page_number p) \<in> page_set r"
  by (simp add: page_range_contains_def word_less_nat_alt word_le_nat_alt page_range_end_number_unat
      page_set_def first_page_def)

lemma page_range_last_next:
  assumes wf: "page_range_wf r" and ne: "pr_count r \<noteq> 0"
  shows "end_page r < half_limit (pr_start r) \<Longrightarrow>
      \<exists>q. Option.bind (page_range_last r) (\<lambda>l. page_checked_add l 1) = Some q \<and> page_wf q \<and>
        unat (page_number q) = end_page r \<and> half_limit q = half_limit (pr_start r)"
    and "end_page r = half_limit (pr_start r) \<Longrightarrow>
      Option.bind (page_range_last r) (\<lambda>l. page_checked_add l 1) = None"
proof -
  have p: "page_wf (pr_start r)" and le: "end_page r \<le> half_limit (pr_start r)"
    using wf by (auto simp: page_range_wf_def end_page_def)
  have c: "0 < unat (pr_count r)" "unat (pr_count r - 1) = unat (pr_count r) - 1"
    using ne by (simp_all add: unat_gt_0 unat_sub_fits word_le_nat_alt Suc_leI)
  then have "unat (page_number (pr_start r)) + unat (pr_count r - 1) < half_limit (pr_start r)"
    using le by (simp add: end_page_def)
  then obtain l where l: "page_checked_add (pr_start r) (pr_count r - 1) = Some l"
    by (rule page_checked_add_total [OF p])
  note L = page_checked_add_page [OF p l]
  have n: "unat (page_number l) + 1 = end_page r"
    using L(2) c by (simp add: end_page_def)
  have last: "page_range_last r = Some l"
    using l ne by (simp add: page_range_last_def)
  show "\<exists>q. Option.bind (page_range_last r) (\<lambda>l. page_checked_add l 1) = Some q \<and> page_wf q \<and>
      unat (page_number q) = end_page r \<and> half_limit q = half_limit (pr_start r)"
    if "end_page r < half_limit (pr_start r)"
  proof -
    have "unat (page_number l) + unat (1 :: u64) < half_limit l"
      using that n L(4) by simp
    then obtain q where q: "page_checked_add l 1 = Some q"
      by (rule page_checked_add_total [OF L(1)])
    with last page_checked_add_page [OF L(1) q] n L(4) show ?thesis by simp
  qed
  show "Option.bind (page_range_last r) (\<lambda>l. page_checked_add l 1) = None"
    if "end_page r = half_limit (pr_start r)"
    using that n L(4) page_checked_add_iff [OF L(1), of 1] last
    by (cases "page_checked_add l 1") auto
qed

section \<open>Frames and frame ranges\<close>

lemma unat_frame_number: "unat (frame_number f) = unat f div 2 ^ 12"
  unfolding frame_number_def PAGE_SHIFT_def unsigned_drop_bit_eq by (simp add: drop_bit_eq_div)

lemma unat_frame_limits [simp]:
  "unat MAX_PHYS_ADDR = 2 ^ 52 - 1" "unat MAX_FRAME_NUMBER = 2 ^ 40 - 1"
  by (simp_all add: MAX_PHYS_ADDR_def MAX_FRAME_NUMBER_def PHYS_ADDR_BITS_def PAGE_SHIFT_def
      drop_bit_eq_div)

lemma frame_range_new_iff:
  assumes "frame_wf start"
  shows "frame_range_new start count = Inr r \<longleftrightarrow>
    r = \<lparr>fr_start = start, fr_count = count\<rparr> \<and> frame_range_wf r"
proof -
  have "unat (MAX_FRAME_NUMBER + 1) = 2 ^ 40"
    by (simp add: unat_add_fits)
  with assms unat_add_fits [of "frame_number start" count] show ?thesis
    by (auto simp: frame_range_new_def frame_range_wf_def word_nat word_le_nat_alt
        split: option.splits if_splits)
qed

lemma frame_range_end_unat:
  "frame_range_wf r \<Longrightarrow>
   unat (frame_range_end_number r) = unat (frame_number (fr_start r)) + unat (fr_count r)"
  by (simp add: frame_range_end_number_def frame_range_wf_def unat_add_fits)

lemma frame_range_overlaps_iff:
  assumes "frame_range_wf r" "frame_range_wf q"
  shows "frame_range_overlaps r q \<longleftrightarrow> frame_set r \<inter> frame_set q \<noteq> {}"
proof -
  let ?s = "\<lambda>x. unat (frame_number (fr_start x))"
  have "frame_range_overlaps r q \<longleftrightarrow> 0 < unat (fr_count r) \<and> 0 < unat (fr_count q) \<and>
      ?s r < ?s q + unat (fr_count q) \<and> ?s q < ?s r + unat (fr_count r)"
    by (simp add: frame_range_overlaps_def frame_range_is_empty_def word_less_nat_alt unat_gt_0
        frame_range_end_unat [OF assms(1)] frame_range_end_unat [OF assms(2)])
  also have "\<dots> \<longleftrightarrow> max (?s r) (?s q) \<in> frame_set r \<inter> frame_set q"
    by (auto simp: frame_set_def max_def)
  also have "\<dots> \<longleftrightarrow> frame_set r \<inter> frame_set q \<noteq> {}"
    by (auto simp: frame_set_def)
  finally show ?thesis .
qed

lemma unat_power_two: "k < 64 \<Longrightarrow> unat (2 ^ k :: u64) = 2 ^ k"
  using unat_of_nat_fits [of "2 ^ k", where ?'n = 64] power_strict_increasing [of k 64 "2 :: nat"]
  by simp

section \<open>Properties\<close>

lemma alignment_rounding_facts:
  assumes "alignment_new bytes = Inr a"
  shows "unat a dvd unat (alignment_align_down a x)" "alignment_align_down a x \<le> x"
    "unat x < unat (alignment_align_down a x) + unat a"
    "alignment_is_aligned a x \<longleftrightarrow> alignment_align_down a x = x"
    "case alignment_align_up a x of
       Some y \<Rightarrow> unat a dvd unat y \<and> x \<le> y \<and> unat y < unat x + unat a
     | None \<Rightarrow> \<not> (\<exists>m. unat x \<le> m * unat a \<and> m * unat a < 2 ^ 64)"
proof -
  obtain k where k: "k < 64" "a = 2 ^ k"
    using assms by (auto simp: alignment_new_def elim: power_of_two_cases split: if_splits)
  have a: "unat a = 2 ^ k"
    using k by (simp add: unat_power_two)
  note down = unat_align_down [of k x, folded k(2)]
  have q: "unat x = unat x div 2 ^ k * 2 ^ k + unat x mod 2 ^ k" "unat x mod 2 ^ k < 2 ^ k"
    by (simp_all only: div_mult_mod_eq) simp
  show "unat a dvd unat (alignment_align_down a x)" "alignment_align_down a x \<le> x"
    "unat x < unat (alignment_align_down a x) + unat a"
    unfolding down a word_le_nat_alt using q by (simp, linarith, linarith)
  show "alignment_is_aligned a x \<longleftrightarrow> alignment_align_down a x = x"
    using is_aligned_iff [of k x, folded k(2)] unat_inject [of "alignment_align_down a x" x] down
    by (metis dvd_div_mult_self dvd_triv_right)
  show "case alignment_align_up a x of
       Some y \<Rightarrow> unat a dvd unat y \<and> x \<le> y \<and> unat y < unat x + unat a
     | None \<Rightarrow> \<not> (\<exists>m. unat x \<le> m * unat a \<and> m * unat a < 2 ^ 64)"
  proof (cases "alignment_align_up a x")
    case None
    then have big: "2 ^ 64 \<le> unat x + (2 ^ k - 1)"
      using align_up_cases(1) [OF k(1), of x] k(2) by simp
    have "\<not> m * 2 ^ k < 2 ^ 64" if "unat x \<le> m * 2 ^ k" for m
    proof
      assume "m * 2 ^ k < 2 ^ 64"
      also have "(2 :: nat) ^ 64 = 2 ^ (64 - k) * 2 ^ k"
        using k(1) by (simp flip: power_add)
      finally have "Suc m * 2 ^ k \<le> 2 ^ (64 - k) * 2 ^ k"
        by (metis Suc_leI mult_less_cancel2 mult_le_mono1)
      also have "\<dots> = 2 ^ 64"
        using k(1) by (simp flip: power_add)
      finally show False
        using that big by (simp add: add.commute)
    qed
    with None a show ?thesis by auto
  next
    case (Some y)
    then have y: "unat y = (unat x + (2 ^ k - 1)) div 2 ^ k * 2 ^ k"
      using align_up_cases(2) [OF k(1), of x y] k(2) by simp
    have "(unat x + (2 ^ k - 1)) = unat y + (unat x + (2 ^ k - 1)) mod 2 ^ k"
      "(unat x + (2 ^ k - 1)) mod 2 ^ k < 2 ^ k"
      unfolding y by (simp_all only: div_mult_mod_eq) simp
    then have "unat x \<le> unat y" "unat y < unat x + 2 ^ k"
      by linarith+
    with Some y a show ?thesis by (simp add: word_le_nat_alt)
  qed
qed

text \<open>
  C11: rounding. For every alignment the constructor accepts, \<open>align_down\<close> is the greatest
  multiple not above its argument; \<open>align_up\<close> is the least multiple not below it, and reports
  overflow exactly when no multiple that large fits 64 bits.
\<close>

theorem alignment_rounding:
  assumes "alignment_new bytes = Inr a"
  shows "unat a dvd unat (alignment_align_down a x) \<and> alignment_align_down a x \<le> x \<and>
    unat x < unat (alignment_align_down a x) + unat a \<and>
    (alignment_is_aligned a x \<longleftrightarrow> alignment_align_down a x = x) \<and>
    (case alignment_align_up a x of
       Some y \<Rightarrow> unat a dvd unat y \<and> x \<le> y \<and> unat y < unat x + unat a
     | None \<Rightarrow> \<not> (\<exists>m. unat x \<le> m * unat a \<and> m * unat a < 2 ^ 64))"
  using alignment_rounding_facts [OF assms] by blast

theorem alignment_rounding_witness:
  "alignment_align_down 4096 4097 = 4096 \<and> 4096 \<le> (4097 :: u64) \<and>
   unat (4096 :: u64) dvd unat (alignment_align_down 4096 4097)"
proof -
  have "is_power_of_two 4096"
    by (simp add: is_power_of_two_def list_ex_iff) (rule bexI [of _ 12], simp_all)
  then have "alignment_new 4096 = Inr 4096"
    by (simp add: alignment_new_def)
  from alignment_rounding [OF this, of 4097] show ?thesis
    by (simp add: alignment_align_down_def alignment_mask_def)
qed

text \<open>
  C10: frame ranges are sets of frames. The intersection of two well-formed ranges is a well-formed
  range that holds exactly the frames of both, and is absent exactly when they share none.
\<close>

theorem frame_range_intersection_correct:
  assumes "frame_range_wf r" and "frame_range_wf q"
  shows "case frame_range_intersection r q of
      None \<Rightarrow> frame_set r \<inter> frame_set q = {}
    | Some i \<Rightarrow> frame_range_wf i \<and> frame_set i = frame_set r \<inter> frame_set q \<and> frame_set i \<noteq> {}"
proof (cases "frame_range_overlaps r q")
  case False
  then show ?thesis
    using frame_range_overlaps_iff [OF assms] by (simp add: frame_range_intersection_def)
next
  case True
  let ?n = "\<lambda>x. unat (frame_number (fr_start x))" and ?c = "\<lambda>x. unat (fr_count x)"
  define start where "start = (if frame_number (fr_start q) < frame_number (fr_start r)
    then fr_start r else fr_start q)"
  define stop where "stop = (if frame_range_end_number r < frame_range_end_number q
    then frame_range_end_number r else frame_range_end_number q)"
  have i: "frame_range_intersection r q = Some \<lparr>fr_start = start, fr_count = stop - frame_number start\<rparr>"
    using True by (simp add: frame_range_intersection_def start_def stop_def Let_def)
  have n: "unat (frame_number start) = max (?n r) (?n q)"
    by (auto simp: start_def word_less_nat_alt)
  have e: "unat stop = min (?n r + ?c r) (?n q + ?c q)"
    by (auto simp: stop_def word_less_nat_alt frame_range_end_unat [OF assms(1)]
        frame_range_end_unat [OF assms(2)])
  have ne: "frame_set r \<inter> frame_set q \<noteq> {}"
    using True frame_range_overlaps_iff [OF assms] by simp
  then have "max (?n r) (?n q) < min (?n r + ?c r) (?n q + ?c q)"
    by (auto simp: frame_set_def)
  then have c: "unat (stop - frame_number start) = unat stop - unat (frame_number start)"
    using n e by (intro unat_sub_fits) (simp add: word_le_nat_alt)
  have "frame_wf start" "min (?n r + ?c r) (?n q + ?c q) \<le> 2 ^ 40"
    using assms by (auto simp: start_def frame_range_wf_def)
  with ne i show ?thesis
    using n e c by (auto simp: frame_range_wf_def frame_set_def)
qed

theorem frame_range_intersection_correct_witness:
  "frame_set (the (frame_range_intersection \<lparr>fr_start = 0, fr_count = 2\<rparr> \<lparr>fr_start = 4096, fr_count = 4\<rparr>))
   = frame_set \<lparr>fr_start = 0, fr_count = 2\<rparr> \<inter> frame_set \<lparr>fr_start = 4096, fr_count = 4\<rparr>"
proof -
  let ?r = "\<lparr>fr_start = 0, fr_count = 2\<rparr>" and ?q = "\<lparr>fr_start = 4096, fr_count = 4\<rparr>"
  have "frame_range_wf ?r" "frame_range_wf ?q" "frame_range_overlaps ?r ?q"
    by (simp_all add: frame_range_wf_def frame_wf_def alignment_is_aligned_def alignment_mask_def
        alignment_PAGE_def PAGE_SIZE_def frame_number_def PAGE_SHIFT_def word_le_nat_alt
        frame_range_overlaps_def frame_range_is_empty_def frame_range_end_number_def drop_bit_eq_div)
  with frame_range_intersection_correct [of ?r ?q] show ?thesis
    by (simp add: frame_range_intersection_def Let_def)
qed

text \<open>
  C9: the pages between two addresses. For canonical addresses, \<open>from_addresses\<close> is refused
  exactly when the end lies below the start or in the other half; otherwise the range is well
  formed and runs from the page of the start to the end rounded up. That includes an end in the last
  page of the address space: the rounded end does not fit 64 bits there, and the code takes
  \<open>KERNEL_END_PAGE\<close> for it instead of failing, against the first paragraph of the comment on the function.
\<close>

theorem page_range_from_addresses_correct:
  assumes "is_canonical start" and "is_canonical stop"
  shows "case page_range_from_addresses start stop of
      Inl e \<Rightarrow> (stop < start \<and> e = AddressOverflow) \<or>
        (start \<le> stop \<and> virt_is_user start \<noteq> virt_is_user stop \<and> e = CrossesCanonicalHole)
    | Inr r \<Rightarrow> start \<le> stop \<and> virt_is_user start = virt_is_user stop \<and> page_range_wf r \<and>
        page_set r = {unat start div 4096 ..< (unat stop + 4095) div 4096}"
proof (cases "stop < start \<or> virt_is_user start \<noteq> virt_is_user stop")
  case True
  then show ?thesis
    by (auto simp: page_range_from_addresses_def not_less)
next
  case False
  then have le: "unat start \<le> unat stop" and half: "virt_is_user start = virt_is_user stop"
    by (auto simp: word_le_nat_alt not_less)
  define first where "first = virt_page start"
  define end_no where "end_no = (case alignment_align_up alignment_PAGE stop of
    Some raw \<Rightarrow> drop_bit PAGE_SHIFT raw | None \<Rightarrow> KERNEL_END_PAGE)"
  have first: "unat first = unat start div 2 ^ 12 * 2 ^ 12"
    using unat_align_down [of 12 start] by (simp add: first_def virt_page_def alignment_PAGE_push)
  have no: "unat (page_number first) = unat start div 2 ^ 12"
    by (simp add: unat_page_number first)
  have "unat start < 2 ^ 64" "unat stop < 2 ^ 64"
    using unat_less_size [of start] unat_less_size [of stop] by simp_all
  have wf: "page_wf first"
    using assms(1) first unfolding page_wf_iff
    by (auto simp: is_canonical_def word_less_nat_alt word_le_nat_alt)
  have up: "unat (drop_bit PAGE_SHIFT y) = unat y div 2 ^ 12" for y :: u64
    using unat_page_number [of y] by (simp add: page_number_def)
  have en: "unat end_no = (unat stop + 4095) div 2 ^ 12"
  proof (cases "alignment_align_up alignment_PAGE stop")
    case None
    then have "2 ^ 64 \<le> unat stop + 4095"
      using align_up_cases(1) [of 12 stop] by (simp add: alignment_PAGE_push)
    with None \<open>unat stop < 2 ^ 64\<close> show ?thesis
      by (simp add: end_no_def KERNEL_END_PAGE_def PAGE_SHIFT_def push_bit_eq_mult)
  next
    case (Some y)
    then show ?thesis
      using align_up_cases(2) [of 12 stop y] by (simp add: end_no_def up alignment_PAGE_push)
  qed
  then have "unat (page_number first) \<le> unat end_no"
    using no le by (simp add: div_le_mono)
  then have c: "unat (end_no - page_number first) = unat end_no - unat (page_number first)"
    by (intro unat_sub_fits) (simp add: word_le_nat_alt)
  have user: "page_is_user first \<longleftrightarrow> unat start < 2 ^ 47"
    using first by (auto simp: page_is_user_iff)
  have lim: "unat end_no \<le> half_limit first"
    using half user en \<open>unat stop < 2 ^ 64\<close>
    by (auto simp: half_limit_def virt_is_user_def word_less_nat_alt)
  define r where "r = \<lparr>pr_start = first, pr_count = end_no - page_number first\<rparr>"
  have "page_range_wf r"
    using wf lim c \<open>unat (page_number first) \<le> unat end_no\<close> by (simp add: r_def page_range_wf_def)
  then have "page_range_from_addresses start stop = Inr r"
    using False page_range_new_iff [OF wf, of "end_no - page_number first" r]
    by (auto simp: page_range_from_addresses_def Let_def r_def first_def end_no_def)
  with False c no en \<open>page_range_wf r\<close> \<open>unat (page_number first) \<le> unat end_no\<close> show ?thesis
    by (simp add: page_set_def first_page_def end_page_def r_def not_less)
qed

theorem page_range_from_addresses_correct_witness:
  "page_set (projr (page_range_from_addresses 4095 4097)) = {0 ..< 2}"
proof -
  have c: "is_canonical 4095" "is_canonical 4097"
    by (simp_all add: is_canonical_def USER_SPACE_END_def)
  have "\<not> stop < start \<Longrightarrow> virt_is_user start = virt_is_user stop \<Longrightarrow>
      \<exists>r. page_range_from_addresses start stop = Inr r"
    if "is_canonical start" "is_canonical stop" for start stop
    using page_range_from_addresses_correct [OF that]
    by (cases "page_range_from_addresses start stop") auto
  from this [OF c] have "\<exists>r. page_range_from_addresses 4095 4097 = Inr r"
    by (simp add: virt_is_user_def USER_SPACE_END_def)
  with page_range_from_addresses_correct [OF c] show ?thesis
    by auto
qed

end
