(* ===== verification/PageTable.thy ===== *)
theory PageTable
  imports Addresses
begin

text \<open>
  Page table entries, \<open>src/crates/kernel/mm/src/page_table.rs\<close>: the permissions of a mapping,
  one table of 512 entries, and the \<open>x86_64\<close> entry format. \<open>X86Entry(u64)\<close> is the word
  itself; the functions of the \<open>EntryFormat\<close> implementation carry the prefix \<open>x86_\<close>.
\<close>

section \<open>Definitions\<close>

record permissions =
  pm_write :: bool
  pm_execute :: bool
  pm_user :: bool

definition is_write_execute :: "permissions \<Rightarrow> bool" where
  "is_write_execute p = (pm_write p \<and> pm_execute p)"

definition for_user :: "permissions \<Rightarrow> permissions" where
  "for_user p = \<lparr>pm_write = pm_write p, pm_execute = pm_execute p, pm_user = True\<rparr>"

datatype entry_error = ReservedBits u64 | HugePage

type_synonym x86_entry = u64

definition ENTRIES :: nat where "ENTRIES = 512"

definition X86_PRESENT :: u64 where "X86_PRESENT = 2 ^ 0"

definition X86_WRITABLE :: u64 where "X86_WRITABLE = 2 ^ 1"

definition X86_USER :: u64 where "X86_USER = 2 ^ 2"

definition X86_WRITE_THROUGH :: u64 where "X86_WRITE_THROUGH = 2 ^ 3"

definition X86_NO_CACHE :: u64 where "X86_NO_CACHE = 2 ^ 4"

definition X86_HUGE :: u64 where "X86_HUGE = 2 ^ 7"

definition X86_GLOBAL :: u64 where "X86_GLOBAL = 2 ^ 8"

definition X86_NO_EXECUTE :: u64 where "X86_NO_EXECUTE = 2 ^ 63"

definition X86_ADDRESS_MASK :: u64 where "X86_ADDRESS_MASK = 0x000FFFFFFFFFF000"

definition X86_RESERVED_MASK :: u64 where "X86_RESERVED_MASK = 0x7FF0000000000000"

definition X86_INDEX_BITS :: nat where "X86_INDEX_BITS = 9"

definition X86_INDEX_MASK :: u64 where "X86_INDEX_MASK = 0x1FF"

definition x86_LEVELS :: nat where "x86_LEVELS = 4"

definition x86_EMPTY :: x86_entry where "x86_EMPTY = 0"

definition x86_has :: "x86_entry \<Rightarrow> u64 \<Rightarrow> bool" where
  "x86_has e flag = (e AND flag \<noteq> 0)"

definition x86_with :: "x86_entry \<Rightarrow> u64 \<Rightarrow> bool \<Rightarrow> x86_entry" where
  "x86_with e flag on = (if on then e OR flag else e AND NOT flag)"

definition x86_index :: "nat \<Rightarrow> page \<Rightarrow> nat" where
  "x86_index level p = unat (drop_bit (X86_INDEX_BITS * level) (page_number p) AND X86_INDEX_MASK)"

definition x86_is_present :: "x86_entry \<Rightarrow> bool" where
  "x86_is_present e = x86_has e X86_PRESENT"

definition x86_frame :: "x86_entry \<Rightarrow> phys_frame option" where
  "x86_frame e = (if \<not> x86_is_present e then None
     else ok (try_result (phys_new (e AND X86_ADDRESS_MASK)) frame_from_start))"

definition x86_table :: "phys_frame \<Rightarrow> x86_entry" where
  "x86_table f = f OR X86_PRESENT OR X86_WRITABLE OR X86_USER"

definition x86_leaf :: "phys_frame \<Rightarrow> permissions \<Rightarrow> cache_policy \<Rightarrow> bool \<Rightarrow> x86_entry" where
  "x86_leaf f perms cache global =
     x86_with (x86_with (x86_with (x86_with (x86_with (x86_with
       (f OR X86_PRESENT)
       X86_WRITABLE (pm_write perms))
       X86_USER (pm_user perms))
       X86_NO_EXECUTE (\<not> pm_execute perms))
       X86_GLOBAL global)
       X86_NO_CACHE (cache = Uncached))
       X86_WRITE_THROUGH (cache = Uncached)"

definition x86_permissions :: "x86_entry \<Rightarrow> permissions" where
  "x86_permissions e = \<lparr>pm_write = x86_has e X86_WRITABLE, pm_execute = (\<not> x86_has e X86_NO_EXECUTE),
     pm_user = x86_has e X86_USER\<rparr>"

definition x86_with_permissions :: "x86_entry \<Rightarrow> permissions \<Rightarrow> x86_entry" where
  "x86_with_permissions e perms =
     x86_with (x86_with (x86_with e
       X86_WRITABLE (pm_write perms))
       X86_USER (pm_user perms))
       X86_NO_EXECUTE (\<not> pm_execute perms)"

definition x86_validate :: "x86_entry \<Rightarrow> nat \<Rightarrow> entry_error + unit" where
  "x86_validate e level =
     (if \<not> x86_is_present e then Inr ()
      else if e AND X86_RESERVED_MASK \<noteq> 0 then Inl (ReservedBits e)
      else if 0 < level \<and> x86_has e X86_HUGE then Inl HugePage
      else Inr ())"

type_synonym page_table = "x86_entry list"

definition page_table_new :: page_table where
  "page_table_new = replicate ENTRIES x86_EMPTY"

definition page_table_entry :: "page_table \<Rightarrow> nat \<Rightarrow> x86_entry" where
  "page_table_entry t i = (case array_get t i of Some e \<Rightarrow> e | None \<Rightarrow> x86_EMPTY)"

definition page_table_set_entry :: "page_table \<Rightarrow> nat \<Rightarrow> x86_entry \<Rightarrow> bool \<times> page_table" where
  "page_table_set_entry t i e =
     (case array_get t i of Some _ \<Rightarrow> (True, array_set t i e) | None \<Rightarrow> (False, t))"

definition page_table_clear :: "page_table \<Rightarrow> page_table" where
  "page_table_clear t = replicate (length t) x86_EMPTY"

definition page_table_is_unused :: "page_table \<Rightarrow> bool" where
  "page_table_is_unused t = list_all (\<lambda>e. \<not> x86_is_present e) t"

section \<open>Flag bits\<close>

lemma flag_has: "k < 64 \<Longrightarrow> x86_has e (2 ^ k) \<longleftrightarrow> bit e k"
proof -
  assume k: "k < 64"
  have "e AND 2 ^ k \<noteq> 0 \<longleftrightarrow> bit e k"
    using k by (simp add: and_exp_eq_0_iff_not_bit)
  then show ?thesis
    by (simp add: x86_has_def)
qed

lemma bit_x86_with: "k < 64 \<Longrightarrow> j < 64 \<Longrightarrow> bit (x86_with e (2 ^ k) on) j \<longleftrightarrow> (if j = k then on else bit e j)"
  by (auto simp: x86_with_def bit_simps possible_bit_word)

lemma x86_flags:
  "x86_has e X86_PRESENT \<longleftrightarrow> bit e 0" "x86_has e X86_WRITABLE \<longleftrightarrow> bit e 1"
  "x86_has e X86_USER \<longleftrightarrow> bit e 2" "x86_has e X86_HUGE \<longleftrightarrow> bit e 7"
  "x86_has e X86_NO_EXECUTE \<longleftrightarrow> bit e 63"
  using flag_has [of 0 e] flag_has [of 1 e] flag_has [of 2 e] flag_has [of 7 e] flag_has [of 63 e]
  by (simp_all add: X86_PRESENT_def X86_WRITABLE_def X86_USER_def X86_HUGE_def X86_NO_EXECUTE_def)

lemma bit_x86_with_flags:
  assumes "j < 64"
  shows "bit (x86_with e X86_WRITABLE on) j \<longleftrightarrow> (if j = 1 then on else bit e j)"
    "bit (x86_with e X86_USER on) j \<longleftrightarrow> (if j = 2 then on else bit e j)"
    "bit (x86_with e X86_WRITE_THROUGH on) j \<longleftrightarrow> (if j = 3 then on else bit e j)"
    "bit (x86_with e X86_NO_CACHE on) j \<longleftrightarrow> (if j = 4 then on else bit e j)"
    "bit (x86_with e X86_GLOBAL on) j \<longleftrightarrow> (if j = 8 then on else bit e j)"
    "bit (x86_with e X86_NO_EXECUTE on) j \<longleftrightarrow> (if j = 63 then on else bit e j)"
  unfolding X86_WRITABLE_def X86_USER_def X86_WRITE_THROUGH_def X86_NO_CACHE_def X86_GLOBAL_def
    X86_NO_EXECUTE_def
  by (rule bit_x86_with; use assms in simp)+

lemma bit_x86_leaf:
  assumes "j < 64"
  shows "bit (x86_leaf f perms cache global) j \<longleftrightarrow>
    (if j = 3 \<or> j = 4 then cache = Uncached else if j = 8 then global
     else if j = 63 then \<not> pm_execute perms else if j = 2 then pm_user perms
     else if j = 1 then pm_write perms else j = 0 \<or> bit f j)"
  using assms unfolding x86_leaf_def
  by (simp add: bit_x86_with_flags bit_or_iff) (auto simp: X86_PRESENT_def bit_1_iff)

lemma bit_address_mask: "bit X86_ADDRESS_MASK j \<longleftrightarrow> 12 \<le> j \<and> j < 52"
proof -
  have eq: "X86_ADDRESS_MASK = push_bit 12 (mask 40)"
    by (simp add: X86_ADDRESS_MASK_def mask_eq_exp_minus_1 push_bit_eq_mult)
  show ?thesis
    unfolding eq by (auto simp: bit_simps)
qed

lemma bit_reserved_mask: "bit X86_RESERVED_MASK j \<longleftrightarrow> 52 \<le> j \<and> j < 63"
proof -
  have eq: "X86_RESERVED_MASK = push_bit 52 (mask 11)"
    by (simp add: X86_RESERVED_MASK_def mask_eq_exp_minus_1 push_bit_eq_mult)
  show ?thesis
    unfolding eq by (auto simp: bit_simps)
qed

lemma frame_wf_bit:
  assumes "frame_wf f" and "bit f j"
  shows "12 \<le> j" "j < 52"
proof -
  have "f AND mask 12 = 0"
    using assms(1) by (simp add: frame_wf_def alignment_is_aligned_def alignment_mask_def
        alignment_PAGE_def PAGE_SIZE_def mask_eq_exp_minus_1)
  then have "\<not> bit (f AND mask 12) j"
    by simp
  with assms(2) show "12 \<le> j"
    using bit_imp_le_length [OF assms(2)] by (auto simp: bit_and_iff bit_mask_iff not_less)
  have "unat f < 2 ^ 52"
    using assms(1) by (simp add: frame_wf_def word_le_nat_alt)
  then have "take_bit 52 (unat f) = unat f"
    by (rule take_bit_nat_eq_self)
  moreover have "bit (unat f) j"
    using assms(2) bit_imp_le_length [OF assms(2)] by (simp add: bit_unsigned_iff)
  ultimately show "j < 52"
    by (metis bit_take_bit_iff)
qed

lemma entry_address:
  assumes "frame_wf f" and "\<And>j. 12 \<le> j \<Longrightarrow> j < 52 \<Longrightarrow> bit e j \<longleftrightarrow> bit f j"
  shows "e AND X86_ADDRESS_MASK = f"
proof (rule bit_word_eqI)
  fix j assume "j < LENGTH(64)"
  show "bit (e AND X86_ADDRESS_MASK) j = bit f j"
    using assms(2) [of j] frame_wf_bit [OF assms(1), of j] by (auto simp: bit_and_iff bit_address_mask)
qed

lemma x86_frame_of:
  assumes "frame_wf f" and "bit e 0" and "\<And>j. 12 \<le> j \<Longrightarrow> j < 52 \<Longrightarrow> bit e j \<longleftrightarrow> bit f j"
  shows "x86_frame e = Some f"
  using assms(1,2) entry_address [OF assms(1,3)]
  by (simp add: x86_frame_def x86_is_present_def x86_flags phys_new_def frame_from_start_def
      frame_wf_def)

section \<open>Properties\<close>

lemma x86_entry_facts:
  assumes "frame_wf f"
  shows "x86_frame (x86_leaf f perms cache global) = Some f"
    "x86_permissions (x86_leaf f perms cache global) = perms"
    "x86_validate (x86_leaf f perms cache global) 0 = Inr ()"
    "x86_frame (x86_table f) = Some f" "x86_validate (x86_table f) level = Inr ()"
    "x86_permissions (x86_with_permissions e perms) = perms"
    "x86_frame (x86_with_permissions e perms) = x86_frame e"
proof -
  have "X86_PRESENT OR X86_WRITABLE OR X86_USER = mask 3"
    by (simp add: X86_PRESENT_def X86_WRITABLE_def X86_USER_def mask_eq_exp_minus_1)
  then have "x86_table f = f OR mask 3"
    by (simp add: x86_table_def or.assoc)
  then have table: "bit (x86_table f) j \<longleftrightarrow> j < 3 \<or> bit f j" if "j < 64" for j
    using that by (auto simp: bit_or_iff bit_mask_iff)
  show "x86_frame (x86_leaf f perms cache global) = Some f"
    by (rule x86_frame_of [OF assms]) (auto simp: bit_x86_leaf)
  show "x86_permissions (x86_leaf f perms cache global) = perms"
    by (simp add: x86_permissions_def x86_flags bit_x86_leaf)
  have "x86_leaf f perms cache global AND X86_RESERVED_MASK = 0"
    by (intro bit_word_eqI) (auto dest: frame_wf_bit [OF assms] simp: bit_and_iff bit_reserved_mask bit_x86_leaf)
  then show "x86_validate (x86_leaf f perms cache global) 0 = Inr ()"
    by (simp add: x86_validate_def)
  show "x86_frame (x86_table f) = Some f"
    by (rule x86_frame_of [OF assms]) (auto simp: table)
  have "x86_table f AND X86_RESERVED_MASK = 0"
    by (intro bit_word_eqI) (auto dest: frame_wf_bit [OF assms] simp: bit_and_iff bit_reserved_mask table)
  moreover have "\<not> bit (x86_table f) 7"
    using frame_wf_bit(1) [OF assms, of 7] by (auto simp: table)
  ultimately show "x86_validate (x86_table f) level = Inr ()"
    by (simp add: x86_validate_def x86_flags)
  show "x86_permissions (x86_with_permissions e perms) = perms"
    by (simp add: x86_permissions_def x86_flags x86_with_permissions_def bit_x86_with_flags)
  have "bit (x86_with_permissions e perms) j = bit e j" if "j \<noteq> 1" "j \<noteq> 2" "j \<noteq> 63" "j < 64" for j
    using that by (simp add: x86_with_permissions_def bit_x86_with_flags)
  then have "x86_is_present (x86_with_permissions e perms) = x86_is_present e"
    "x86_with_permissions e perms AND X86_ADDRESS_MASK = e AND X86_ADDRESS_MASK"
    by (auto simp: x86_is_present_def x86_flags bit_and_iff bit_address_mask intro!: bit_word_eqI)
  then show "x86_frame (x86_with_permissions e perms) = x86_frame e"
    by (simp add: x86_frame_def)
qed

text \<open>
  C12: entries encode and decode. For every frame, a leaf entry is present, decodes to that frame
  and those permissions and validates at the leaf level; a table entry decodes to its frame and
  validates at every level; and changing the permissions of an entry changes nothing but its
  permissions.
\<close>

theorem x86_entry_roundtrip:
  assumes "frame_wf f"
  shows "x86_frame (x86_leaf f perms cache global) = Some f \<and>
    x86_permissions (x86_leaf f perms cache global) = perms \<and>
    x86_validate (x86_leaf f perms cache global) 0 = Inr () \<and>
    x86_frame (x86_table f) = Some f \<and> x86_validate (x86_table f) level = Inr () \<and>
    x86_permissions (x86_with_permissions e perms) = perms \<and>
    x86_frame (x86_with_permissions e perms) = x86_frame e"
  using x86_entry_facts [OF assms] by blast

theorem x86_entry_roundtrip_witness:
  "x86_frame (x86_leaf 0x5000 \<lparr>pm_write = True, pm_execute = False, pm_user = True\<rparr> WriteBack False)
   = Some 0x5000"
proof -
  have "frame_wf 0x5000"
    by (simp add: frame_wf_def alignment_is_aligned_def alignment_mask_def alignment_PAGE_def
        PAGE_SIZE_def word_le_nat_alt)
  then show ?thesis
    using x86_entry_roundtrip by blast
qed

end
