(* ===== verification/Regions.thy ===== *)
theory Regions
  imports PageTable
begin

text \<open>
  The regions of an address space, \<open>src/crates/kernel/mm/src/address_space.rs\<close>: a table of at
  most \<open>N\<close> regions, sorted and disjoint, with insertion (which lets a region grow when the new
  one continues it), removal (which shortens, splits or drops regions) and protection (which splits
  a region into up to three). \<open>RegionTable<B, N>\<close> is \<open>'b region_table\<close> with \<open>N\<close> the
  length of the slot array. The loops that move slots up and down are recursions here, and the
  loop of \<open>remove\<close> is a recursion whose measure is the number of slots still ahead.

  The lemmas read a table as the list of its regions (\<open>holds\<close>) and as the partial function from
  page numbers to what backs them (\<open>table_view\<close>).
\<close>

section \<open>Requests and regions\<close>

datatype region_error =
    RegionEmpty | RegionUnaligned | RegionOverflow | OutsideUserSpace | RegionAddressInUse
  | RegionNotMapped | RegionQuotaExceeded

fun error_of_region_error :: "region_error \<Rightarrow> error" where
  "error_of_region_error RegionEmpty = InvalidArgument"
| "error_of_region_error RegionOverflow = InvalidArgument"
| "error_of_region_error OutsideUserSpace = InvalidArgument"
| "error_of_region_error RegionUnaligned = Unaligned"
| "error_of_region_error RegionAddressInUse = AddressInUse"
| "error_of_region_error RegionNotMapped = NotMapped"
| "error_of_region_error RegionQuotaExceeded = QuotaExceeded"

definition user_range :: "u64 \<Rightarrow> u64 \<Rightarrow> region_error + page_range" where
  "user_range start len =
     (if len = 0 then Inl RegionEmpty
      else if start mod PAGE_SIZE \<noteq> 0 \<or> len mod PAGE_SIZE \<noteq> 0 then Inl RegionUnaligned
      else try_result (map_err (\<lambda>_. OutsideUserSpace) (virt_new start)) (\<lambda>address.
        if \<not> virt_is_user address \<or> start < USER_SPACE_START then Inl OutsideUserSpace
        else try_result (map_err (\<lambda>_. RegionUnaligned) (page_from_start address)) (\<lambda>page.
          map_err (\<lambda>_. RegionOverflow) (page_range_new page (len div PAGE_SIZE)))))"

record 'b region =
  rg_pages :: page_range
  rg_backing :: 'b
  rg_offset :: u64
  rg_perms :: permissions
  rg_rights :: rights

definition continues_into :: "'b region \<Rightarrow> 'b region \<Rightarrow> bool" where
  "continues_into self nxt =
     (page_range_end_number (rg_pages self) = page_number (pr_start (rg_pages nxt)) \<and>
      rg_backing self = rg_backing nxt \<and> rg_perms self = rg_perms nxt \<and>
      rg_rights self = rg_rights nxt \<and>
      checked_add (rg_offset self) (page_range_bytes (rg_pages self)) = Some (rg_offset nxt))"

definition region_head :: "'b region \<Rightarrow> page \<Rightarrow> 'b region option" where
  "region_head self p =
     (case checked_sub (page_number p) (page_number (pr_start (rg_pages self))) of
        None \<Rightarrow> None
      | Some count \<Rightarrow>
          if count = 0 then None
          else (case page_range_new (pr_start (rg_pages self)) count of
                  Inl _ \<Rightarrow> None
                | Inr pages \<Rightarrow> Some (self\<lparr>rg_pages := pages\<rparr>)))"

definition region_tail :: "'b region \<Rightarrow> page \<Rightarrow> 'b region option" where
  "region_tail self p =
     Option.bind (checked_sub (page_number p) (page_number (pr_start (rg_pages self)))) (\<lambda>skipped.
     Option.bind (checked_sub (pr_count (rg_pages self)) skipped) (\<lambda>count.
       if count = 0 then None
       else Option.bind (ok (page_range_new p count)) (\<lambda>pages.
            Option.bind (checked_mul skipped PAGE_SIZE) (\<lambda>bytes.
            Option.bind (checked_add (rg_offset self) bytes) (\<lambda>offset.
              Some (self\<lparr>rg_pages := pages, rg_offset := offset\<rparr>))))))"

definition region_clipped :: "'b region \<Rightarrow> page_range \<Rightarrow> 'b region option" where
  "region_clipped self pages =
     (let start = max (page_number (pr_start (rg_pages self))) (page_number (pr_start pages));
          stop = min (page_range_end_number (rg_pages self)) (page_range_end_number pages)
      in if stop \<le> start then None
         else Option.bind (checked_sub start (page_number (pr_start (rg_pages self)))) (\<lambda>skipped.
              Option.bind (page_checked_add (pr_start (rg_pages self)) skipped) (\<lambda>page.
              Option.bind (region_tail self page) (\<lambda>region.
              Option.bind (checked_sub stop start) (\<lambda>count.
              Option.bind (ok (page_range_new page count)) (\<lambda>pages.
                Some (region\<lparr>rg_pages := pages\<rparr>)))))))"

record 'b taken =
  tk_region :: "'b region"
  tk_vanished :: bool
  tk_divided :: bool

datatype inserted = Added | Merged

record 'b removed =
  rm_items :: "'b taken option list"
  rm_len :: nat
  rm_remaining :: "page_range option"

definition removed_new :: "nat \<Rightarrow> 'b removed" where
  "removed_new m = \<lparr>rm_items = replicate m None, rm_len = 0, rm_remaining = None\<rparr>"

definition removed_push :: "'b removed \<Rightarrow> 'b region \<Rightarrow> bool \<Rightarrow> bool \<Rightarrow> bool \<times> 'b removed" where
  "removed_push self region vanished divided =
     (case array_get (rm_items self) (rm_len self) of
        Some _ \<Rightarrow> (True, self\<lparr>rm_items := array_set (rm_items self) (rm_len self)
          (Some \<lparr>tk_region = region, tk_vanished = vanished, tk_divided = divided\<rparr>),
          rm_len := rm_len self + 1\<rparr>)
      | None \<Rightarrow> (False, self))"

definition removed_taken :: "'b removed \<Rightarrow> 'b taken list" where
  "removed_taken self = List.map_filter (\<lambda>x. x) (take (rm_len self) (rm_items self))"

section \<open>The table\<close>

record 'b region_table =
  rt_regions :: "'b region option list"
  rt_len :: nat
  rt_kernel :: bool

definition region_table_new :: "nat \<Rightarrow> 'b region_table" where
  "region_table_new n = \<lparr>rt_regions = replicate n None, rt_len = 0, rt_kernel = False\<rparr>"

definition region_table_kernel :: "nat \<Rightarrow> 'b region_table" where
  "region_table_kernel n = \<lparr>rt_regions = replicate n None, rt_len = 0, rt_kernel = True\<rparr>"

definition rt_free_slots :: "'b region_table \<Rightarrow> nat" where
  "rt_free_slots t = length (rt_regions t) - rt_len t"

definition rt_iter :: "'b region_table \<Rightarrow> 'b region list" where
  "rt_iter t = List.map_filter (\<lambda>x. x) (take (rt_len t) (rt_regions t))"

definition rt_get :: "'b region_table \<Rightarrow> nat \<Rightarrow> 'b region option" where
  "rt_get t index = Option.bind (array_get (rt_regions t) index) (\<lambda>x. x)"

definition rt_put :: "'b region_table \<Rightarrow> nat \<Rightarrow> 'b region option \<Rightarrow> 'b region_table" where
  "rt_put t index region = t\<lparr>rt_regions := array_set (rt_regions t) index region\<rparr>"

definition rt_set :: "'b region_table \<Rightarrow> nat \<Rightarrow> 'b region \<Rightarrow> 'b region_table" where
  "rt_set t index region = rt_put t index (Some region)"

text \<open>The loop of \<open>insert_at\<close>: moves the slots from \<open>index\<close> to \<open>position\<close> up by one.\<close>

fun rt_move_up :: "'b region_table \<Rightarrow> nat \<Rightarrow> nat \<Rightarrow> 'b region_table" where
  "rt_move_up t 0 index = t"
| "rt_move_up t (Suc position) index =
     (if index < Suc position
      then rt_move_up (rt_put t (Suc position) (rt_get t position)) position index else t)"

definition rt_insert_at ::
  "'b region_table \<Rightarrow> nat \<Rightarrow> 'b region \<Rightarrow> (region_error + unit) \<times> 'b region_table" where
  "rt_insert_at t index region =
     (if length (rt_regions t) \<le> rt_len t \<or> rt_len t < index then (Inl RegionQuotaExceeded, t)
      else let t = rt_move_up t (rt_len t) index;
               t = rt_put t index (Some region);
               t = t\<lparr>rt_len := rt_len t + 1\<rparr>
           in (Inr (), t))"

text \<open>The loop of \<open>remove_at\<close>: moves the slots above \<open>position\<close> down by one.\<close>

function rt_move_down :: "'b region_table \<Rightarrow> nat \<Rightarrow> 'b region_table" where
  "rt_move_down t position =
     (if position + 1 < rt_len t
      then rt_move_down (rt_put t position (rt_get t (position + 1))) (position + 1) else t)"
  by pat_completeness auto
termination
  by (relation "measure (\<lambda>(t, position). rt_len t - position)") (auto simp: rt_put_def)

declare rt_move_down.simps [simp del]

definition rt_remove_at :: "'b region_table \<Rightarrow> nat \<Rightarrow> 'b region_table" where
  "rt_remove_at t index =
     (if rt_len t \<le> index then t
      else let t = rt_move_down t index;
               t = rt_put t (rt_len t - 1) None
           in t\<lparr>rt_len := rt_len t - 1\<rparr>)"

function rt_position_from :: "'b region_table \<Rightarrow> page \<Rightarrow> nat \<Rightarrow> nat" where
  "rt_position_from t p index =
     (if index < rt_len t then
        (case rt_get t index of
           Some region \<Rightarrow>
             if page_number (pr_start (rg_pages region)) < page_number p
             then rt_position_from t p (index + 1) else index
         | None \<Rightarrow> index)
      else index)"
  by pat_completeness auto
termination
  by (relation "measure (\<lambda>(t, p, index). rt_len t - index)") auto

declare rt_position_from.simps [simp del]

definition rt_position_for :: "'b region_table \<Rightarrow> page \<Rightarrow> nat" where
  "rt_position_for t p = rt_position_from t p 0"

definition rt_index_of :: "'b region_table \<Rightarrow> page \<Rightarrow> nat option" where
  "rt_index_of t p = find (\<lambda>index. case rt_get t index of
     Some region \<Rightarrow> page_range_contains (rg_pages region) p | None \<Rightarrow> False) [0..<rt_len t]"

definition rt_find :: "'b region_table \<Rightarrow> page \<Rightarrow> 'b region option" where
  "rt_find t p = find (\<lambda>region. page_range_contains (rg_pages region) p) (rt_iter t)"

definition rt_check_range :: "'b region_table \<Rightarrow> page_range \<Rightarrow> region_error + unit" where
  "rt_check_range t pages =
     (if page_range_is_empty pages then Inl RegionEmpty
      else if rt_kernel t then Inr ()
      else if \<not> page_range_is_user pages \<or> pr_start pages < USER_SPACE_START
      then Inl OutsideUserSpace
      else Inr ())"

definition rt_continuation_of :: "'b region_table \<Rightarrow> 'b region \<Rightarrow> (nat \<times> 'b region) option" where
  "rt_continuation_of t region = find (\<lambda>(_, held). continues_into held region)
     (List.map_filter (\<lambda>index. map_option (\<lambda>held. (index, held)) (rt_get t index)) [0..<rt_len t])"

definition rt_insert ::
  "'b region_table \<Rightarrow> 'b region \<Rightarrow> (region_error + inserted) \<times> 'b region_table" where
  "rt_insert t region =
     (case rt_check_range t (rg_pages region) of
        Inl e \<Rightarrow> (Inl e, t)
      | Inr _ \<Rightarrow>
          if list_ex (\<lambda>existing. page_range_overlaps (rg_pages existing) (rg_pages region)) (rt_iter t)
          then (Inl RegionAddressInUse, t)
          else (case rt_continuation_of t region of
                  Some (index, held) \<Rightarrow>
                    let count = saturating_add (pr_count (rg_pages held)) (pr_count (rg_pages region));
                        grown = (case page_range_new (pr_start (rg_pages held)) count of
                          Inr pages \<Rightarrow> pages | Inl _ \<Rightarrow> rg_pages held)
                    in (Inr Merged, rt_set t index (held\<lparr>rg_pages := grown\<rparr>))
                | None \<Rightarrow>
                    (case rt_insert_at t (rt_position_for t (pr_start (rg_pages region))) region of
                       (Inl e, t) \<Rightarrow> (Inl e, t)
                     | (Inr _, t) \<Rightarrow> (Inr Added, t))))"

definition remaining_from :: "page \<Rightarrow> page_range \<Rightarrow> page_range option" where
  "remaining_from p pages =
     (case checked_sub (page_range_end_number pages) (page_number p) of
        None \<Rightarrow> None
      | Some count \<Rightarrow> if count = 0 then None else ok (page_range_new p count))"

definition region_after :: "'b region \<Rightarrow> page_range \<Rightarrow> 'b region option" where
  "region_after region pages =
     Option.bind (Option.bind (page_range_last pages) (\<lambda>l. page_checked_add l 1)) (region_tail region)"

lemma rt_len_put [simp]: "rt_len (rt_put t i r) = rt_len t"
  by (simp add: rt_put_def)

lemma rt_len_set [simp]: "rt_len (rt_set t i r) = rt_len t"
  by (simp add: rt_set_def)

lemma rt_len_move_up [simp]: "rt_len (rt_move_up t p i) = rt_len t"
  by (induction t p i rule: rt_move_up.induct) auto

lemma rt_len_move_down [simp]: "rt_len (rt_move_down t p) = rt_len t"
proof (induction t p rule: rt_move_down.induct)
  case (1 t p)
  then show ?case by (subst rt_move_down.simps) simp
qed

lemma rt_len_insert_at:
  "rt_insert_at t i r = (Inr u, t') \<Longrightarrow> rt_len t' = rt_len t + 1"
  by (auto simp: rt_insert_at_def Let_def split: if_splits)

lemma rt_len_remove_at [simp]: "i < rt_len t \<Longrightarrow> rt_len (rt_remove_at t i) = rt_len t - 1"
  by (simp add: rt_remove_at_def Let_def)

text \<open>The loop of \<open>remove\<close>, from slot \<open>index\<close> on, with what has been removed so far.\<close>

function rt_remove_loop ::
  "page_range \<Rightarrow> nat \<Rightarrow> 'b region_table \<Rightarrow> 'b removed \<Rightarrow> nat \<Rightarrow>
   (region_error + 'b removed) \<times> 'b region_table" where
  "rt_remove_loop pages m t removed index =
     (if \<not> index < rt_len t then (Inr removed, t)
      else case rt_get t index of
        None \<Rightarrow> (Inr removed, t)
      | Some region \<Rightarrow>
          if \<not> page_range_overlaps (rg_pages region) pages
          then rt_remove_loop pages m t removed (index + 1)
          else (case region_clipped region pages of
            None \<Rightarrow> rt_remove_loop pages m t removed (index + 1)
          | Some piece \<Rightarrow>
              if m \<le> rm_len removed
              then (Inr (removed\<lparr>rm_remaining := remaining_from (pr_start (rg_pages piece)) pages\<rparr>), t)
              else (case (region_head region (pr_start (rg_pages piece)),
                          region_after region (rg_pages piece)) of
                 (None, None) \<Rightarrow>
                   rt_remove_loop pages m (rt_remove_at t index)
                     (snd (removed_push removed piece True False)) index
               | (Some head, None) \<Rightarrow>
                   rt_remove_loop pages m (rt_set t index head)
                     (snd (removed_push removed piece False False)) (index + 1)
               | (None, Some tail) \<Rightarrow>
                   rt_remove_loop pages m (rt_set t index tail)
                     (snd (removed_push removed piece False False)) (index + 1)
               | (Some head, Some tail) \<Rightarrow>
                   if length (rt_regions t) \<le> rt_len t then (Inl RegionQuotaExceeded, t)
                   else (case rt_insert_at (rt_set t index head) (index + 1) tail of
                      (Inl e, t) \<Rightarrow> (Inl e, t)
                    | (Inr _, t) \<Rightarrow>
                        rt_remove_loop pages m t
                          (snd (removed_push removed piece False True)) (index + 2)))))"
  by pat_completeness auto
termination
  by (relation "measure (\<lambda>(pages, m, t, removed, index). rt_len t - index)")
    (auto dest: rt_len_insert_at [OF sym])

declare rt_remove_loop.simps [simp del]

definition rt_remove ::
  "'b region_table \<Rightarrow> nat \<Rightarrow> page_range \<Rightarrow> (region_error + 'b removed) \<times> 'b region_table" where
  "rt_remove t m pages =
     (case rt_check_range t pages of
        Inl e \<Rightarrow> (Inl e, t)
      | Inr _ \<Rightarrow>
          if \<not> list_ex (\<lambda>region. page_range_overlaps (rg_pages region) pages) (rt_iter t)
          then (Inl RegionNotMapped, t)
          else rt_remove_loop pages m t (removed_new m) 0)"

definition rt_protect_plan ::
  "'b region_table \<Rightarrow> page_range \<Rightarrow> region_error + (nat \<times> 'b region \<times> nat)" where
  "rt_protect_plan t pages =
     try_result (rt_check_range t pages) (\<lambda>_.
     try_result (ok_or (rt_index_of t (pr_start pages)) RegionNotMapped) (\<lambda>index.
     try_result (ok_or (rt_get t index) RegionNotMapped) (\<lambda>region.
       if page_range_end_number (rg_pages region) < page_range_end_number pages
       then Inl RegionNotMapped
       else let head = page_number (pr_start (rg_pages region)) < page_number (pr_start pages);
                tail = page_range_end_number pages < page_range_end_number (rg_pages region);
                extra = (if head then 1 else 0) + (if tail then 1 else 0)
            in if rt_free_slots t < extra then Inl RegionQuotaExceeded
               else Inr (index, region, extra))))"

definition rt_protect ::
  "'b region_table \<Rightarrow> page_range \<Rightarrow> permissions \<Rightarrow> (region_error + nat) \<times> 'b region_table" where
  "rt_protect t pages perms =
     (case rt_protect_plan t pages of
        Inl e \<Rightarrow> (Inl e, t)
      | Inr (index, region, extra) \<Rightarrow>
          let head = region_head region (pr_start pages);
              tail = region_after region pages
          in case region_clipped region pages of
               None \<Rightarrow> (Inl RegionNotMapped, t)
             | Some clipped \<Rightarrow>
                 let middle = clipped\<lparr>rg_perms := perms\<rparr>;
                     placed = (case head of
                       Some head \<Rightarrow>
                         (case rt_insert_at (rt_set t index head) (index + 1) middle of
                            (Inl e, t) \<Rightarrow> (Inl e, t)
                          | (Inr _, t) \<Rightarrow> (Inr (index + 2), t))
                     | None \<Rightarrow> (Inr (index + 1), rt_set t index middle))
                 in try_state placed (\<lambda>nxt t.
                      case tail of
                        Some tail \<Rightarrow>
                          (case rt_insert_at t nxt tail of
                             (Inl e, t) \<Rightarrow> (Inl e, t)
                           | (Inr _, t) \<Rightarrow> (Inr extra, t))
                      | None \<Rightarrow> (Inr extra, t)))"

definition rt_check_protect :: "'b region_table \<Rightarrow> page_range \<Rightarrow> region_error + unit" where
  "rt_check_protect t pages = map_sum (\<lambda>e. e) (\<lambda>_. ()) (rt_protect_plan t pages)"

text \<open>The loop of \<open>check_invariants\<close> over the regions, with the range before.\<close>

fun invariants_from :: "bool \<Rightarrow> page_range option \<Rightarrow> 'b region list \<Rightarrow> bool" where
  "invariants_from in_kernel previous [] = True"
| "invariants_from in_kernel previous (region # rest) =
     (if page_range_is_empty (rg_pages region) then False
      else if \<not> in_kernel \<and> (\<not> page_range_is_user (rg_pages region) \<or>
                          pr_start (rg_pages region) < USER_SPACE_START) then False
      else if (case previous of
                 Some previous \<Rightarrow>
                   page_number (pr_start (rg_pages region)) < page_range_end_number previous
               | None \<Rightarrow> False) then False
      else invariants_from in_kernel (Some (rg_pages region)) rest)"

definition rt_check_invariants :: "'b region_table \<Rightarrow> bool" where
  "rt_check_invariants t = invariants_from (rt_kernel t) None (rt_iter t)"

text \<open>The table read as the list of its regions.\<close>

definition holds :: "'b region_table \<Rightarrow> 'b region list \<Rightarrow> bool" where
  "holds t rs \<longleftrightarrow> length rs \<le> length (rt_regions t) \<and> rt_len t = length rs \<and>
     (\<forall>j < length (rt_regions t).
        rt_regions t ! j = (if j < length rs then Some (rs ! j) else None))"

abbreviation rg_first :: "'b region \<Rightarrow> nat" where
  "rg_first r \<equiv> first_page (rg_pages r)"

abbreviation rg_end :: "'b region \<Rightarrow> nat" where
  "rg_end r \<equiv> end_page (rg_pages r)"

definition region_wf :: "'b region \<Rightarrow> bool" where
  "region_wf r \<longleftrightarrow> page_range_wf (rg_pages r) \<and> rg_first r < rg_end r \<and>
     unat (rg_offset r) + (rg_end r - rg_first r) * 4096 \<le> 2 ^ 64"

text \<open>
  What a caller of \<open>insert\<close> can hand over: a range of pages, empty or not, and an offset from which the
  range does not run past the end of a 64-bit object.
\<close>

definition region_sound :: "'b region \<Rightarrow> bool" where
  "region_sound r \<longleftrightarrow> page_range_wf (rg_pages r) \<and>
     unat (rg_offset r) + (rg_end r - rg_first r) * 4096 \<le> 2 ^ 64"

lemma region_sound_wf: "region_sound r \<Longrightarrow> region_wf r \<longleftrightarrow> page_set (rg_pages r) \<noteq> {}"
  by (simp add: region_sound_def region_wf_def page_set_def)

text \<open>The part of a region between two page numbers.\<close>

definition sub_region :: "'b region \<Rightarrow> nat \<Rightarrow> nat \<Rightarrow> 'b region" where
  "sub_region r a b = r\<lparr>rg_pages := \<lparr>pr_start = of_nat (a * 4096), pr_count = of_nat (b - a)\<rparr>,
     rg_offset := rg_offset r + of_nat ((a - rg_first r) * 4096)\<rparr>"

text \<open>What backs a page: the object, the offset in it, the permissions and the rights.\<close>

definition region_view :: "'b region \<Rightarrow> nat \<rightharpoonup> ('b \<times> nat \<times> permissions \<times> rights)" where
  "region_view r n = (if n \<in> page_set (rg_pages r)
     then Some (rg_backing r, unat (rg_offset r) + (n - rg_first r) * 4096, rg_perms r, rg_rights r)
     else None)"

fun list_view :: "'b region list \<Rightarrow> nat \<rightharpoonup> ('b \<times> nat \<times> permissions \<times> rights)" where
  "list_view [] n = None"
| "list_view (r # rs) n = (case region_view r n of Some x \<Rightarrow> Some x | None \<Rightarrow> list_view rs n)"

definition table_view :: "'b region_table \<Rightarrow> nat \<rightharpoonup> ('b \<times> nat \<times> permissions \<times> rights)" where
  "table_view t = list_view (rt_iter t)"

definition ordered :: "'b region list \<Rightarrow> bool" where
  "ordered rs = sorted_wrt (\<lambda>r q. rg_end r \<le> rg_first q) rs"

text \<open>The invariant: the slots in use are the first ones, and the regions are well formed,
  mappable and in order.\<close>

definition in_bounds :: "bool \<Rightarrow> 'b region \<Rightarrow> bool" where
  "in_bounds in_kernel r \<longleftrightarrow> in_kernel \<or>
     page_range_is_user (rg_pages r) \<and> \<not> pr_start (rg_pages r) < USER_SPACE_START"

definition regions_ok :: "bool \<Rightarrow> 'b region list \<Rightarrow> bool" where
  "regions_ok in_kernel rs \<longleftrightarrow> list_all region_wf rs \<and> list_all (in_bounds in_kernel) rs \<and> ordered rs"

definition rt_wf :: "'b region_table \<Rightarrow> bool" where
  "rt_wf t \<longleftrightarrow> holds t (rt_iter t) \<and> regions_ok (rt_kernel t) (rt_iter t)"

text \<open>What a removal leaves of a region, what it takes out, and when it needs a slot more.\<close>

definition cut :: "page_range \<Rightarrow> 'b region \<Rightarrow> 'b region list" where
  "cut X r = (if page_range_overlaps (rg_pages r) X
     then (if rg_first r < first_page X then [sub_region r (rg_first r) (first_page X)] else []) @
          (if end_page X < rg_end r then [sub_region r (end_page X) (rg_end r)] else [])
     else [r])"

definition piece :: "page_range \<Rightarrow> 'b region \<Rightarrow> 'b taken list" where
  "piece X r = (if page_range_overlaps (rg_pages r) X
     then [\<lparr>tk_region = sub_region r (max (rg_first r) (first_page X)) (min (rg_end r) (end_page X)),
            tk_vanished = (cut X r = []), tk_divided = (length (cut X r) = 2)\<rparr>]
     else [])"

definition splits :: "page_range \<Rightarrow> 'b region \<Rightarrow> bool" where
  "splits X r \<longleftrightarrow> rg_first r < first_page X \<and> end_page X < rg_end r"

text \<open>What the loop leaves, when the table has the slot that a division needs.\<close>

definition removed_ok :: "nat \<Rightarrow> 'b removed \<Rightarrow> bool" where
  "removed_ok m removed \<longleftrightarrow> length (rm_items removed) = m \<and> rm_len removed \<le> m"

definition remove_shape ::
  "page_range \<Rightarrow> nat \<Rightarrow> 'b removed \<Rightarrow> 'b region list \<Rightarrow> 'b region list \<Rightarrow> 'b region_table \<Rightarrow>
   'b removed \<Rightarrow> 'b region_table \<Rightarrow> bool" where
  "remove_shape X m removed ds rs t rem t' \<longleftrightarrow>
     (\<exists>as bs. rs = as @ bs \<and> holds t' (ds @ concat (map (cut X) as) @ bs) \<and>
        length (rt_regions t') = length (rt_regions t) \<and> rt_kernel t' = rt_kernel t \<and>
        removed_taken rem = removed_taken removed @ concat (map (piece X) as) \<and>
        (bs = [] \<and> rm_remaining rem = rm_remaining removed \<or>
         (\<exists>r cs. bs = r # cs \<and> page_range_overlaps (rg_pages r) X \<and> rm_len rem = m \<and>
            rm_remaining rem = remaining_from
              (of_nat (max (rg_first r) (first_page X) * 4096)) X)))"

section \<open>Slots\<close>

lemma length_put [simp]: "length (rt_regions (rt_put t i r)) = length (rt_regions t)"
  by (simp add: rt_put_def)

lemma kernel_put [simp]: "rt_kernel (rt_put t i r) = rt_kernel t"
  by (simp add: rt_put_def)

lemma nth_put:
  "j < length (rt_regions t) \<Longrightarrow> rt_regions (rt_put t i r) ! j = (if j = i then r else rt_regions t ! j)"
  by (simp add: rt_put_def nth_array_set)

lemma rt_get_nth: "i < length (rt_regions t) \<Longrightarrow> rt_get t i = rt_regions t ! i"
  by (simp add: rt_get_def)

lemma move_up_slots [simp]:
  "length (rt_regions (rt_move_up t p i)) = length (rt_regions t)"
  "rt_kernel (rt_move_up t p i) = rt_kernel t"
  by (induction t p i rule: rt_move_up.induct) auto

lemma move_up_nth:
  assumes "p < length (rt_regions t)" and "j < length (rt_regions t)"
  shows "rt_regions (rt_move_up t p i) ! j =
    (if i < j \<and> j \<le> p then rt_regions t ! (j - 1) else rt_regions t ! j)"
  using assms
proof (induction t p i rule: rt_move_up.induct)
  case (2 t p i)
  then show ?case
    by (auto simp: nth_put rt_get_nth le_Suc_eq not_less)
qed simp

lemma move_down_slots [simp]:
  "length (rt_regions (rt_move_down t p)) = length (rt_regions t)"
  "rt_kernel (rt_move_down t p) = rt_kernel t"
  by (induction t p rule: rt_move_down.induct; subst rt_move_down.simps; simp)+

lemma move_down_nth:
  assumes "rt_len t \<le> length (rt_regions t)" and "j < length (rt_regions t)"
  shows "rt_regions (rt_move_down t p) ! j =
    (if p \<le> j \<and> j + 1 < rt_len t then rt_regions t ! (j + 1) else rt_regions t ! j)"
  using assms
proof (induction t p rule: rt_move_down.induct)
  case (1 t p)
  show ?case
  proof (cases "p + 1 < rt_len t")
    case True
    with 1 show ?thesis
      by (subst rt_move_down.simps) (auto simp: nth_put rt_get_nth)
  next
    case False
    then show ?thesis
      by (subst rt_move_down.simps) auto
  qed
qed

lemma holdsD:
  assumes "holds t rs"
  shows "length rs \<le> length (rt_regions t)" "rt_len t = length rs"
    "\<And>j. j < length (rt_regions t) \<Longrightarrow>
      rt_regions t ! j = (if j < length rs then Some (rs ! j) else None)"
  using assms by (simp_all add: holds_def)

lemma holdsI:
  assumes "length rs \<le> length (rt_regions t)" and "rt_len t = length rs"
    and "\<And>j. j < length (rt_regions t) \<Longrightarrow>
      rt_regions t ! j = (if j < length rs then Some (rs ! j) else None)"
  shows "holds t rs"
  using assms by (simp add: holds_def)

lemma holds_get: "holds t rs \<Longrightarrow> rt_get t i = (if i < length rs then Some (rs ! i) else None)"
  using holdsD [of t rs]
  by (cases "i < length (rt_regions t)") (simp_all add: rt_get_nth rt_get_def array_get_def)

lemma map_filter_Some: "List.map_filter (\<lambda>x. x) (map Some rs) = rs"
  by (induction rs) simp_all

lemma holds_iter:
  assumes "holds t rs"
  shows "rt_iter t = rs"
proof -
  have "take (rt_len t) (rt_regions t) = map Some rs"
    using holdsD [OF assms] by (intro nth_equalityI) simp_all
  then show ?thesis
    by (simp add: rt_iter_def map_filter_Some)
qed

lemma holds_set:
  assumes "holds t rs" and "i < length rs"
  shows "holds (rt_set t i r) (rs[i := r])"
  using assms(2) holdsD [OF assms(1)] unfolding rt_set_def
  by (intro holdsI) (auto simp: nth_put nth_list_update)

lemma nth_insert:
  "i \<le> length rs \<Longrightarrow> j \<le> length rs \<Longrightarrow> (take i rs @ r # drop i rs) ! j =
     (if j < i then rs ! j else if j = i then r else rs ! (j - 1))"
  by (auto simp: nth_append nth_Cons' not_less min_def)

lemma nth_delete:
  "i < length rs \<Longrightarrow> j + 1 < length rs \<Longrightarrow>
   (take i rs @ drop (Suc i) rs) ! j = (if j < i then rs ! j else rs ! (j + 1))"
  by (auto simp: nth_append not_less min_def)

lemma holds_insert_at:
  assumes h: "holds t rs" and i: "i \<le> length rs" and room: "length rs < length (rt_regions t)"
  shows "\<exists>t'. rt_insert_at t i r = (Inr (), t') \<and> holds t' (take i rs @ r # drop i rs) \<and>
    rt_kernel t' = rt_kernel t \<and> length (rt_regions t') = length (rt_regions t)"
proof -
  define u where "u = rt_put (rt_move_up t (rt_len t) i) i (Some r)"
  note D = holdsD [OF h]
  have u: "length (rt_regions u) = length (rt_regions t)" "rt_kernel u = rt_kernel t"
    "rt_len u = length rs"
    by (simp_all add: u_def D(2))
  have nth: "rt_regions u ! j = (if j \<le> length rs
      then Some (if j < i then rs ! j else if j = i then r else rs ! (j - 1)) else None)"
    if "j < length (rt_regions t)" for j
    using that room i D by (simp add: u_def nth_put move_up_nth) (auto simp: not_less)
  have "holds (u\<lparr>rt_len := rt_len u + 1\<rparr>) (take i rs @ r # drop i rs)"
    using room i nth u by (intro holdsI) (simp_all add: nth_insert less_Suc_eq_le)
  moreover have "rt_insert_at t i r = (Inr (), u\<lparr>rt_len := rt_len u + 1\<rparr>)"
    using room i D(2) by (simp add: rt_insert_at_def u_def Let_def)
  ultimately show ?thesis
    using u by auto
qed

lemma holds_insert_at_full:
  assumes "holds t rs" and "length (rt_regions t) \<le> length rs"
  shows "rt_insert_at t i r = (Inl RegionQuotaExceeded, t)"
  using assms(2) holdsD(2) [OF assms(1)] by (simp add: rt_insert_at_def)

lemma holds_remove_at:
  assumes h: "holds t rs" and i: "i < length rs"
  shows "holds (rt_remove_at t i) (take i rs @ drop (Suc i) rs)"
    "rt_kernel (rt_remove_at t i) = rt_kernel t"
    "length (rt_regions (rt_remove_at t i)) = length (rt_regions t)"
proof -
  define u where "u = rt_put (rt_move_down t i) (rt_len t - 1) None"
  note D = holdsD [OF h]
  have u: "length (rt_regions u) = length (rt_regions t)" "rt_kernel u = rt_kernel t"
    "rt_len u = length rs"
    by (simp_all add: u_def D(2))
  have nth: "rt_regions u ! j = (if j + 1 < length rs
      then Some (if j < i then rs ! j else rs ! (j + 1)) else None)"
    if "j < length (rt_regions t)" for j
    using that i D by (simp add: u_def nth_put move_down_nth) (auto simp: not_less)
  have eq: "rt_remove_at t i = u\<lparr>rt_len := length rs - 1\<rparr>"
    using i D(2) by (simp add: rt_remove_at_def u_def Let_def)
  show "holds (rt_remove_at t i) (take i rs @ drop (Suc i) rs)"
    using i D(1) nth u unfolding eq by (intro holdsI) (simp_all add: nth_delete less_diff_conv)
  show "rt_kernel (rt_remove_at t i) = rt_kernel t"
    "length (rt_regions (rt_remove_at t i)) = length (rt_regions t)"
    using u by (simp_all add: eq)
qed

section \<open>Parts of a region\<close>

lemma page_of_nat: "page_wf p \<Longrightarrow> of_nat (unat (page_number p) * 4096) = p"
proof -
  assume "page_wf p"
  then have "unat (page_number p) * 4096 = unat p"
    by (simp add: unat_page)
  moreover have "of_nat (unat p) = p"
    by simp
  ultimately show ?thesis
    by (simp only:)
qed

lemma page_in_range:
  assumes wf: "page_range_wf R" and n: "first_page R \<le> n" "n < end_page R"
  shows "page_wf (of_nat (n * 4096))" "unat (page_number (of_nat (n * 4096))) = n"
    "page_is_user (of_nat (n * 4096)) = page_is_user (pr_start R)"
    "half_limit (of_nat (n * 4096)) = half_limit (pr_start R)"
proof -
  let ?p = "pr_start R" and ?c = "of_nat (n - first_page R) :: u64"
  have p: "page_wf ?p" "end_page R \<le> half_limit ?p"
    using wf by (simp_all add: page_range_wf_def end_page_def)
  have c: "unat ?c = n - first_page R"
    using n p half_limit_le [of ?p] by (intro unat_of_nat_fits) simp
  obtain q where q: "page_checked_add ?p ?c = Some q"
    using page_checked_add_total [OF p(1), of ?c] c n p by (auto simp: first_page_def)
  note Q = page_checked_add_page [OF p(1) q]
  have "unat (page_number q) = n"
    using Q(2) c n by (simp add: first_page_def)
  with page_of_nat [OF Q(1)] have "of_nat (n * 4096) = q"
    by simp
  with Q \<open>unat (page_number q) = n\<close> show "page_wf (of_nat (n * 4096))"
    "unat (page_number (of_nat (n * 4096))) = n"
    "page_is_user (of_nat (n * 4096)) = page_is_user (pr_start R)"
    "half_limit (of_nat (n * 4096)) = half_limit (pr_start R)"
    by simp_all
qed

lemma region_wfD:
  assumes "region_wf r"
  shows "page_range_wf (rg_pages r)" "rg_first r < rg_end r"
    "unat (rg_offset r) + (rg_end r - rg_first r) * 4096 \<le> 2 ^ 64"
    "page_wf (pr_start (rg_pages r))" "rg_end r \<le> half_limit (pr_start (rg_pages r))"
    "rg_end r \<le> 2 ^ 52" "rg_end r - rg_first r \<le> 2 ^ 35"
proof -
  show wf: "page_range_wf (rg_pages r)" "rg_first r < rg_end r"
    "unat (rg_offset r) + (rg_end r - rg_first r) * 4096 \<le> 2 ^ 64"
    using assms by (simp_all add: region_wf_def)
  then show p: "page_wf (pr_start (rg_pages r))" "rg_end r \<le> half_limit (pr_start (rg_pages r))"
    by (simp_all add: page_range_wf_def end_page_def)
  then show "rg_end r \<le> 2 ^ 52"
    using half_limit_le le_trans by blast
  show "rg_end r - rg_first r \<le> 2 ^ 35"
    using page_number_half [OF p(1)] p(2) by (auto simp: half_limit_def first_page_def split: if_splits)
qed

lemma region_count:
  "region_wf r \<Longrightarrow> unat (pr_count (rg_pages r)) = rg_end r - rg_first r"
  by (simp add: first_page_def end_page_def)

lemma sub_region_pages:
  assumes wf: "region_wf r" and ab: "rg_first r \<le> a" "a < b" "b \<le> rg_end r"
  shows "rg_first (sub_region r a b) = a" "rg_end (sub_region r a b) = b"
    "page_range_wf (rg_pages (sub_region r a b))"
    "page_is_user (pr_start (rg_pages (sub_region r a b))) = page_is_user (pr_start (rg_pages r))"
proof -
  note D = region_wfD [OF wf]
  note P = page_in_range [OF D(1) ab(1) order.strict_trans2 [OF ab(2,3)]]
  have c: "unat (of_nat (b - a) :: u64) = b - a"
    using ab D(6) by (intro unat_of_nat_fits) simp
  show "rg_first (sub_region r a b) = a" "rg_end (sub_region r a b) = b"
    using P(2) c ab by (simp_all add: sub_region_def first_page_def end_page_def)
  show "page_range_wf (rg_pages (sub_region r a b))"
    using P c ab D(5) by (simp add: page_range_wf_def sub_region_def)
  show "page_is_user (pr_start (rg_pages (sub_region r a b))) = page_is_user (pr_start (rg_pages r))"
    using P(3) by (simp add: sub_region_def)
qed

lemma sub_region_offset:
  assumes wf: "region_wf r" and ab: "rg_first r \<le> a" "a < rg_end r"
  shows "unat (of_nat ((a - rg_first r) * 4096) :: u64) = (a - rg_first r) * 4096"
    "unat (rg_offset r) + (a - rg_first r) * 4096 < 2 ^ 64"
    "unat (rg_offset (sub_region r a b)) = unat (rg_offset r) + (a - rg_first r) * 4096"
proof -
  note D = region_wfD [OF wf]
  have lt: "(a - rg_first r) * 4096 < (rg_end r - rg_first r) * 4096"
    using ab by simp
  with D(3) show sum: "unat (rg_offset r) + (a - rg_first r) * 4096 < 2 ^ 64"
    by linarith
  then show off: "unat (of_nat ((a - rg_first r) * 4096) :: u64) = (a - rg_first r) * 4096"
    by (intro unat_of_nat_fits) simp
  show "unat (rg_offset (sub_region r a b)) = unat (rg_offset r) + (a - rg_first r) * 4096"
    using unat_add_fits [of "rg_offset r" "of_nat ((a - rg_first r) * 4096)"] off sum
    by (simp add: sub_region_def)
qed

lemma sub_region_wf:
  assumes wf: "region_wf r" and ab: "rg_first r \<le> a" "a < b" "b \<le> rg_end r"
  shows "region_wf (sub_region r a b)"
proof -
  note P = sub_region_pages [OF assms]
  have "(b - a) + (a - rg_first r) \<le> rg_end r - rg_first r"
    using ab by simp
  then have "(b - a) * 4096 + (a - rg_first r) * 4096 \<le> (rg_end r - rg_first r) * 4096"
    by (metis add_mult_distrib mult_le_mono1)
  then show ?thesis
    unfolding region_wf_def
    using P ab sub_region_offset(3) [OF wf ab(1), of b] region_wfD(3) [OF wf] by auto
qed

lemma sub_region_fields [simp]:
  "rg_backing (sub_region r a b) = rg_backing r" "rg_perms (sub_region r a b) = rg_perms r"
  "rg_rights (sub_region r a b) = rg_rights r"
  by (simp_all add: sub_region_def)

lemma sub_region_view:
  assumes wf: "region_wf r" and ab: "rg_first r \<le> a" "a < b" "b \<le> rg_end r"
  shows "region_view (sub_region r a b) n = (if a \<le> n \<and> n < b then region_view r n else None)"
proof -
  note P = sub_region_pages [OF assms]
  have "unat (rg_offset (sub_region r a b)) + (n - a) * 4096 =
      unat (rg_offset r) + (n - rg_first r) * 4096" if "a \<le> n"
    using that ab sub_region_offset(3) [OF wf ab(1), of b] by (simp add: diff_mult_distrib)
  then show ?thesis
    using P ab by (auto simp: region_view_def page_set_def)
qed

lemma sub_region_whole:
  assumes wf: "region_wf r"
  shows "sub_region r (rg_first r) (rg_end r) = r"
proof -
  have count: "of_nat (rg_end r - rg_first r) = pr_count (rg_pages r)"
    by (simp add: first_page_def end_page_def)
  have start: "of_nat (rg_first r * 4096) = pr_start (rg_pages r)"
    unfolding first_page_def by (rule page_of_nat [OF region_wfD(4) [OF wf]])
  show ?thesis
    unfolding sub_region_def count start by simp
qed

lemma region_head_eq:
  assumes wf: "region_wf r" and p: "unat (page_number p) \<le> rg_end r"
  shows "region_head r p = (if unat (page_number p) \<le> rg_first r then None
    else Some (sub_region r (rg_first r) (unat (page_number p))))"
proof (cases "unat (page_number p) \<le> rg_first r")
  case True
  then show ?thesis
    by (auto simp: region_head_def checked_sub_def word_le_nat_alt first_page_def unat_sub_fits
        split: option.splits)
next
  case False
  let ?s = "pr_start (rg_pages r)" and ?n = "unat (page_number p)"
  define c where "c = page_number p - page_number ?s"
  have c: "unat c = ?n - rg_first r" "checked_sub (page_number p) (page_number ?s) = Some c"
    using False by (simp_all add: c_def checked_sub_def word_le_nat_alt first_page_def unat_sub_fits)
  have "page_range_wf \<lparr>pr_start = ?s, pr_count = c\<rparr>"
    using region_wfD(4,5) [OF wf] p c False by (simp add: page_range_wf_def first_page_def)
  then have new: "page_range_new ?s c = Inr \<lparr>pr_start = ?s, pr_count = c\<rparr>"
    using page_range_new_iff [OF region_wfD(4) [OF wf]] by simp
  have "c \<noteq> 0"
    using c(1) False by auto
  have count: "of_nat (?n - rg_first r) = c"
    using c(1) by (metis unat_inject unat_of_nat_fits unat_less_size)
  have start: "of_nat (rg_first r * 4096) = ?s"
    unfolding first_page_def by (rule page_of_nat [OF region_wfD(4) [OF wf]])
  show ?thesis
    unfolding sub_region_def count start using False c(2) new \<open>c \<noteq> 0\<close> by (simp add: region_head_def)
qed

lemma region_tail_eq:
  assumes wf: "region_wf r" and p: "page_wf p" "page_is_user p = page_is_user (pr_start (rg_pages r))"
    and n: "rg_first r \<le> unat (page_number p)" "unat (page_number p) \<le> rg_end r"
  shows "region_tail r p = (if unat (page_number p) = rg_end r then None
    else Some (sub_region r (unat (page_number p)) (rg_end r)))"
proof -
  let ?s = "pr_start (rg_pages r)" and ?n = "unat (page_number p)"
  define k where "k = page_number p - page_number ?s"
  define c where "c = pr_count (rg_pages r) - k"
  have k: "unat k = ?n - rg_first r" "checked_sub (page_number p) (page_number ?s) = Some k"
    using n by (simp_all add: k_def checked_sub_def word_le_nat_alt first_page_def unat_sub_fits)
  have c: "unat c = rg_end r - ?n" "checked_sub (pr_count (rg_pages r)) k = Some c"
    using n k(1) region_count [OF wf]
    by (simp_all add: c_def checked_sub_def word_le_nat_alt unat_sub_fits)
  show ?thesis
  proof (cases "?n = rg_end r")
    case True
    then have "c = 0" using c(1) by (simp add: unat_eq_zero)
    with True k c show ?thesis by (simp add: region_tail_def)
  next
    case False
    with n have lt: "?n < rg_end r" by simp
    have "c \<noteq> 0" using c(1) lt by auto
    have "half_limit p = half_limit ?s" using p(2) by (simp add: half_limit_def)
    then have "page_range_wf \<lparr>pr_start = p, pr_count = c\<rparr>"
      using p(1) c(1) n region_wfD(5) [OF wf] by (simp add: page_range_wf_def)
    then have new: "page_range_new p c = Inr \<lparr>pr_start = p, pr_count = c\<rparr>"
      using page_range_new_iff [OF p(1)] by simp
    note off = sub_region_offset [OF wf n(1) lt]
    have m: "checked_mul k PAGE_SIZE = Some (k * PAGE_SIZE)" "unat (k * PAGE_SIZE) = (?n - rg_first r) * 4096"
      using off(2) k(1) by (simp_all add: checked_mul_def unat_word_ariths)
    then have add: "checked_add (rg_offset r) (k * PAGE_SIZE) = Some (rg_offset r + k * PAGE_SIZE)"
      using off(2) by (simp add: checked_add_def)
    have "k * PAGE_SIZE = of_nat ((?n - rg_first r) * 4096)"
      using m(2) off(1) by (metis unat_inject)
    moreover have "of_nat (rg_end r - ?n) = c"
      using c(1) by (metis unat_inject unat_of_nat_fits unat_less_size)
    moreover have "of_nat (?n * 4096) = p"
      by (rule page_of_nat [OF p(1)])
    ultimately show ?thesis
      using False k(2) c(2) \<open>c \<noteq> 0\<close> new m(1) add by (simp add: region_tail_def sub_region_def)
  qed
qed

lemma page_set_overlap:
  assumes "page_range_wf X" and "page_range_wf Y"
  shows "page_range_overlaps X Y \<longleftrightarrow>
    max (first_page X) (first_page Y) < min (end_page X) (end_page Y)"
  unfolding page_range_overlaps_iff [OF assms] by (auto simp: page_set_def)

lemma overlap_same_half:
  assumes "page_range_wf X" and "page_range_wf Y" and "page_range_overlaps X Y"
  shows "page_is_user (pr_start X) = page_is_user (pr_start Y)"
proof -
  have *: "page_wf (pr_start Z)" "end_page Z \<le> half_limit (pr_start Z)" if "page_range_wf Z" for Z
    using that by (simp_all add: page_range_wf_def end_page_def)
  have lt: "first_page X < end_page Y" "first_page Y < end_page X"
    using assms(3) page_set_overlap [OF assms(1,2)] by auto
  show ?thesis
    using lt * [OF assms(1)] * [OF assms(2)] page_number_half [OF * (1) [OF assms(1)]]
      page_number_half [OF * (1) [OF assms(2)]]
    by (auto simp: half_limit_def first_page_def split: if_splits)
qed

lemma unat_max: "unat (max a b) = max (unat a) (unat (b :: u64))"
  by (simp add: max_def word_le_nat_alt)

lemma unat_min: "unat (min a b) = min (unat a) (unat (b :: u64))"
  by (simp add: min_def word_le_nat_alt)

lemma region_clipped_eq:
  assumes wf: "region_wf r" and X: "page_range_wf X" and o: "page_range_overlaps (rg_pages r) X"
  shows "region_clipped r X =
    Some (sub_region r (max (rg_first r) (first_page X)) (min (rg_end r) (end_page X)))"
proof -
  note D = region_wfD [OF wf]
  define start where "start = max (page_number (pr_start (rg_pages r))) (page_number (pr_start X))"
  define stop where "stop = min (page_range_end_number (rg_pages r)) (page_range_end_number X)"
  define a where "a = max (rg_first r) (first_page X)"
  define b where "b = min (rg_end r) (end_page X)"
  have ab: "unat start = a" "unat stop = b"
    by (simp_all add: start_def stop_def a_def b_def unat_max unat_min first_page_def
        page_range_end_number_unat D(1) X)
  have lt: "a < b" "rg_first r \<le> a" "a < rg_end r" "b \<le> rg_end r"
    using o page_set_overlap [OF D(1) X] by (auto simp: a_def b_def)
  define k where "k = start - page_number (pr_start (rg_pages r))"
  have k: "unat k = a - rg_first r" "checked_sub start (page_number (pr_start (rg_pages r))) = Some k"
    using lt(2) ab by (simp_all add: k_def checked_sub_def word_le_nat_alt first_page_def unat_sub_fits)
  obtain p where p: "page_checked_add (pr_start (rg_pages r)) k = Some p"
    using page_checked_add_total [OF D(4), of k] k(1) lt D(5) by (auto simp: first_page_def)
  note P = page_checked_add_page [OF D(4) p]
  have n: "unat (page_number p) = a"
    using P(2) k(1) lt(2) by (simp add: first_page_def)
  have tail: "region_tail r p = Some (sub_region r a (rg_end r))"
    using region_tail_eq [OF wf P(1,3)] n lt by simp
  define c where "c = stop - start"
  have c: "unat c = b - a" "checked_sub stop start = Some c"
    using lt(1) ab by (simp_all add: c_def checked_sub_def word_le_nat_alt unat_sub_fits)
  have "page_range_wf \<lparr>pr_start = p, pr_count = c\<rparr>"
    using P n c(1) lt D(5) by (simp add: page_range_wf_def)
  then have new: "page_range_new p c = Inr \<lparr>pr_start = p, pr_count = c\<rparr>"
    using page_range_new_iff [OF P(1)] by simp
  have count: "of_nat (b - a) = c"
    using c(1) by (metis unat_inject unat_of_nat_fits unat_less_size)
  have start': "of_nat (a * 4096) = p"
    using page_of_nat [OF P(1)] n by simp
  have "\<not> stop \<le> start"
    using lt(1) ab by (simp add: word_le_nat_alt)
  then have "region_clipped r X = Some ((sub_region r a (rg_end r))\<lparr>rg_pages := \<lparr>pr_start = p, pr_count = c\<rparr>\<rparr>)"
    using k(2) p tail c(2) new
    by (simp add: region_clipped_def Let_def start_def [symmetric] stop_def [symmetric])
  also have "(sub_region r a (rg_end r))\<lparr>rg_pages := \<lparr>pr_start = p, pr_count = c\<rparr>\<rparr> = sub_region r a b"
    unfolding sub_region_def count start' by simp
  finally show ?thesis
    by (simp only: a_def b_def)
qed

lemma region_after_eq:
  assumes wf: "region_wf r" and X: "page_range_wf X" "first_page X < end_page X"
    and half: "page_is_user (pr_start X) = page_is_user (pr_start (rg_pages r))"
    and inside: "rg_first r \<le> first_page X" "end_page X \<le> rg_end r"
  shows "region_after r X = (if end_page X = rg_end r then None
    else Some (sub_region r (end_page X) (rg_end r)))"
proof -
  have ne: "pr_count X \<noteq> 0"
    using X(2) by (auto simp: first_page_def end_page_def)
  have lim: "half_limit (pr_start X) = half_limit (pr_start (rg_pages r))"
    using half by (simp add: half_limit_def)
  show ?thesis
  proof (cases "end_page X < half_limit (pr_start X)")
    case True
    then obtain q where q: "Option.bind (page_range_last X) (\<lambda>l. page_checked_add l 1) = Some q"
        "page_wf q" "unat (page_number q) = end_page X" "half_limit q = half_limit (pr_start X)"
      using page_range_last_next(1) [OF X(1) ne] by blast
    have "page_is_user q = page_is_user (pr_start (rg_pages r))"
      using q(4) half by (auto simp: half_limit_def split: if_splits)
    with region_tail_eq [OF wf q(2)] q(1,3) X(2) inside show ?thesis
      by (simp add: region_after_def)
  next
    case False
    with X(1) have top: "end_page X = half_limit (pr_start X)"
      by (simp add: page_range_wf_def end_page_def)
    with page_range_last_next(2) [OF X(1) ne] region_wfD(5) [OF wf] inside lim show ?thesis
      by (simp add: region_after_def)
  qed
qed

section \<open>Lists of regions\<close>

lemma region_view_None: "region_view r n = None \<longleftrightarrow> n \<notin> page_set (rg_pages r)"
  by (simp add: region_view_def)

lemma list_view_append:
  "list_view (xs @ ys) n = (case list_view xs n of Some x \<Rightarrow> Some x | None \<Rightarrow> list_view ys n)"
  by (induction xs) (auto split: option.splits)

lemma list_view_None: "list_view rs n = None \<longleftrightarrow> (\<forall>r \<in> set rs. n \<notin> page_set (rg_pages r))"
  by (induction rs) (auto simp: region_view_def split: option.splits if_splits)

lemma ordered_append:
  "ordered (xs @ ys) \<longleftrightarrow> ordered xs \<and> ordered ys \<and> (\<forall>x \<in> set xs. \<forall>y \<in> set ys. rg_end x \<le> rg_first y)"
  by (simp add: ordered_def sorted_wrt_append)

lemma ordered_Cons: "ordered (x # ys) \<longleftrightarrow> ordered ys \<and> (\<forall>y \<in> set ys. rg_end x \<le> rg_first y)"
  by (auto simp: ordered_def)

lemma ordered_Nil [simp]: "ordered []"
  by (simp add: ordered_def)

lemma region_view_Some_iff: "region_view r n \<noteq> None \<longleftrightarrow> rg_first r \<le> n \<and> n < rg_end r"
  by (simp add: region_view_def page_set_def)

lemma cut_parts:
  assumes wf: "region_wf r" and X: "page_range_wf X" and x: "x \<in> set (cut X r)"
  shows "region_wf x" "rg_first r \<le> rg_first x" "rg_end x \<le> rg_end r"
    "page_is_user (pr_start (rg_pages x)) = page_is_user (pr_start (rg_pages r))"
proof -
  note o = page_set_overlap [OF region_wfD(1) [OF wf] X]
  have "\<exists>a b. x = sub_region r a b \<and> rg_first r \<le> a \<and> a < b \<and> b \<le> rg_end r"
  proof (cases "page_range_overlaps (rg_pages r) X")
    case True
    then have "rg_first r < first_page X \<and> x = sub_region r (rg_first r) (first_page X) \<or>
        end_page X < rg_end r \<and> x = sub_region r (end_page X) (rg_end r)"
      using x by (auto simp: cut_def split: if_splits)
    moreover have "first_page X \<le> rg_end r" "rg_first r \<le> end_page X"
      using True o by auto
    ultimately show ?thesis by blast
  next
    case False
    with x have "x = sub_region r (rg_first r) (rg_end r)"
      by (simp add: cut_def sub_region_whole [OF wf])
    with region_wfD(2) [OF wf] show ?thesis by blast
  qed
  then obtain a b where x: "x = sub_region r a b" and ab: "rg_first r \<le> a" "a < b" "b \<le> rg_end r"
    by blast
  from sub_region_pages [OF wf ab] sub_region_wf [OF wf ab] ab show "region_wf x"
    "rg_first r \<le> rg_first x" "rg_end x \<le> rg_end r"
    "page_is_user (pr_start (rg_pages x)) = page_is_user (pr_start (rg_pages r))"
    by (simp_all add: x)
qed

lemma cut_ordered:
  assumes wf: "region_wf r" and X: "page_range_wf X"
  shows "ordered (cut X r)"
proof (cases "page_range_overlaps (rg_pages r) X")
  case True
  then have o: "max (rg_first r) (first_page X) < min (rg_end r) (end_page X)"
    using page_set_overlap [OF region_wfD(1) [OF wf] X] by simp
  have "first_page X < end_page X" "first_page X < rg_end r" "rg_first r < end_page X"
    using o by auto
  then show ?thesis
    using sub_region_pages [OF wf, of "rg_first r" "first_page X"]
      sub_region_pages [OF wf, of "end_page X" "rg_end r"]
    by (auto simp: cut_def ordered_Cons True)
qed (simp add: cut_def ordered_Cons)

lemma cut_view:
  assumes wf: "region_wf r" and X: "page_range_wf X"
  shows "list_view (cut X r) n = (if n \<in> page_set X then None else region_view r n)"
proof (cases "page_range_overlaps (rg_pages r) X")
  case True
  then have o: "first_page X < end_page X" "first_page X < rg_end r" "rg_first r < end_page X"
    "rg_first r < rg_end r"
    using page_set_overlap [OF region_wfD(1) [OF wf] X] by auto
  have 1: "rg_first r < first_page X \<Longrightarrow> region_view (sub_region r (rg_first r) (first_page X)) n =
      (if rg_first r \<le> n \<and> n < first_page X then region_view r n else None)"
    using sub_region_view [OF wf, of "rg_first r" "first_page X" n] o by simp
  have 2: "end_page X < rg_end r \<Longrightarrow> region_view (sub_region r (end_page X) (rg_end r)) n =
      (if end_page X \<le> n \<and> n < rg_end r then region_view r n else None)"
    using sub_region_view [OF wf, of "end_page X" "rg_end r" n] o by simp
  show ?thesis
    using True o 1 2 region_view_Some_iff [of r n]
    by (cases "region_view r n") (auto simp: cut_def page_set_def not_less not_le)
next
  case False
  then have "page_set (rg_pages r) \<inter> page_set X = {}"
    using page_range_overlaps_iff [OF region_wfD(1) [OF wf] X] by simp
  with False show ?thesis
    by (auto simp: cut_def region_view_def split: option.splits if_splits)
qed

lemma cuts_view:
  "list_all region_wf rs \<Longrightarrow> page_range_wf X \<Longrightarrow>
   list_view (concat (map (cut X) rs)) n = (if n \<in> page_set X then None else list_view rs n)"
  by (induction rs) (auto simp: list_view_append cut_view split: option.splits)

lemma cuts_ordered:
  assumes "ordered (as @ bs)" and "list_all region_wf as" and X: "page_range_wf X"
  shows "ordered (concat (map (cut X) as) @ bs)"
  using assms(1,2)
proof (induction as)
  case (Cons r as)
  have r: "region_wf r" using Cons.prems by simp
  have "rg_end x \<le> rg_first y" if "x \<in> set (cut X r)" "y \<in> set (concat (map (cut X) as) @ bs)" for x y
  proof -
    have "\<exists>q \<in> set (as @ bs). rg_first q \<le> rg_first y"
      using that(2) Cons.prems(2) cut_parts(2) [OF _ X] by (fastforce simp: list_all_iff)
    then obtain q where "q \<in> set (as @ bs)" "rg_first q \<le> rg_first y" by blast
    moreover from this have "rg_end r \<le> rg_first q"
      using Cons.prems(1) by (auto simp: ordered_Cons)
    moreover have "rg_end x \<le> rg_end r"
      using cut_parts(3) [OF r X that(1)] .
    ultimately show ?thesis by simp
  qed
  with Cons cut_ordered [OF r X] show ?case
    by (simp add: ordered_append [of "cut X r"] ordered_Cons)
qed simp

section \<open>Removal\<close>

lemma removed_push_taken:
  assumes ok: "removed_ok m removed" and room: "rm_len removed < m"
    and push: "removed' = snd (removed_push removed region vanished divided)"
  shows "removed_taken removed' = removed_taken removed @
      [\<lparr>tk_region = region, tk_vanished = vanished, tk_divided = divided\<rparr>]"
    "removed_ok m removed'" "rm_remaining removed' = rm_remaining removed"
proof -
  let ?x = "Some \<lparr>tk_region = region, tk_vanished = vanished, tk_divided = divided\<rparr>"
  have len: "rm_len removed < length (rm_items removed)"
    using ok room by (simp add: removed_ok_def)
  then have r: "removed' = removed\<lparr>rm_items := (rm_items removed)[rm_len removed := ?x],
      rm_len := rm_len removed + 1\<rparr>"
    by (simp add: push removed_push_def array_set_def)
  have "take (rm_len removed + 1) ((rm_items removed)[rm_len removed := ?x]) =
      take (rm_len removed) (rm_items removed) @ [?x]"
    using len by (simp add: take_Suc_conv_app_nth)
  then show "removed_taken removed' = removed_taken removed @
      [\<lparr>tk_region = region, tk_vanished = vanished, tk_divided = divided\<rparr>]"
    by (simp add: removed_taken_def r map_filter_def)
  show "rm_remaining removed' = rm_remaining removed"
    by (simp add: r)
  show "removed_ok m removed'"
    using ok room by (simp add: r removed_ok_def)
qed

lemma cut_cases:
  assumes wf: "region_wf r" and X: "page_range_wf X" and o: "page_range_overlaps (rg_pages r) X"
  defines "p \<equiv> sub_region r (max (rg_first r) (first_page X)) (min (rg_end r) (end_page X))"
  shows "region_clipped r X = Some p"
    "region_head r (pr_start (rg_pages p)) = (if rg_first r < first_page X
       then Some (sub_region r (rg_first r) (first_page X)) else None)"
    "region_after r (rg_pages p) = (if end_page X < rg_end r
       then Some (sub_region r (end_page X) (rg_end r)) else None)"
proof -
  note D = region_wfD [OF wf]
  have ov: "max (rg_first r) (first_page X) < min (rg_end r) (end_page X)"
    using o page_set_overlap [OF D(1) X] by simp
  show "region_clipped r X = Some p"
    unfolding p_def by (rule region_clipped_eq [OF wf X o])
  have ab: "rg_first r \<le> max (rg_first r) (first_page X)" "min (rg_end r) (end_page X) \<le> rg_end r"
    by simp_all
  note P = sub_region_pages [OF wf ab(1) ov ab(2), folded p_def]
  have n: "unat (page_number (pr_start (rg_pages p))) = max (rg_first r) (first_page X)"
    using P(1) by (simp add: first_page_def)
  show "region_head r (pr_start (rg_pages p)) = (if rg_first r < first_page X
       then Some (sub_region r (rg_first r) (first_page X)) else None)"
    using region_head_eq [OF wf, of "pr_start (rg_pages p)"] n ov by (auto simp: max_def)
  show "region_after r (rg_pages p) = (if end_page X < rg_end r
       then Some (sub_region r (end_page X) (rg_end r)) else None)"
    using region_after_eq [OF wf P(3) _ P(4)] P(1,2) ov by (auto simp: min_def)
qed

lemma ordered_only_overlap:
  assumes "ordered (r # rs)" and "region_wf r" and "list_all region_wf rs" and X: "page_range_wf X"
    and "page_range_overlaps (rg_pages r) X" and "q \<in> set rs"
  shows "\<not> (splits X q \<and> page_range_overlaps (rg_pages q) X)"
    "splits X r \<Longrightarrow> \<not> page_range_overlaps (rg_pages q) X"
proof -
  have q: "region_wf q" "rg_end r \<le> rg_first q"
    using assms by (auto simp: list_all_iff ordered_Cons)
  show "\<not> (splits X q \<and> page_range_overlaps (rg_pages q) X)"
    "splits X r \<Longrightarrow> \<not> page_range_overlaps (rg_pages q) X"
    using assms(5) q page_set_overlap [OF region_wfD(1) [OF assms(2)] X]
      page_set_overlap [OF region_wfD(1) [OF q(1)] X]
    by (auto simp: splits_def)
qed

lemma remove_shape_Cons:
  assumes "remove_shape X m removed' (ds @ cut X r) rs t1 rem t'"
    and "removed_taken removed' = removed_taken removed @ piece X r"
    and "rm_remaining removed' = rm_remaining removed"
    and "length (rt_regions t1) = length (rt_regions t)" and "rt_kernel t1 = rt_kernel t"
  shows "remove_shape X m removed ds (r # rs) t rem t'"
proof -
  obtain as bs where *: "rs = as @ bs" "holds t' ((ds @ cut X r) @ concat (map (cut X) as) @ bs)"
      "length (rt_regions t') = length (rt_regions t1)" "rt_kernel t' = rt_kernel t1"
      "removed_taken rem = removed_taken removed' @ concat (map (piece X) as)"
      "bs = [] \<and> rm_remaining rem = rm_remaining removed' \<or>
         (\<exists>r cs. bs = r # cs \<and> page_range_overlaps (rg_pages r) X \<and> rm_len rem = m \<and>
            rm_remaining rem = remaining_from (of_nat (max (rg_first r) (first_page X) * 4096)) X)"
    using assms(1) unfolding remove_shape_def by blast
  show ?thesis
    unfolding remove_shape_def
    by (rule exI [of _ "r # as"], rule exI [of _ bs]) (use * assms(2-5) in simp)
qed

lemma remove_step:
  assumes h: "holds t (ds @ r # rs)" and wf: "region_wf r" and X: "page_range_wf X"
    and o: "page_range_overlaps (rg_pages r) X" and ok: "removed_ok m removed"
    and budget: "rm_len removed < m"
    and room: "splits X r \<Longrightarrow> length (ds @ r # rs) < length (rt_regions t)"
  shows "\<exists>t1 removed'. rt_remove_loop X m t removed (length ds) =
      rt_remove_loop X m t1 removed' (length (ds @ cut X r)) \<and>
      holds t1 ((ds @ cut X r) @ rs) \<and> removed_ok m removed' \<and>
      removed_taken removed' = removed_taken removed @ piece X r \<and>
      rm_remaining removed' = rm_remaining removed \<and>
      length (rt_regions t1) = length (rt_regions t) \<and> rt_kernel t1 = rt_kernel t"
proof -
  let ?i = "length ds"
  define p where "p = sub_region r (max (rg_first r) (first_page X)) (min (rg_end r) (end_page X))"
  define h1 where "h1 = sub_region r (rg_first r) (first_page X)"
  define t2 where "t2 = sub_region r (end_page X) (rg_end r)"
  note C = cut_cases [OF wf X o, folded p_def h1_def t2_def]
  have get: "rt_get t ?i = Some r" "?i < rt_len t"
    using holds_get [OF h, of ?i] holdsD(2) [OF h] by simp_all
  have set: "holds (rt_set t ?i x) (ds @ x # rs)" for x
    using holds_set [OF h, of ?i x] by simp
  define push where "push v d = snd (removed_push removed p v d)" for v d
  have pushed: "removed_taken (push v d) = removed_taken removed @ [\<lparr>tk_region = p, tk_vanished = v, tk_divided = d\<rparr>]"
    "removed_ok m (push v d)" "rm_remaining (push v d) = rm_remaining removed" for v d
    using removed_push_taken [OF ok budget, of "push v d" p v d] by (simp_all add: push_def)
  have step: "rt_remove_loop X m t removed ?i =
      (case (if rg_first r < first_page X then Some h1 else None,
             if end_page X < rg_end r then Some t2 else None) of
         (None, None) \<Rightarrow> rt_remove_loop X m (rt_remove_at t ?i) (push True False) ?i
       | (Some head, None) \<Rightarrow> rt_remove_loop X m (rt_set t ?i head) (push False False) (?i + 1)
       | (None, Some tail) \<Rightarrow> rt_remove_loop X m (rt_set t ?i tail) (push False False) (?i + 1)
       | (Some head, Some tail) \<Rightarrow>
           if length (rt_regions t) \<le> rt_len t then (Inl RegionQuotaExceeded, t)
           else (case rt_insert_at (rt_set t ?i head) (?i + 1) tail of
              (Inl e, t) \<Rightarrow> (Inl e, t)
            | (Inr _, t) \<Rightarrow> rt_remove_loop X m t (push False True) (?i + 2)))"
    unfolding push_def using budget get o by (subst rt_remove_loop.simps) (simp add: C)
  consider (none) "\<not> rg_first r < first_page X" "\<not> end_page X < rg_end r"
    | (head) "rg_first r < first_page X" "\<not> end_page X < rg_end r"
    | (tail) "\<not> rg_first r < first_page X" "end_page X < rg_end r"
    | (both) "rg_first r < first_page X" "end_page X < rg_end r"
    by blast
  then show ?thesis
  proof cases
    case none
    then have "cut X r = []" "piece X r = [\<lparr>tk_region = p, tk_vanished = True, tk_divided = False\<rparr>]"
      using o by (simp_all add: cut_def piece_def p_def)
    then show ?thesis
      using none step pushed [of True False] holds_remove_at [OF h, of ?i]
      by (intro exI [of _ "rt_remove_at t ?i"] exI [of _ "push True False"]) simp
  next
    case head
    then have "cut X r = [h1]" "piece X r = [\<lparr>tk_region = p, tk_vanished = False, tk_divided = False\<rparr>]"
      using o by (simp_all add: cut_def piece_def p_def h1_def)
    then show ?thesis
      using head step pushed [of False False] set [of h1]
      by (intro exI [of _ "rt_set t ?i h1"] exI [of _ "push False False"]) (simp add: rt_set_def)
  next
    case tail
    then have "cut X r = [t2]" "piece X r = [\<lparr>tk_region = p, tk_vanished = False, tk_divided = False\<rparr>]"
      using o by (simp_all add: cut_def piece_def p_def t2_def)
    then show ?thesis
      using tail step pushed [of False False] set [of t2]
      by (intro exI [of _ "rt_set t ?i t2"] exI [of _ "push False False"]) (simp add: rt_set_def)
  next
    case both
    then have cp: "cut X r = [h1, t2]"
      "piece X r = [\<lparr>tk_region = p, tk_vanished = False, tk_divided = True\<rparr>]"
      using o by (simp_all add: cut_def piece_def p_def h1_def t2_def)
    have free: "length (ds @ h1 # rs) < length (rt_regions (rt_set t ?i h1))"
      using room both by (simp add: splits_def rt_set_def)
    obtain t1 where t1: "rt_insert_at (rt_set t ?i h1) (?i + 1) t2 = (Inr (), t1)"
        "holds t1 (ds @ h1 # t2 # rs)" "rt_kernel t1 = rt_kernel t"
        "length (rt_regions t1) = length (rt_regions t)"
      using holds_insert_at [OF set [of h1] _ free, of "?i + 1" t2] by (auto simp: rt_set_def)
    have "\<not> length (rt_regions t) \<le> rt_len t"
      using free holdsD(2) [OF h] by (simp add: rt_set_def)
    then show ?thesis
      using both step pushed [of False True] cp t1
      by (intro exI [of _ t1] exI [of _ "push False True"]) simp
  qed
qed

lemma remove_skip:
  assumes "holds t (ds @ r # rs)" and "\<not> page_range_overlaps (rg_pages r) X"
  shows "rt_remove_loop X m t removed (length ds) = rt_remove_loop X m t removed (length (ds @ [r]))"
  using assms(2) holds_get [OF assms(1), of "length ds"] holdsD(2) [OF assms(1)]
  by (subst rt_remove_loop.simps) simp

lemma remove_stop:
  assumes h: "holds t (ds @ r # rs)" and wf: "region_wf r" and X: "page_range_wf X"
    and o: "page_range_overlaps (rg_pages r) X" and "m \<le> rm_len removed"
  shows "rt_remove_loop X m t removed (length ds) = (Inr (removed\<lparr>rm_remaining :=
    remaining_from (of_nat (max (rg_first r) (first_page X) * 4096)) X\<rparr>), t)"
  using assms(5) o holds_get [OF h, of "length ds"] holdsD(2) [OF h] cut_cases(1) [OF wf X o]
  by (subst rt_remove_loop.simps) (simp add: sub_region_def)

lemma remove_loop_ok:
  assumes "holds t (ds @ rs)" and "list_all region_wf rs" and "ordered rs" and X: "page_range_wf X"
    and "removed_ok m removed"
    and "\<And>r. r \<in> set rs \<Longrightarrow> page_range_overlaps (rg_pages r) X \<Longrightarrow> splits X r \<Longrightarrow>
      length (ds @ rs) < length (rt_regions t)"
  shows "\<exists>rem t'. rt_remove_loop X m t removed (length ds) = (Inr rem, t') \<and>
    remove_shape X m removed ds rs t rem t'"
  using assms(1-3,5-6)
proof (induction rs arbitrary: t removed ds)
  case Nil
  then have "rt_len t = length ds"
    by (simp add: holds_def)
  then have "rt_remove_loop X m t removed (length ds) = (Inr removed, t)"
    by (subst rt_remove_loop.simps) simp
  with Nil show ?case
    by (simp add: remove_shape_def)
next
  case (Cons r rs)
  have wf: "region_wf r" "list_all region_wf rs" "ordered rs"
    using Cons.prems by (simp_all add: ordered_Cons)
  show ?case
  proof (cases "page_range_overlaps (rg_pages r) X")
    case False
    then have cp: "cut X r = [r]" "piece X r = []"
      by (simp_all add: cut_def piece_def)
    obtain rem t' where "rt_remove_loop X m t removed (length (ds @ [r])) = (Inr rem, t')"
        "remove_shape X m removed (ds @ [r]) rs t rem t'"
      using Cons.IH [of t "ds @ [r]" removed] Cons.prems wf by auto
    moreover from this have "remove_shape X m removed ds (r # rs) t rem t'"
      using remove_shape_Cons [of X m removed ds r rs t rem t' removed t] cp by simp
    ultimately show ?thesis
      using remove_skip [OF Cons.prems(1) False] by auto
  next
    case True
    show ?thesis
    proof (cases "rm_len removed < m")
      case False
      then have "rm_len removed = m"
        using Cons.prems(4) by (simp add: removed_ok_def)
      define rem where "rem = removed\<lparr>rm_remaining :=
        remaining_from (of_nat (max (rg_first r) (first_page X) * 4096)) X\<rparr>"
      have "remove_shape X m removed ds (r # rs) t rem t"
        unfolding remove_shape_def
        by (rule exI [of _ "[]"], rule exI [of _ "r # rs"])
          (use Cons.prems(1) True \<open>rm_len removed = m\<close> in \<open>simp add: rem_def removed_taken_def\<close>)
      then show ?thesis
        using remove_stop [OF Cons.prems(1) wf(1) X True, of m removed] \<open>rm_len removed = m\<close>
        unfolding rem_def by blast
    next
      case budget: True
      have room: "splits X r \<Longrightarrow> length (ds @ r # rs) < length (rt_regions t)"
        using Cons.prems(5) [of r] True by simp
      obtain t1 removed' where s: "rt_remove_loop X m t removed (length ds) =
            rt_remove_loop X m t1 removed' (length (ds @ cut X r))"
          "holds t1 ((ds @ cut X r) @ rs)" "removed_ok m removed'"
          "removed_taken removed' = removed_taken removed @ piece X r"
          "rm_remaining removed' = rm_remaining removed"
          "length (rt_regions t1) = length (rt_regions t)" "rt_kernel t1 = rt_kernel t"
        using remove_step [OF Cons.prems(1) wf(1) X True Cons.prems(4) budget room] by blast
      obtain rem t' where "rt_remove_loop X m t1 removed' (length (ds @ cut X r)) = (Inr rem, t')"
          "remove_shape X m removed' (ds @ cut X r) rs t1 rem t'"
        using Cons.IH [OF s(2) wf(2,3) s(3)]
          ordered_only_overlap(1) [OF Cons.prems(3) wf(1,2) X True] by blast
      with s remove_shape_Cons show ?thesis by metis
    qed
  qed
qed

text \<open>Without that slot the loop stops at the region to divide, and nothing has changed.\<close>

lemma remove_loop_full:
  assumes "holds t (ds @ rs)" and "list_all region_wf rs" and "ordered rs" and X: "page_range_wf X"
    and "r \<in> set rs" "page_range_overlaps (rg_pages r) X" "splits X r"
    and "length (rt_regions t) \<le> length (ds @ rs)" and "rm_len removed < m"
  shows "rt_remove_loop X m t removed (length ds) = (Inl RegionQuotaExceeded, t)"
  using assms(1-3,5-9)
proof (induction rs arbitrary: ds)
  case (Cons q rs)
  have wf: "region_wf q" "list_all region_wf rs" "ordered rs"
    using Cons.prems by (simp_all add: ordered_Cons)
  show ?case
  proof (cases "page_range_overlaps (rg_pages q) X")
    case False
    then show ?thesis
      using Cons.IH [of "ds @ [q]"] Cons.prems wf remove_skip [OF Cons.prems(1) False] by auto
  next
    case True
    have "q = r"
      using ordered_only_overlap(1) [OF Cons.prems(3) wf(1,2) X True] Cons.prems by auto
    moreover have "rt_len t = length (ds @ q # rs)"
      using Cons.prems(1) by (simp add: holds_def)
    ultimately show ?thesis
      using Cons.prems(6,8) Cons.prems(7) True holds_get [OF Cons.prems(1), of "length ds"]
        cut_cases [OF wf(1) X True]
      by (subst rt_remove_loop.simps) (simp add: splits_def)
  qed
qed simp

section \<open>The invariant at work\<close>

lemma rt_wf_holds:
  assumes "rt_wf t"
  shows "holds t (rt_iter t)" "list_all region_wf (rt_iter t)"
    "list_all (in_bounds (rt_kernel t)) (rt_iter t)" "ordered (rt_iter t)"
  using assms by (simp_all add: rt_wf_def regions_ok_def)

lemma rt_wfI:
  assumes "holds t rs" and "list_all region_wf rs" and "list_all (in_bounds (rt_kernel t)) rs"
    and "ordered rs"
  shows "rt_wf t"
  using assms holds_iter [OF assms(1)] by (simp add: rt_wf_def regions_ok_def)

lemma mappable_iff:
  assumes "page_wf p"
  shows "\<not> p < USER_SPACE_START \<longleftrightarrow> 16 \<le> unat (page_number p)"
  using unat_page [OF assms] by (auto simp: word_less_nat_alt USER_SPACE_START_def)

lemma in_bounds_iff:
  assumes "region_wf r"
  shows "in_bounds k r \<longleftrightarrow> k \<or> page_is_user (pr_start (rg_pages r)) \<and> 16 \<le> rg_first r"
  using mappable_iff [OF region_wfD(4) [OF assms]]
  by (simp add: in_bounds_def page_range_is_user_def first_page_def)

lemma cuts_ok:
  assumes as: "list_all region_wf as" "list_all (in_bounds k) as" and X: "page_range_wf X"
  shows "list_all region_wf (concat (map (cut X) as))" "list_all (in_bounds k) (concat (map (cut X) as))"
proof -
  have "region_wf x \<and> in_bounds k x" if "r \<in> set as" "x \<in> set (cut X r)" for r x
  proof -
    have r: "region_wf r" "in_bounds k r"
      using as that(1) by (simp_all add: list_all_iff)
    show ?thesis
      using cut_parts [OF r(1) X that(2)] r(2) by (auto simp: in_bounds_iff r(1))
  qed
  then show "list_all region_wf (concat (map (cut X) as))"
    "list_all (in_bounds k) (concat (map (cut X) as))"
    by (auto simp: list_all_iff)
qed

lemma pieces_view:
  assumes "list_all region_wf as" and X: "page_range_wf X"
  shows "list_view (map tk_region (concat (map (piece X) as))) n =
    (if n \<in> page_set X then list_view as n else None)"
  using assms(1)
proof (induction as)
  case (Cons r as)
  have r: "region_wf r" using Cons.prems by simp
  have "list_view (map tk_region (piece X r)) n = (if n \<in> page_set X then region_view r n else None)"
  proof (cases "page_range_overlaps (rg_pages r) X")
    case True
    then have o: "max (rg_first r) (first_page X) < min (rg_end r) (end_page X)"
      using page_set_overlap [OF region_wfD(1) [OF r] X] by simp
    show ?thesis
      using sub_region_view [OF r _ o, of n] region_view_Some_iff [of r n] True
      by (cases "region_view r n") (auto simp: piece_def page_set_def)
  next
    case False
    then have "page_set (rg_pages r) \<inter> page_set X = {}"
      using page_range_overlaps_iff [OF region_wfD(1) [OF r] X] by simp
    with False show ?thesis
      by (auto simp: piece_def region_view_def)
  qed
  with Cons show ?case
    by (auto simp: list_view_append split: option.splits)
qed simp

lemma pieces_count:
  "length (concat (map (cut X) as)) + length (filter tk_vanished (concat (map (piece X) as))) =
   length as + length (filter tk_divided (concat (map (piece X) as)))"
proof (induction as)
  case (Cons r as)
  have "length (cut X r) + length (filter tk_vanished (piece X r)) =
      1 + length (filter tk_divided (piece X r))"
    by (auto simp: cut_def piece_def)
  with Cons show ?case by simp
qed simp

lemma remaining_from_eq:
  assumes X: "page_range_wf X" and a: "first_page X \<le> a" "a < end_page X"
  shows "\<exists>Y. remaining_from (of_nat (a * 4096)) X = Some Y \<and> page_range_wf Y \<and>
    first_page Y = a \<and> end_page Y = end_page X"
proof -
  let ?p = "of_nat (a * 4096) :: u64"
  note P = page_in_range [OF X a]
  define c where "c = page_range_end_number X - page_number ?p"
  have le: "page_number ?p \<le> page_range_end_number X"
    using a(2) P(2) page_range_end_number_unat [OF X] by (simp add: word_le_nat_alt)
  have c: "unat c = end_page X - a" "checked_sub (page_range_end_number X) (page_number ?p) = Some c"
    using le P(2) page_range_end_number_unat [OF X] by (simp_all add: c_def checked_sub_def unat_sub_fits)
  have lim: "end_page X \<le> half_limit ?p"
    using X P(4) by (simp add: page_range_wf_def end_page_def)
  define Y where "Y = \<lparr>pr_start = ?p, pr_count = c\<rparr>"
  have wf: "page_range_wf Y"
    unfolding Y_def page_range_wf_def using P(1,2) c(1) lim a by simp
  have "page_range_new ?p c = Inr Y"
    using page_range_new_iff [OF P(1), of c Y] wf by (simp add: Y_def)
  moreover have "c \<noteq> 0"
    using c(1) a by auto
  moreover have "first_page Y = a" "end_page Y = end_page X"
    unfolding Y_def first_page_def end_page_def using P(2) c(1) a by (simp_all add: end_page_def)
  ultimately show ?thesis
    using c(2) wf by (simp add: remaining_from_def)
qed

lemma check_range_cases:
  assumes "page_range_wf X"
  shows "rt_check_range t X = (if page_set X = {} then Inl RegionEmpty
    else if rt_kernel t \<or> page_is_user (pr_start X) \<and> 16 \<le> first_page X then Inr ()
    else Inl OutsideUserSpace)"
proof -
  have "page_range_is_empty X \<longleftrightarrow> page_set X = {}"
    by (auto simp: page_range_is_empty_def page_set_def first_page_def end_page_def unat_eq_zero)
  then show ?thesis
    using assms mappable_iff [of "pr_start X"]
    by (auto simp: rt_check_range_def page_range_is_user_def first_page_def page_range_wf_def)
qed

lemma overlap_view:
  assumes "list_all region_wf rs" and "page_range_wf X"
  shows "list_ex (\<lambda>r. page_range_overlaps (rg_pages r) X) rs \<longleftrightarrow>
    (\<exists>n \<in> page_set X. list_view rs n \<noteq> None)"
proof -
  have "page_range_overlaps (rg_pages r) X \<longleftrightarrow> (\<exists>n \<in> page_set X. n \<in> page_set (rg_pages r))"
    if "r \<in> set rs" for r
  proof -
    have "region_wf r" using assms(1) that by (simp add: list_all_iff)
    from page_range_overlaps_iff [OF region_wfD(1) [OF this] assms(2)] show ?thesis by auto
  qed
  then show ?thesis
    by (auto simp: list_ex_iff list_view_None)
qed

text \<open>The effect of a completed removal on the table.\<close>

lemma remove_shape_effect:
  assumes wf: "rt_wf t" and X: "page_range_wf X" and ne: "first_page X < end_page X"
    and shape: "remove_shape X m (removed_new m) [] (rt_iter t) t rem t'"
  defines "stop \<equiv> case rm_remaining rem of None \<Rightarrow> end_page X | Some Y \<Rightarrow> first_page Y"
  shows "rt_wf t'"
    "table_view t' n = (if first_page X \<le> n \<and> n < stop then None else table_view t n)"
    "first_page X \<le> n \<Longrightarrow> n < stop \<Longrightarrow>
       list_view (map tk_region (removed_taken rem)) n = table_view t n"
    "rt_len t' + length (filter tk_vanished (removed_taken rem)) =
       rt_len t + length (filter tk_divided (removed_taken rem))"
    "rm_remaining rem = Some Y \<Longrightarrow> page_range_wf Y \<and> end_page Y = end_page X \<and> rm_len rem = m"
    "first_page X \<le> stop" "stop \<le> end_page X"
proof -
  have new: "removed_taken (removed_new m) = []" "rm_remaining (removed_new m) = None"
    by (simp_all add: removed_taken_def removed_new_def map_filter_def)
  obtain as bs where s: "rt_iter t = as @ bs" "holds t' (concat (map (cut X) as) @ bs)"
      "rt_kernel t' = rt_kernel t" "removed_taken rem = concat (map (piece X) as)"
      "bs = [] \<and> rm_remaining rem = None \<or>
         (\<exists>r cs. bs = r # cs \<and> page_range_overlaps (rg_pages r) X \<and> rm_len rem = m \<and>
            rm_remaining rem = remaining_from (of_nat (max (rg_first r) (first_page X) * 4096)) X)"
    using shape unfolding remove_shape_def new append.simps by blast
  note W = rt_wf_holds [OF wf, unfolded s(1)]
  have as: "list_all region_wf as" "list_all (in_bounds (rt_kernel t)) as"
    and bs: "list_all region_wf bs" "list_all (in_bounds (rt_kernel t)) bs"
    using W by simp_all
  show "rt_wf t'"
    by (rule rt_wfI [OF s(2)])
      (use cuts_ok [OF as X] cuts_ordered [OF W(4) as(1) X] bs s(3) in simp_all)
  have sep: "\<forall>x \<in> set as. \<forall>y \<in> set bs. rg_end x \<le> rg_first y"
    using W(4) by (simp add: ordered_append)
  have split: "bs = [] \<and> rm_remaining rem = None \<and> stop = end_page X \<or>
      (\<exists>r cs Y. bs = r # cs \<and> rm_remaining rem = Some Y \<and> page_range_wf Y \<and> end_page Y = end_page X \<and>
        stop = max (rg_first r) (first_page X) \<and> stop < end_page X \<and> rm_len rem = m)"
  proof (cases bs)
    case Nil
    with s(5) show ?thesis by (simp add: stop_def)
  next
    case (Cons r cs)
    with s(5) have r: "page_range_overlaps (rg_pages r) X" "rm_len rem = m"
        "rm_remaining rem = remaining_from (of_nat (max (rg_first r) (first_page X) * 4096)) X"
      by auto
    have "region_wf r" using bs(1) Cons by simp
    then have lt: "max (rg_first r) (first_page X) < end_page X"
      using page_set_overlap [OF region_wfD(1) X] r(1) by auto
    then show ?thesis
      using remaining_from_eq [OF X _ lt] r Cons by (auto simp: stop_def)
  qed
  have out: "list_view bs n = None" if "first_page X \<le> n" "n < stop"
    unfolding list_view_None
  proof (intro ballI)
    fix y assume y: "y \<in> set bs"
    then obtain r cs where r: "bs = r # cs" "stop = max (rg_first r) (first_page X)"
      using split by auto
    have "rg_first r \<le> rg_first y"
      using y r(1) W(4) bs(1) region_wfD(2) [of r]
      by (fastforce simp: ordered_append ordered_Cons)
    with that r(2) show "n \<notin> page_set (rg_pages y)"
      by (auto simp: page_set_def)
  qed
  have past: "list_view as n = None" if n: "stop \<le> n" "n < end_page X"
    unfolding list_view_None
  proof (intro ballI)
    fix x assume x: "x \<in> set as"
    obtain r cs where r: "bs = r # cs" "stop = max (rg_first r) (first_page X)"
      using split n by auto
    with sep x have "rg_end x \<le> rg_first r" by simp
    with n r(2) show "n \<notin> page_set (rg_pages x)"
      by (auto simp: page_set_def)
  qed
  show le: "first_page X \<le> stop" "stop \<le> end_page X"
    using split ne by auto
  have t': "table_view t' n = list_view (concat (map (cut X) as) @ bs) n"
    by (simp add: table_view_def holds_iter [OF s(2)])
  show "table_view t' n = (if first_page X \<le> n \<and> n < stop then None else table_view t n)"
    unfolding t'
    unfolding table_view_def s(1) list_view_append cuts_view [OF as(1) X]
    using out past le by (auto simp: page_set_def split: option.splits)
  show "list_view (map tk_region (removed_taken rem)) n = table_view t n"
    if "first_page X \<le> n" "n < stop"
    using that le out pieces_view [OF as(1) X, of n]
    by (auto simp: s(4) table_view_def s(1) list_view_append page_set_def split: option.splits)
  show "rt_len t' + length (filter tk_vanished (removed_taken rem)) =
       rt_len t + length (filter tk_divided (removed_taken rem))"
    using pieces_count [of X as] holdsD(2) [OF s(2)] holdsD(2) [OF W(1)] by (simp add: s(4))
  show "page_range_wf Y \<and> end_page Y = end_page X \<and> rm_len rem = m" if "rm_remaining rem = Some Y"
    using that split by auto
qed

text \<open>The page at which a removal stopped, and the error of a request the table refuses.\<close>

definition removed_end :: "page_range \<Rightarrow> 'b removed \<Rightarrow> nat" where
  "removed_end X rem = (case rm_remaining rem of None \<Rightarrow> end_page X | Some Y \<Rightarrow> first_page Y)"

definition mappable :: "'b region_table \<Rightarrow> page_range \<Rightarrow> bool" where
  "mappable t X \<longleftrightarrow> rt_kernel t \<or> page_is_user (pr_start X) \<and> 16 \<le> first_page X"

definition remove_refusal :: "'b region_table \<Rightarrow> page_range \<Rightarrow> region_error \<Rightarrow> bool" where
  "remove_refusal t X e \<longleftrightarrow>
     (if page_set X = {} then e = RegionEmpty
      else if \<not> mappable t X then e = OutsideUserSpace
      else if \<forall>n \<in> page_set X. table_view t n = None then e = RegionNotMapped
      else e = RegionQuotaExceeded \<and> rt_len t = length (rt_regions t) \<and>
        (\<exists>r \<in> set (rt_iter t). splits X r))"

lemma removed_ok_new: "removed_ok m (removed_new m)" "rm_len (removed_new m) = 0"
  by (simp_all add: removed_ok_def removed_new_def)

lemma remove_mapped:
  assumes wf: "rt_wf t" and X: "page_range_wf X" and ne: "page_set X \<noteq> {}" and m: "0 < m"
    and map: "mappable t X" and some: "\<exists>n \<in> page_set X. table_view t n \<noteq> None"
  shows "(\<exists>rem t'. rt_remove t m X = (Inr rem, t') \<and>
      remove_shape X m (removed_new m) [] (rt_iter t) t rem t') \<or>
    rt_remove t m X = (Inl RegionQuotaExceeded, t) \<and> rt_len t = length (rt_regions t) \<and>
      (\<exists>r \<in> set (rt_iter t). splits X r)"
proof -
  note W = rt_wf_holds [OF wf]
  have start: "rt_remove t m X = rt_remove_loop X m t (removed_new m) (length ([] :: 'a region list))"
    using ne map some check_range_cases [OF X, of t] overlap_view [OF W(2) X]
    by (simp add: rt_remove_def mappable_def table_view_def)
  show ?thesis
  proof (cases "\<exists>r \<in> set (rt_iter t). page_range_overlaps (rg_pages r) X \<and> splits X r \<and>
      length (rt_regions t) \<le> length (rt_iter t)")
    case True
    then obtain r where r: "r \<in> set (rt_iter t)" "page_range_overlaps (rg_pages r) X" "splits X r"
        "length (rt_regions t) \<le> length (rt_iter t)" by blast
    have "rt_remove_loop X m t (removed_new m) (length ([] :: 'a region list)) =
        (Inl RegionQuotaExceeded, t)"
      by (rule remove_loop_full [of t "[]" "rt_iter t" X r])
        (use W X r m in \<open>simp_all add: removed_ok_new\<close>)
    moreover have "rt_len t = length (rt_regions t)"
      using holdsD(1,2) [OF W(1)] r(4) by simp
    ultimately show ?thesis
      using start r by auto
  next
    case False
    have "\<exists>rem t'. rt_remove_loop X m t (removed_new m) (length ([] :: 'a region list)) = (Inr rem, t') \<and>
        remove_shape X m (removed_new m) [] (rt_iter t) t rem t'"
      by (rule remove_loop_ok) (use W X False in \<open>auto simp: not_le removed_ok_new\<close>)
    with start show ?thesis by simp
  qed
qed

lemma rt_remove_effect:
  assumes wf: "rt_wf t" and X: "page_range_wf X" and m: "0 < m" and run: "rt_remove t m X = (res, t')"
  shows "case res of
      Inl e \<Rightarrow> t' = t \<and> remove_refusal t X e
    | Inr rem \<Rightarrow> rt_wf t' \<and> removed_end X rem \<in> {first_page X .. end_page X} \<and>
        (\<forall>n. table_view t' n =
          (if first_page X \<le> n \<and> n < removed_end X rem then None else table_view t n)) \<and>
        (\<forall>n \<in> {first_page X ..< removed_end X rem}.
          list_view (map tk_region (removed_taken rem)) n = table_view t n) \<and>
        rt_len t' + length (filter tk_vanished (removed_taken rem)) =
          rt_len t + length (filter tk_divided (removed_taken rem)) \<and>
        (\<forall>Y. rm_remaining rem = Some Y \<longrightarrow>
          page_range_wf Y \<and> end_page Y = end_page X \<and> rm_len rem = m)"
proof (cases "page_set X \<noteq> {} \<and> mappable t X \<and> (\<exists>n \<in> page_set X. table_view t n \<noteq> None)")
  case False
  note W = rt_wf_holds [OF wf]
  have "rt_remove t m X = (Inl (if page_set X = {} then RegionEmpty
      else if \<not> mappable t X then OutsideUserSpace else RegionNotMapped), t)"
    using False check_range_cases [OF X, of t] overlap_view [OF W(2) X]
    by (auto simp: rt_remove_def mappable_def table_view_def)
  with run False show ?thesis
    by (auto simp: remove_refusal_def)
next
  case True
  have "page_set X \<noteq> {}" "mappable t X" "\<exists>n \<in> page_set X. table_view t n \<noteq> None"
    using True by blast+
  from remove_mapped [OF wf X this(1) m this(2,3)] show ?thesis
  proof (elim disjE conjE exE)
    fix rem t'' assume rem: "rt_remove t m X = (Inr rem, t'')"
      and shape: "remove_shape X m (removed_new m) [] (rt_iter t) t rem t''"
    have ne: "first_page X < end_page X"
      using True by (auto simp: page_set_def)
    show ?thesis
      using remove_shape_effect [OF wf X ne shape] run rem by (auto simp: removed_end_def)
  next
    assume "rt_remove t m X = (Inl RegionQuotaExceeded, t)" "rt_len t = length (rt_regions t)"
      "\<exists>r \<in> set (rt_iter t). splits X r"
    then show ?thesis
      using run True by (auto simp: remove_refusal_def)
  qed
qed

text \<open>
  C6: \<open>RegionTable::remove\<close>, on a table that satisfies the invariant. A refusal leaves the table as
  it was, and its error says which of the four causes it has: an empty range, a range outside user
  space, no mapped page in the range, or a full table when a region would have to be divided.
  Otherwise the invariant still holds; the pages of the range up to where the removal stopped are
  unmapped and every other page keeps its backing, offset, permissions and rights; the removed
  pieces report exactly what backed the pages that went; the number of regions changes by the
  divided and the vanished ones; and a removal that stops early has used all \<open>M\<close> entries and
  returns the rest of the range.
\<close>

theorem rt_remove_correct:
  assumes wf: "rt_wf t" and X: "page_range_wf X" and m: "0 < m" and run: "rt_remove t m X = (res, t')"
  shows "case res of
      Inl e \<Rightarrow> t' = t \<and> remove_refusal t X e
    | Inr rem \<Rightarrow> rt_wf t' \<and> removed_end X rem \<in> {first_page X .. end_page X} \<and>
        (\<forall>n. table_view t' n =
          (if first_page X \<le> n \<and> n < removed_end X rem then None else table_view t n)) \<and>
        (\<forall>n \<in> {first_page X ..< removed_end X rem}.
          list_view (map tk_region (removed_taken rem)) n = table_view t n) \<and>
        rt_len t' + length (filter tk_vanished (removed_taken rem)) =
          rt_len t + length (filter tk_divided (removed_taken rem)) \<and>
        (\<forall>Y. rm_remaining rem = Some Y \<longrightarrow>
          page_range_wf Y \<and> end_page Y = end_page X \<and> rm_len rem = m)"
  using assms by (rule rt_remove_effect)


text \<open>A table with room for three regions that maps the pages 16 to 18, and its middle page.\<close>

definition example_table :: "nat region_table" where
  "example_table = \<lparr>rt_regions = [Some \<lparr>rg_pages = \<lparr>pr_start = 0x10000, pr_count = 3\<rparr>,
      rg_backing = 7, rg_offset = 0x2000, rg_perms = \<lparr>pm_write = True, pm_execute = False, pm_user = True\<rparr>, rg_rights = 1\<rparr>, None, None],
    rt_len = 1, rt_kernel = False\<rparr>"

definition example_range :: page_range where
  "example_range = \<lparr>pr_start = 0x11000, pr_count = 1\<rparr>"

lemma example_range_pages:
  "page_range_wf example_range" "first_page example_range = 17" "end_page example_range = 18"
  "page_set example_range = {17}" "page_is_user (pr_start example_range)"
  by (auto simp: example_range_def page_range_wf_def first_page_def end_page_def page_set_def
      page_wf_iff page_is_user_iff page_number_def PAGE_SHIFT_def drop_bit_eq_div half_limit_def)

lemma example_table_regions:
  "rt_wf example_table" "table_view example_table n =
     (if n \<in> {16 ..< 19} then Some (7, 0x2000 + (n - 16) * 4096,
        \<lparr>pm_write = True, pm_execute = False, pm_user = True\<rparr>, 1) else None)"
proof -
  have iter: "rt_iter example_table = [the (hd (rt_regions example_table))]"
    by (simp add: rt_iter_def example_table_def map_filter_def)
  show "table_view example_table n =
     (if n \<in> {16 ..< 19} then Some (7, 0x2000 + (n - 16) * 4096,
        \<lparr>pm_write = True, pm_execute = False, pm_user = True\<rparr>, 1) else None)"
    by (auto simp: table_view_def iter) (auto simp: example_table_def region_view_def page_set_def first_page_def
        end_page_def page_number_def PAGE_SHIFT_def drop_bit_eq_div)
  show "rt_wf example_table"
    by (auto simp: rt_wf_def regions_ok_def iter ordered_Cons)
      (auto simp: example_table_def holds_def region_wf_def in_bounds_def page_range_is_user_def
        page_range_wf_def first_page_def end_page_def page_wf_iff page_is_user_iff page_number_def
        PAGE_SHIFT_def drop_bit_eq_div half_limit_def USER_SPACE_START_def nth_Cons split: nat.splits)
qed

theorem rt_remove_correct_witness:
  "\<exists>rem t'. rt_remove example_table 2 example_range = (Inr rem, t') \<and> rt_wf t' \<and>
     table_view t' 16 = table_view example_table 16 \<and> table_view t' 16 \<noteq> None \<and>
     table_view t' 18 = table_view example_table 18 \<and>
     (rm_remaining rem = None \<longrightarrow> table_view t' 17 = None)"
proof (cases "rt_remove example_table 2 example_range")
  case (Pair res t')
  note E = rt_remove_correct [OF example_table_regions(1) example_range_pages(1) _ Pair]
  have "\<not> remove_refusal example_table example_range e" for e
    by (simp add: remove_refusal_def example_range_pages example_table_regions mappable_def)
      (simp add: example_table_def)
  with E obtain rem where "res = Inr rem"
    by (cases res) auto
  with E Pair show ?thesis
    by (auto simp: example_range_pages example_table_regions(2)) (auto simp: removed_end_def example_range_pages split: option.splits)
qed

section \<open>Insertion\<close>

lemma position_from_eq:
  assumes "holds t (ds @ rs)"
  shows "rt_position_from t p (length ds) =
    length ds + length (takeWhile (\<lambda>r. rg_first r < unat (page_number p)) rs)"
  using assms
proof (induction rs arbitrary: ds)
  case Nil
  then show ?case by (subst rt_position_from.simps) (simp add: holdsD(2))
next
  case (Cons r rs)
  have "rt_get t (length ds) = Some r" "length ds < rt_len t"
    using holds_get [OF Cons.prems, of "length ds"] holdsD(2) [OF Cons.prems] by simp_all
  then show ?case
    using Cons.IH [of "ds @ [r]"] Cons.prems
    by (subst rt_position_from.simps) (simp add: first_page_def word_less_nat_alt)
qed

lemma position_for_eq:
  "holds t rs \<Longrightarrow> rt_position_for t p = length (takeWhile (\<lambda>r. rg_first r < unat (page_number p)) rs)"
  using position_from_eq [of t "[]" rs p] by (simp add: rt_position_for_def)

lemma slots_eq:
  assumes "holds t rs"
  shows "List.map_filter (\<lambda>i. map_option (\<lambda>held. (i, held)) (rt_get t i)) [0..<rt_len t] =
    map (\<lambda>i. (i, rs ! i)) [0..<length rs]"
proof -
  have "List.map_filter (\<lambda>i. map_option (\<lambda>held. (i, held)) (rt_get t i)) xs = map (\<lambda>i. (i, rs ! i)) xs"
    if "\<forall>i \<in> set xs. i < length rs" for xs
    using that holds_get [OF assms] by (induction xs) (auto simp: map_filter_simps)
  then show ?thesis
    using holdsD(2) [OF assms] by simp
qed

lemma continuation_cases:
  assumes "holds t rs"
  shows "(\<exists>i < length rs. rt_continuation_of t r = Some (i, rs ! i) \<and> continues_into (rs ! i) r) \<or>
    rt_continuation_of t r = None \<and> (\<forall>h \<in> set rs. \<not> continues_into h r)"
proof (cases "rt_continuation_of t r")
  case None
  then show ?thesis
    by (auto simp: rt_continuation_of_def slots_eq [OF assms] find_None_iff in_set_conv_nth)
next
  case (Some x)
  then have "x \<in> set (map (\<lambda>i. (i, rs ! i)) [0..<length rs])" "case x of (_, h) \<Rightarrow> continues_into h r"
    unfolding rt_continuation_of_def slots_eq [OF assms] by (auto simp: find_Some_iff)
  then obtain i where "i < length rs" "x = (i, rs ! i)" "continues_into (rs ! i) r" by auto
  with Some show ?thesis by blast
qed

lemma apart:
  assumes "region_wf x" "region_wf y" "\<not> page_range_overlaps (rg_pages x) (rg_pages y)"
  shows "rg_end x \<le> rg_first y \<or> rg_end y \<le> rg_first x"
  using page_set_overlap [OF region_wfD(1) [OF assms(1)] region_wfD(1) [OF assms(2)]] assms(3)
    region_wfD(2) [OF assms(1)] region_wfD(2) [OF assms(2)] by auto

text \<open>A region put in its place keeps the order; the places are those of the sorted list.\<close>

lemma insert_ordered:
  assumes rs: "list_all region_wf rs" "ordered rs" and r: "region_wf r"
    and free: "\<forall>x \<in> set rs. \<not> page_range_overlaps (rg_pages x) (rg_pages r)"
  defines "as \<equiv> takeWhile (\<lambda>x. rg_first x < rg_first r) rs"
    and "bs \<equiv> dropWhile (\<lambda>x. rg_first x < rg_first r) rs"
  shows "ordered (as @ r # bs)"
proof -
  have split: "rs = as @ bs" by (simp add: as_def bs_def)
  note o = rs(2) [unfolded split ordered_append]
  have sep: "rg_end x \<le> rg_first r \<or> rg_end r \<le> rg_first x" if "x \<in> set rs" for x
    using apart [of x r] that rs(1) r free by (auto simp: list_all_iff)
  have wf: "region_wf x" if "x \<in> set rs" for x
    using rs(1) that by (simp add: list_all_iff)
  have low: "rg_end x \<le> rg_first r" if "x \<in> set as" for x
    using that sep [of x] set_takeWhileD [of x "\<lambda>x. rg_first x < rg_first r" rs] region_wfD(2) [OF r]
    by (auto simp: as_def)
  have high: "rg_end r \<le> rg_first y" if y: "y \<in> set bs" for y
  proof -
    obtain b cs where b: "bs = b # cs" using y by (cases bs) auto
    have "\<not> rg_first b < rg_first r"
      using b unfolding bs_def by (simp add: dropWhile_eq_Cons_conv)
    moreover have "rg_first b \<le> rg_first y"
      using that o b region_wfD(2) [OF wf, of b] split by (auto simp: ordered_Cons)
    ultimately show ?thesis
      using sep [of y] that split region_wfD(2) [OF wf, of y] region_wfD(2) [OF r] by force
  qed
  show ?thesis
    using o low high by (auto simp: ordered_append ordered_Cons intro: order_trans)
qed

lemma insert_view:
  assumes "\<forall>x \<in> set (as @ bs). page_set (rg_pages x) \<inter> page_set (rg_pages r) = {}"
  shows "list_view (as @ r # bs) n =
    (if n \<in> page_set (rg_pages r) then region_view r n else list_view (as @ bs) n)"
proof (cases "n \<in> page_set (rg_pages r)")
  case True
  then have "list_view as n = None"
    using assms by (auto simp: list_view_None)
  with True show ?thesis
    by (simp add: list_view_append region_view_def)
next
  case False
  then show ?thesis
    by (simp add: list_view_append region_view_def split: option.splits)
qed

text \<open>A region that continues another: the two as one.\<close>

definition joined :: "'b region \<Rightarrow> 'b region \<Rightarrow> 'b region" where
  "joined h r = h\<lparr>rg_pages := \<lparr>pr_start = pr_start (rg_pages h),
     pr_count = of_nat (rg_end r - rg_first h)\<rparr>\<rparr>"

lemma page_range_bytes_unat:
  assumes "region_wf r"
  shows "unat (page_range_bytes (rg_pages r)) = (rg_end r - rg_first r) * 4096"
proof -
  have "(rg_end r - rg_first r) * 4096 < 2 ^ 64"
    using region_wfD(7) [OF assms] by simp
  then show ?thesis
    using region_count [OF assms]
    by (simp add: page_range_bytes_def PAGE_SHIFT_def push_bit_eq_mult unat_word_ariths)
qed

lemma continues_joined:
  assumes h: "region_wf h" and r: "region_wf r" and c: "continues_into h r"
  shows "rg_end h = rg_first r" "region_wf (joined h r)"
    "rg_first (joined h r) = rg_first h" "rg_end (joined h r) = rg_end r"
    "page_range_new (pr_start (rg_pages h)) (saturating_add (pr_count (rg_pages h)) (pr_count (rg_pages r))) =
       Inr (rg_pages (joined h r))"
    "region_view (joined h r) n =
       (case region_view h n of Some x \<Rightarrow> Some x | None \<Rightarrow> region_view r n)"
proof -
  note H = region_wfD [OF h] and R = region_wfD [OF r]
  show meet: "rg_end h = rg_first r"
    using c page_range_end_number_unat [OF H(1)] by (simp add: continues_into_def first_page_def)
  have same: "rg_backing h = rg_backing r" "rg_perms h = rg_perms r" "rg_rights h = rg_rights r"
    and off: "unat (rg_offset r) = unat (rg_offset h) + (rg_end h - rg_first h) * 4096"
    using c page_range_bytes_unat [OF h] by (auto simp: continues_into_def checked_add_Some unat_add_fits)
  have half: "half_limit (pr_start (rg_pages h)) = half_limit (pr_start (rg_pages r))"
    using page_number_half [OF H(4)] page_number_half [OF R(4)] H(2,5) R(2,5) meet
    by (auto simp: half_limit_def first_page_def split: if_splits)
  have count: "unat (of_nat (rg_end r - rg_first h) :: u64) = rg_end r - rg_first h"
    by (rule unat_of_nat_fits) (use R(6) in simp)
  show first: "rg_first (joined h r) = rg_first h"
    by (simp add: joined_def first_page_def)
  show stop: "rg_end (joined h r) = rg_end r"
    using count H(2) R(2) meet by (simp add: joined_def end_page_def first_page_def)
  have wf: "page_range_wf (rg_pages (joined h r))"
    using stop R(5) H(4) half by (simp add: joined_def page_range_wf_def end_page_def)
  show "region_wf (joined h r)"
    using wf first stop H(2,3) R(2,3) off meet by (simp add: region_wf_def) (simp add: joined_def)
  have "saturating_add (pr_count (rg_pages h)) (pr_count (rg_pages r)) = of_nat (rg_end r - rg_first h)"
    using region_count [OF h] region_count [OF r] H(2,6) R(2,6) meet
    by (intro unat_inject [THEN iffD1]) (simp add: count del: of_nat_diff)
  then show "page_range_new (pr_start (rg_pages h))
      (saturating_add (pr_count (rg_pages h)) (pr_count (rg_pages r))) = Inr (rg_pages (joined h r))"
    using page_range_new_iff [OF H(4)] wf by (simp add: joined_def)
  show "region_view (joined h r) n =
       (case region_view h n of Some x \<Rightarrow> Some x | None \<Rightarrow> region_view r n)"
    using first stop same off meet H(2) R(2)
    by (auto simp: region_view_def page_set_def) (auto simp: joined_def)
qed


definition insert_refusal :: "'b region_table \<Rightarrow> 'b region \<Rightarrow> region_error \<Rightarrow> bool" where
  "insert_refusal t r e \<longleftrightarrow>
     (if page_set (rg_pages r) = {} then e = RegionEmpty
      else if \<not> mappable t (rg_pages r) then e = OutsideUserSpace
      else if \<exists>n \<in> page_set (rg_pages r). table_view t n \<noteq> None then e = RegionAddressInUse
      else e = RegionQuotaExceeded \<and> rt_len t = length (rt_regions t) \<and>
        (\<forall>h \<in> set (rt_iter t). \<not> continues_into h r))"

definition insert_effect ::
  "'b region_table \<Rightarrow> 'b region \<Rightarrow> inserted \<Rightarrow> 'b region_table \<Rightarrow> bool" where
  "insert_effect t r how t' \<longleftrightarrow> rt_wf t' \<and>
     (\<forall>n. table_view t' n =
       (if n \<in> page_set (rg_pages r) then region_view r n else table_view t n)) \<and>
     rt_len t' = rt_len t + (case how of Added \<Rightarrow> 1 | Merged \<Rightarrow> 0) \<and>
     (how = Merged \<longleftrightarrow> (\<exists>h \<in> set (rt_iter t). continues_into h r))"

lemma mappable_in_bounds: "region_wf r \<Longrightarrow> in_bounds (rt_kernel t) r \<longleftrightarrow> mappable t (rg_pages r)"
  by (simp add: in_bounds_iff mappable_def)

lemma insert_merged:
  assumes wf: "rt_wf t" and r: "region_wf r" and map: "mappable t (rg_pages r)"
    and free: "\<forall>x \<in> set (rt_iter t). \<not> page_range_overlaps (rg_pages x) (rg_pages r)"
    and i: "i < length (rt_iter t)" and c: "continues_into (rt_iter t ! i) r"
  defines "h \<equiv> rt_iter t ! i"
  shows "insert_effect t r Merged (rt_set t i (joined h r))"
proof -
  note W = rt_wf_holds [OF wf]
  define as bs where "as = take i (rt_iter t)" and "bs = drop (Suc i) (rt_iter t)"
  have rs: "rt_iter t = as @ h # bs"
    unfolding as_def bs_def h_def using i by (rule id_take_nth_drop)
  have h: "region_wf h" "in_bounds (rt_kernel t) h"
    using W(2,3) by (simp_all add: rs)
  note J = continues_joined [OF h(1) r c [folded h_def]]
  have i': "i = length as" using i by (simp add: as_def)
  have set: "holds (rt_set t i (joined h r)) (as @ joined h r # bs)"
    using holds_set [OF W(1) i, of "joined h r"] by (simp add: rs i')
  have high: "rg_end r \<le> rg_first y" if "y \<in> set bs" for y
    using apart [OF _ r, of y] that W(2,4) free J(1) region_wfD(2) [OF r] region_wfD(2) [of y]
    by (fastforce simp: rs ordered_append ordered_Cons list_all_iff)
  have bounds: "in_bounds (rt_kernel t) (joined h r)"
    using h J(2,3) by (simp add: in_bounds_iff) (simp add: joined_def)
  have "rt_wf (rt_set t i (joined h r))"
    by (rule rt_wfI [OF set])
      (use W(2-4) J(2-4) bounds high in \<open>auto simp: rs ordered_append ordered_Cons rt_set_def\<close>)
  moreover have "table_view (rt_set t i (joined h r)) n =
      (if n \<in> page_set (rg_pages r) then region_view r n else table_view t n)" for n
  proof -
    have dis: "\<forall>x \<in> set (as @ h # bs). page_set (rg_pages x) \<inter> page_set (rg_pages r) = {}"
      using free W(2) page_range_overlaps_iff [OF region_wfD(1) region_wfD(1) [OF r]]
      by (auto simp: rs list_all_iff)
    have "list_view (as @ joined h r # bs) n = list_view ((as @ [h]) @ r # bs) n"
      by (simp add: list_view_append J(6) split: option.splits)
    also have "\<dots> = (if n \<in> page_set (rg_pages r) then region_view r n else list_view ((as @ [h]) @ bs) n)"
      by (rule insert_view) (use dis in simp)
    finally show ?thesis
      by (simp add: table_view_def holds_iter [OF set] rs)
  qed
  ultimately show ?thesis
    using c i by (auto simp: insert_effect_def)
qed

lemma insert_added:
  assumes wf: "rt_wf t" and r: "region_wf r" and map: "mappable t (rg_pages r)"
    and free: "\<forall>x \<in> set (rt_iter t). \<not> page_range_overlaps (rg_pages x) (rg_pages r)"
    and new: "\<forall>h \<in> set (rt_iter t). \<not> continues_into h r" and room: "rt_len t < length (rt_regions t)"
  shows "\<exists>t'. rt_insert_at t (rt_position_for t (pr_start (rg_pages r))) r = (Inr (), t') \<and>
    insert_effect t r Added t'"
proof -
  note W = rt_wf_holds [OF wf]
  let ?P = "\<lambda>x. rg_first x < rg_first r"
  have pos: "rt_position_for t (pr_start (rg_pages r)) = length (takeWhile ?P (rt_iter t))"
    using position_for_eq [OF W(1)] by (simp add: first_page_def)
  have parts: "take (length (takeWhile ?P xs)) xs = takeWhile ?P xs"
      "drop (length (takeWhile ?P xs)) xs = dropWhile ?P xs" for xs
    by (metis takeWhile_eq_take, metis dropWhile_eq_drop)
  have le: "length (takeWhile ?P (rt_iter t)) \<le> length (rt_iter t)"
    by (rule length_takeWhile_le)
  have "length (rt_iter t) < length (rt_regions t)"
    using room holdsD(2) [OF W(1)] by simp
  from holds_insert_at [OF W(1) le this, of r] obtain t'
    where t': "rt_insert_at t (rt_position_for t (pr_start (rg_pages r))) r = (Inr (), t')"
      "holds t' (takeWhile ?P (rt_iter t) @ r # dropWhile ?P (rt_iter t))" "rt_kernel t' = rt_kernel t"
    unfolding pos parts by blast
  have sets: "set (takeWhile ?P (rt_iter t)) \<union> set (dropWhile ?P (rt_iter t)) = set (rt_iter t)"
    by (metis set_append takeWhile_dropWhile_id)
  have "rt_wf t'"
    by (rule rt_wfI [OF t'(2)])
      (use W(2,3) r map insert_ordered [OF W(2,4) r free] sets in
        \<open>auto simp: list_all_iff t'(3) mappable_in_bounds\<close>)
  moreover have "table_view t' n =
      (if n \<in> page_set (rg_pages r) then region_view r n else table_view t n)" for n
  proof -
    have "\<forall>x \<in> set (takeWhile ?P (rt_iter t) @ dropWhile ?P (rt_iter t)).
        page_set (rg_pages x) \<inter> page_set (rg_pages r) = {}"
      using free W(2) page_range_overlaps_iff [OF region_wfD(1) region_wfD(1) [OF r]]
      by (auto simp: list_all_iff)
    from insert_view [OF this, of n] show ?thesis
      by (simp add: table_view_def holds_iter [OF t'(2)])
  qed
  moreover have "rt_len t' = rt_len t + 1"
    using holdsD(2) [OF t'(2)] holdsD(2) [OF W(1)]
    by (metis Suc_eq_plus1 add_Suc_right length_Cons length_append takeWhile_dropWhile_id)
  ultimately show ?thesis
    using t'(1) new by (auto simp: insert_effect_def)
qed

lemma rt_insert_pages:
  assumes wf: "rt_wf t" and r: "region_wf r" and run: "rt_insert t r = (res, t')"
  shows "case res of Inl e \<Rightarrow> t' = t \<and> insert_refusal t r e
    | Inr how \<Rightarrow> insert_effect t r how t' \<and> (\<forall>e. \<not> insert_refusal t r e)"
proof -
  note W = rt_wf_holds [OF wf]
  have ne: "page_set (rg_pages r) \<noteq> {}"
    using region_wfD(2) [OF r] by (simp add: page_set_def)
  note check = check_range_cases [OF region_wfD(1) [OF r], of t]
    and over = overlap_view [OF W(2) region_wfD(1) [OF r]]
  show ?thesis
  proof (cases "mappable t (rg_pages r) \<and> (\<forall>n \<in> page_set (rg_pages r). table_view t n = None)")
    case False
    then have "rt_insert t r =
        (Inl (if mappable t (rg_pages r) then RegionAddressInUse else OutsideUserSpace), t)"
      using ne over by (auto simp: rt_insert_def check mappable_def table_view_def)
    with run False show ?thesis
      by (auto simp: insert_refusal_def ne)
  next
    case True
    then have map: "mappable t (rg_pages r)" by simp
    have free: "\<forall>x \<in> set (rt_iter t). \<not> page_range_overlaps (rg_pages x) (rg_pages r)"
      and nex: "\<not> list_ex (\<lambda>x. page_range_overlaps (rg_pages x) (rg_pages r)) (rt_iter t)"
      using True over by (auto simp: table_view_def list_ex_iff)
    have ok: "rt_check_range t (rg_pages r) = Inr ()"
      using True ne check by (simp add: mappable_def)
    from continuation_cases [OF W(1), of r] show ?thesis
    proof (elim disjE exE conjE)
      fix i assume i: "i < length (rt_iter t)" "rt_continuation_of t r = Some (i, rt_iter t ! i)"
        "continues_into (rt_iter t ! i) r"
      have h: "region_wf (rt_iter t ! i)" using W(2) i(1) by (simp add: list_all_length)
      have "rt_insert t r = (Inr Merged, rt_set t i (joined (rt_iter t ! i) r))"
        using continues_joined(5) [OF h r i(3)]
        by (simp add: rt_insert_def ok nex i(2) Let_def joined_def)
      moreover have "\<not> insert_refusal t r e" for e
        using True i by (auto simp: insert_refusal_def ne)
      ultimately show ?thesis
        using insert_merged [OF wf r map free i(1,3)] run by auto
    next
      assume c: "rt_continuation_of t r = None" "\<forall>h \<in> set (rt_iter t). \<not> continues_into h r"
      show ?thesis
      proof (cases "rt_len t < length (rt_regions t)")
        case room: True
        then have "\<not> insert_refusal t r e" for e
          using True by (auto simp: insert_refusal_def ne)
        then show ?thesis
          using insert_added [OF wf r map free c(2) room] run
          by (auto simp: rt_insert_def ok nex c(1))
      next
        case False
        then have "rt_len t = length (rt_regions t)"
          using holdsD(1,2) [OF W(1)] by simp
        then show ?thesis
          using holds_insert_at_full [OF W(1)] holdsD(2) [OF W(1)] run True c
          by (auto simp: rt_insert_def ok nex insert_refusal_def ne)
      qed
    qed
  qed
qed

lemma rt_insert_effect:
  assumes wf: "rt_wf t" and r: "region_sound r" and run: "rt_insert t r = (res, t')"
  shows "case res of Inl e \<Rightarrow> t' = t \<and> insert_refusal t r e
    | Inr how \<Rightarrow> insert_effect t r how t' \<and> (\<forall>e. \<not> insert_refusal t r e)"
proof (cases "page_set (rg_pages r) = {}")
  case True
  have "page_range_wf (rg_pages r)" using r by (simp add: region_sound_def)
  from check_range_cases [OF this, of t] True have "rt_insert t r = (Inl RegionEmpty, t)"
    by (simp add: rt_insert_def)
  with run True show ?thesis by (auto simp: insert_refusal_def)
next
  case False
  then show ?thesis using rt_insert_pages [OF wf _ run] region_sound_wf [OF r] by simp
qed

text \<open>
  C7: \<open>RegionTable::insert\<close>, on a table that satisfies the invariant. It is refused exactly when the range is
  empty, or outside the space of the table, or one of its pages is mapped, or the table is full and no
  region continues into the new one, with the error of the first of these that holds, and the table
  stays as it was. Otherwise the invariant still holds, the pages of the region are backed as the region
  says and every other page is as before, and the table has one region more, except when an existing
  region has grown, which happens exactly when one continues into the new region.
\<close>

theorem rt_insert_correct:
  assumes wf: "rt_wf t" and r: "region_sound r" and run: "rt_insert t r = (res, t')"
  shows "case res of Inl e \<Rightarrow> t' = t \<and> insert_refusal t r e
    | Inr how \<Rightarrow> insert_effect t r how t' \<and> (\<forall>e. \<not> insert_refusal t r e)"
  using assms by (rule rt_insert_effect)

definition example_region :: "nat region" where
  "example_region = \<lparr>rg_pages = \<lparr>pr_start = 0x13000, pr_count = 2\<rparr>, rg_backing = 7,
     rg_offset = 0x5000, rg_perms = \<lparr>pm_write = True, pm_execute = False, pm_user = True\<rparr>,
     rg_rights = 1\<rparr>"

lemma example_region_pages:
  "region_wf example_region" "region_sound example_region" "rg_first example_region = 19" "rg_end example_region = 21"
  "page_set (rg_pages example_region) = {19 ..< 21}" "page_is_user (pr_start (rg_pages example_region))"
  by (auto simp: example_region_def region_wf_def region_sound_def page_range_wf_def first_page_def end_page_def
      page_set_def page_wf_iff page_is_user_iff page_number_def PAGE_SHIFT_def drop_bit_eq_div
      half_limit_def)

theorem rt_insert_correct_witness:
  "\<exists>how t'. rt_insert example_table example_region = (Inr how, t') \<and> rt_wf t' \<and>
     table_view t' 16 = table_view example_table 16 \<and> table_view t' 20 = region_view example_region 20"
proof (cases "rt_insert example_table example_region")
  case (Pair res t')
  note E = rt_insert_correct [OF example_table_regions(1) example_region_pages(2) Pair]
  have "\<not> insert_refusal example_table example_region e" for e
    by (simp add: insert_refusal_def example_region_pages example_table_regions mappable_def)
      (simp add: example_table_def)
  with E obtain how where "res = Inr how"
    by (cases res) auto
  with E Pair show ?thesis
    by (auto simp: insert_effect_def example_region_pages)
qed

section \<open>Protection\<close>

text \<open>The regions that take the place of \<open>r\<close> when the range \<open>X\<close> inside it is protected.\<close>

definition protected :: "page_range \<Rightarrow> permissions \<Rightarrow> 'b region \<Rightarrow> 'b region list" where
  "protected X perms r =
     (if rg_first r < first_page X then [sub_region r (rg_first r) (first_page X)] else []) @
     [(sub_region r (first_page X) (end_page X))\<lparr>rg_perms := perms\<rparr>] @
     (if end_page X < rg_end r then [sub_region r (end_page X) (rg_end r)] else [])"

definition covers :: "page_range \<Rightarrow> 'b region \<Rightarrow> bool" where
  "covers X r \<longleftrightarrow> rg_first r \<le> first_page X \<and> end_page X \<le> rg_end r"

lemma region_perms_update [simp]:
  "region_wf (r\<lparr>rg_perms := p\<rparr>) = region_wf r" "in_bounds k (r\<lparr>rg_perms := p\<rparr>) = in_bounds k r"
  by (simp_all add: region_wf_def in_bounds_def)

lemma protected_parts:
  assumes r: "region_wf r" and ne: "first_page X < end_page X" and c: "covers X r"
    and x: "x \<in> set (protected X perms r)"
  shows "region_wf x" "rg_first r \<le> rg_first x" "rg_end x \<le> rg_end r"
    "page_is_user (pr_start (rg_pages x)) = page_is_user (pr_start (rg_pages r))"
proof -
  have le: "rg_first r \<le> first_page X" "end_page X \<le> rg_end r"
    using c by (simp_all add: covers_def)
  from x consider
      "x = sub_region r (rg_first r) (first_page X)" "rg_first r < first_page X"
    | "x = (sub_region r (first_page X) (end_page X))\<lparr>rg_perms := perms\<rparr>"
    | "x = sub_region r (end_page X) (rg_end r)" "end_page X < rg_end r"
    by (auto simp: protected_def split: if_splits)
  then have "region_wf x \<and> rg_first r \<le> rg_first x \<and> rg_end x \<le> rg_end r \<and>
      page_is_user (pr_start (rg_pages x)) = page_is_user (pr_start (rg_pages r))"
    using sub_region_pages [OF r] sub_region_wf [OF r] le ne by cases simp_all
  then show "region_wf x" "rg_first r \<le> rg_first x" "rg_end x \<le> rg_end r"
    "page_is_user (pr_start (rg_pages x)) = page_is_user (pr_start (rg_pages r))"
    by simp_all
qed

lemma protected_ordered:
  assumes r: "region_wf r" and ne: "first_page X < end_page X" and c: "covers X r"
  shows "ordered (protected X perms r)"
  using sub_region_pages [OF r] c ne
  by (auto simp: protected_def covers_def ordered_append ordered_Cons)

lemma protected_view:
  assumes r: "region_wf r" and ne: "first_page X < end_page X" and c: "covers X r"
  shows "list_view (protected X perms r) n =
    (if n \<in> page_set X then map_option (\<lambda>(b, off, _, rights). (b, off, perms, rights)) (region_view r n)
     else region_view r n)"
proof -
  have le: "rg_first r \<le> first_page X" "end_page X \<le> rg_end r"
    using c by (simp_all add: covers_def)
  have upd: "region_view (q\<lparr>rg_perms := perms\<rparr>) n =
      map_option (\<lambda>(b, off, _, rights). (b, off, perms, rights)) (region_view q n)" for q :: "'a region"
    by (simp add: region_view_def)
  show ?thesis
    using sub_region_view [OF r, of _ _ n] le ne region_view_Some_iff [of r n]
    by (auto simp: protected_def list_view_append upd page_set_def split: option.splits)
qed

lemma index_of_cases:
  assumes "holds t rs" and "list_all region_wf rs"
  shows "(\<exists>i < length rs. rt_index_of t p = Some i \<and> unat (page_number p) \<in> page_set (rg_pages (rs ! i))) \<or>
    rt_index_of t p = None \<and> (\<forall>r \<in> set rs. unat (page_number p) \<notin> page_set (rg_pages r))"
proof -
  have get: "(case rt_get t i of Some r \<Rightarrow> page_range_contains (rg_pages r) p | None \<Rightarrow> False) \<longleftrightarrow>
      unat (page_number p) \<in> page_set (rg_pages (rs ! i))" if "i < length rs" for i
    using that holds_get [OF assms(1), of i] assms(2) page_range_contains_iff region_wfD(1)
    by (auto simp: list_all_length)
  show ?thesis
  proof (cases "rt_index_of t p")
    case None
    then show ?thesis
      using get holdsD(2) [OF assms(1)]
      by (auto simp: rt_index_of_def find_None_iff in_set_conv_nth)
  next
    case (Some i)
    then have "i < length rs"
      "case rt_get t i of Some r \<Rightarrow> page_range_contains (rg_pages r) p | None \<Rightarrow> False"
      using holdsD(2) [OF assms(1)] by (auto simp: rt_index_of_def find_Some_iff)
    with Some get show ?thesis by blast
  qed
qed

lemma protect_plan_cases:
  assumes wf: "rt_wf t" and X: "page_range_wf X" and ne: "page_set X \<noteq> {}" and map: "mappable t X"
  shows "(\<exists>i < length (rt_iter t). covers X (rt_iter t ! i) \<and>
      rt_protect_plan t X = (if rt_free_slots t + 1 < length (protected X perms (rt_iter t ! i))
        then Inl RegionQuotaExceeded
        else Inr (i, rt_iter t ! i, length (protected X perms (rt_iter t ! i)) - 1))) \<or>
    (\<forall>r \<in> set (rt_iter t). \<not> covers X r) \<and> rt_protect_plan t X = Inl RegionNotMapped"
proof -
  note W = rt_wf_holds [OF wf]
  have check: "rt_check_range t X = Inr ()"
    using check_range_cases [OF X, of t] ne map by (simp add: mappable_def)
  have first: "unat (page_number (pr_start X)) = first_page X"
    by (simp add: first_page_def)
  from index_of_cases [OF W(1,2), of "pr_start X"] show ?thesis
    unfolding first
  proof (elim disjE exE conjE)
    fix i assume i: "i < length (rt_iter t)" "rt_index_of t (pr_start X) = Some i"
      "first_page X \<in> page_set (rg_pages (rt_iter t ! i))"
    have r: "region_wf (rt_iter t ! i)" using W(2) i(1) by (simp add: list_all_length)
    have get: "rt_get t i = Some (rt_iter t ! i)"
      using holds_get [OF W(1), of i] i(1) by simp
    note num = page_range_end_number_unat [OF X] page_range_end_number_unat [OF region_wfD(1) [OF r]]
    show ?thesis
    proof (cases "rg_end (rt_iter t ! i) < end_page X")
      case True
      have "\<not> covers X q" if q: "q \<in> set (rt_iter t)" for q
      proof
        assume c: "covers X q"
        obtain j where j: "j < length (rt_iter t)" "q = rt_iter t ! j"
          using q by (auto simp: in_set_conv_nth)
        have "first_page X < end_page X" using ne by (simp add: page_set_def)
        then show False
          using W(4) c i(1,3) j True
          by (cases i j rule: linorder_cases)
            (fastforce simp: ordered_def sorted_wrt_iff_nth_less covers_def page_set_def)+
      qed
      with True show ?thesis
        by (simp add: rt_protect_plan_def check i(2) get ok_or_def try_result_def num word_less_nat_alt)
    next
      case False
      then have "covers X (rt_iter t ! i)"
        using i(3) by (simp add: covers_def page_set_def)
      with False i(1) show ?thesis
        by (intro disjI1 exI [of _ i])
          (auto simp: rt_protect_plan_def check i(2) get ok_or_def try_result_def num word_less_nat_alt
            protected_def first_page_def Let_def)
    qed
  next
    assume none: "rt_index_of t (pr_start X) = None"
      "\<forall>r \<in> set (rt_iter t). first_page X \<notin> page_set (rg_pages r)"
    moreover have "first_page X < end_page X" using ne by (simp add: page_set_def)
    ultimately have "\<forall>r \<in> set (rt_iter t). \<not> covers X r"
      by (force simp: covers_def page_set_def)
    with none(1) show ?thesis
      by (simp add: rt_protect_plan_def check ok_or_def try_result_def)
  qed
qed


definition protect_refusal ::
  "'b region_table \<Rightarrow> page_range \<Rightarrow> permissions \<Rightarrow> region_error \<Rightarrow> bool" where
  "protect_refusal t X perms e \<longleftrightarrow>
     (if page_set X = {} then e = RegionEmpty
      else if \<not> mappable t X then e = OutsideUserSpace
      else if \<forall>r \<in> set (rt_iter t). \<not> covers X r then e = RegionNotMapped
      else e = RegionQuotaExceeded \<and>
        (\<exists>r \<in> set (rt_iter t). covers X r \<and> rt_free_slots t + 1 < length (protected X perms r)))"

definition protect_effect ::
  "'b region_table \<Rightarrow> page_range \<Rightarrow> permissions \<Rightarrow> nat \<Rightarrow> 'b region_table \<Rightarrow> bool" where
  "protect_effect t X perms extra t' \<longleftrightarrow> rt_wf t' \<and> rt_len t' = rt_len t + extra \<and>
     (\<forall>n. table_view t' n = (if n \<in> page_set X
        then map_option (\<lambda>(b, off, _, rights). (b, off, perms, rights)) (table_view t n)
        else table_view t n)) \<and>
     (\<forall>n \<in> page_set X. table_view t n \<noteq> None)"

lemma protect_run:
  assumes h: "holds t (as @ r # bs)" and r: "region_wf r" and X: "page_range_wf X"
    and ne: "first_page X < end_page X" and c: "covers X r"
    and room: "length (protected X perms r) \<le> rt_free_slots t + 1"
    and plan: "rt_protect_plan t X = Inr (length as, r, extra)"
  shows "\<exists>t'. rt_protect t X perms = (Inr extra, t') \<and> holds t' (as @ protected X perms r @ bs) \<and>
    rt_kernel t' = rt_kernel t"
proof -
  have le: "rg_first r \<le> first_page X" "end_page X \<le> rg_end r"
    using c by (simp_all add: covers_def)
  have o: "page_range_overlaps (rg_pages r) X"
    using page_set_overlap [OF region_wfD(1) [OF r] X] le ne by auto
  have head: "region_head r (pr_start X) = (if rg_first r < first_page X
      then Some (sub_region r (rg_first r) (first_page X)) else None)"
    using region_head_eq [OF r, of "pr_start X"] le ne by (simp add: first_page_def)
  have tail: "region_after r X = (if end_page X < rg_end r
      then Some (sub_region r (end_page X) (rg_end r)) else None)"
    using region_after_eq [OF r X ne _ le] overlap_same_half [OF region_wfD(1) [OF r] X o] le by simp
  have mid: "region_clipped r X = Some (sub_region r (first_page X) (end_page X))"
    using region_clipped_eq [OF r X o] le by (simp add: max_def min_def)
  let ?m = "(sub_region r (first_page X) (end_page X))\<lparr>rg_perms := perms\<rparr>"
  have len: "rt_len t = Suc (length as + length bs)" "rt_len t \<le> length (rt_regions t)"
    using holdsD(1,2) [OF h] by simp_all
  note run = rt_protect_def plan Let_def head tail mid
  have set: "holds (rt_set t (length as) x) (as @ x # bs)" "rt_kernel (rt_set t i x) = rt_kernel t"
      "length (rt_regions (rt_set t i x)) = length (rt_regions t)" for x i
    using holds_set [OF h, of "length as" x] by (simp_all add: rt_set_def)
  have ins: "\<exists>t'. rt_insert_at u (length xs) x = (Inr (), t') \<and> holds t' (xs @ x # ys) \<and>
      rt_kernel t' = rt_kernel u \<and> length (rt_regions t') = length (rt_regions u)"
    if "holds u (xs @ ys)" "length (xs @ ys) < length (rt_regions u)" for u x xs ys
    using holds_insert_at [OF that(1) _ that(2), of "length xs" x] by simp
  show ?thesis
  proof (cases "rg_first r < first_page X")
    case False
    have "length (as @ ?m # bs) < length (rt_regions t)" if "end_page X < rg_end r"
      using that room len by (auto simp: protected_def rt_free_slots_def)
    with False ins [of "rt_set t (length as) ?m" "as @ [?m]" bs "sub_region r (end_page X) (rg_end r)"]
      set(1) [of ?m] set(2,3) show ?thesis
      by (auto simp: run protected_def split: if_splits)
  next
    case True
    let ?h = "sub_region r (rg_first r) (first_page X)"
    have "length (as @ ?h # bs) < length (rt_regions t)"
      using True room len by (auto simp: protected_def rt_free_slots_def)
    with ins [of "rt_set t (length as) ?h" "as @ [?h]" bs ?m] set
    obtain t1 where t1: "rt_insert_at (rt_set t (length as) ?h) (Suc (length as)) ?m = (Inr (), t1)"
        "holds t1 (as @ ?h # ?m # bs)" "rt_kernel t1 = rt_kernel t"
        "length (rt_regions t1) = length (rt_regions t)"
      by auto
    have "length (as @ ?h # ?m # bs) < length (rt_regions t)" if "end_page X < rg_end r"
      using that True room len by (auto simp: protected_def rt_free_slots_def)
    with True t1 ins [of t1 "as @ [?h, ?m]" bs "sub_region r (end_page X) (rg_end r)"] show ?thesis
      by (auto simp: run protected_def split: if_splits)
  qed
qed

lemma protect_holds:
  assumes wf: "rt_wf t" and rs: "rt_iter t = as @ r # bs" and X: "page_range_wf X"
    and ne: "first_page X < end_page X" and c: "covers X r"
    and h: "holds t' (as @ protected X perms r @ bs)" and k: "rt_kernel t' = rt_kernel t"
  shows "protect_effect t X perms (length (protected X perms r) - 1) t'"
proof -
  note W = rt_wf_holds [OF wf, unfolded rs]
  have r: "region_wf r" "in_bounds (rt_kernel t) r"
    using W(2,3) by simp_all
  note P = protected_parts [OF r(1) ne c]
  have bounds: "region_wf x \<and> in_bounds (rt_kernel t) x" if "x \<in> set (protected X perms r)" for x
    using P [OF that] r by (auto simp: in_bounds_iff)
  have "ordered (as @ protected X perms r @ bs)"
    using W(4) protected_ordered [OF r(1) ne c, of perms] P(2,3)
    by (fastforce simp: ordered_append ordered_Cons)
  then have "rt_wf t'"
    using rt_wfI [OF h] W(2,3) bounds by (auto simp: list_all_iff k)
  moreover have len: "rt_len t' = rt_len t + (length (protected X perms r) - 1)"
    using holdsD(2) [OF h] holdsD(2) [OF W(1)] by (simp add: protected_def)
  moreover have inside: "n \<in> page_set (rg_pages r)" if "n \<in> page_set X" for n
    using that c by (auto simp: covers_def page_set_def)
  have alone: "list_view as n = None \<and> list_view bs n = None" if "n \<in> page_set X" for n
    using W(4) inside [OF that] by (fastforce simp: list_view_None page_set_def ordered_append ordered_Cons)
  have "table_view t' n = (if n \<in> page_set X
      then map_option (\<lambda>(b, off, _, rights). (b, off, perms, rights)) (table_view t n)
      else table_view t n)" for n
    unfolding table_view_def holds_iter [OF h] rs list_view_append protected_view [OF r(1) ne c]
    using alone [of n] by (auto split: option.splits)
  moreover have "table_view t n \<noteq> None" if "n \<in> page_set X" for n
    using inside [OF that] region_view_None [of r n]
    by (auto simp: table_view_def rs list_view_append split: option.splits)
  ultimately show ?thesis
    by (simp add: protect_effect_def)
qed

lemma rt_protect_effect:
  assumes wf: "rt_wf t" and X: "page_range_wf X" and run: "rt_protect t X perms = (res, t')"
  shows "case res of Inl e \<Rightarrow> t' = t \<and> protect_refusal t X perms e
    | Inr extra \<Rightarrow> protect_effect t X perms extra t'"
proof (cases "page_set X \<noteq> {} \<and> mappable t X")
  case False
  then have "rt_protect t X perms =
      (Inl (if page_set X = {} then RegionEmpty else OutsideUserSpace), t)"
    using check_range_cases [OF X, of t] by (auto simp: rt_protect_def rt_protect_plan_def mappable_def)
  with run False show ?thesis
    by (auto simp: protect_refusal_def)
next
  case True
  then have ne: "page_set X \<noteq> {}" "first_page X < end_page X" and map: "mappable t X"
    by (simp_all add: page_set_def)
  note W = rt_wf_holds [OF wf]
  from protect_plan_cases [OF wf X ne(1) map, of perms] show ?thesis
  proof (elim disjE exE conjE)
    fix i assume i: "i < length (rt_iter t)" "covers X (rt_iter t ! i)"
      and plan: "rt_protect_plan t X = (if rt_free_slots t + 1 < length (protected X perms (rt_iter t ! i))
        then Inl RegionQuotaExceeded
        else Inr (i, rt_iter t ! i, length (protected X perms (rt_iter t ! i)) - 1))"
    define as r bs where "as = take i (rt_iter t)" and "r = rt_iter t ! i"
      and "bs = drop (Suc i) (rt_iter t)"
    have rs: "rt_iter t = as @ r # bs" and len: "length as = i"
      using i(1) id_take_nth_drop [OF i(1)] by (simp_all add: as_def r_def bs_def)
    have r: "region_wf r" using W(2) rs by simp
    show ?thesis
    proof (cases "rt_free_slots t + 1 < length (protected X perms r)")
      case False
      with protect_run [OF W(1) [unfolded rs] r X ne(2), of perms "length (protected X perms r) - 1"]
        i plan obtain t''
        where "rt_protect t X perms = (Inr (length (protected X perms r) - 1), t'')"
          "holds t'' (as @ protected X perms r @ bs)" "rt_kernel t'' = rt_kernel t"
        unfolding r_def [symmetric] len by auto
      with protect_holds [OF wf rs X ne(2)] i(2) run show ?thesis
        by (auto simp: r_def)
    next
      case full: True
      then have "rt_protect t X perms = (Inl RegionQuotaExceeded, t)"
        using plan by (simp add: rt_protect_def r_def)
      moreover have "r \<in> set (rt_iter t)" "covers X r"
        using i by (simp_all add: r_def)
      then have "protect_refusal t X perms RegionQuotaExceeded"
        using full True by (auto simp: protect_refusal_def)
      ultimately show ?thesis
        using run by auto
    qed
  next
    assume "\<forall>r \<in> set (rt_iter t). \<not> covers X r" "rt_protect_plan t X = Inl RegionNotMapped"
    moreover from this have "protect_refusal t X perms RegionNotMapped"
      using True by (simp add: protect_refusal_def)
    ultimately show ?thesis
      using run by (auto simp: rt_protect_def)
  qed
qed

text \<open>
  C8: \<open>RegionTable::protect\<close>, on a table that satisfies the invariant. A refusal leaves the table as
  it was: the range is empty, outside user space or not inside one region, or the table lacks the
  slots the parts need. Otherwise the invariant still holds, the pages of the range were all mapped
  and have the new permissions with the backing, the offset and the rights they had, every other page
  is as before, and the count returned is the number of regions the table has gained.
\<close>

theorem rt_protect_correct:
  assumes wf: "rt_wf t" and X: "page_range_wf X" and run: "rt_protect t X perms = (res, t')"
  shows "case res of Inl e \<Rightarrow> t' = t \<and> protect_refusal t X perms e
    | Inr extra \<Rightarrow> protect_effect t X perms extra t'"
  using assms by (rule rt_protect_effect)

theorem rt_protect_correct_witness:
  "\<exists>extra t'. rt_protect example_table example_range
      \<lparr>pm_write = False, pm_execute = False, pm_user = True\<rparr> = (Inr extra, t') \<and> rt_wf t' \<and>
     table_view t' 17 = Some (7, 0x3000, \<lparr>pm_write = False, pm_execute = False, pm_user = True\<rparr>, 1) \<and>
     table_view t' 18 = Some (7, 0x4000, \<lparr>pm_write = True, pm_execute = False, pm_user = True\<rparr>, 1)"
proof (cases "rt_protect example_table example_range
      \<lparr>pm_write = False, pm_execute = False, pm_user = True\<rparr>")
  case (Pair res t')
  note E = rt_protect_correct [OF example_table_regions(1) example_range_pages(1) Pair]
  have "r = the (hd (rt_regions example_table))" if "r \<in> set (rt_iter example_table)" for r
    using that by (simp add: rt_iter_def example_table_def map_filter_def)
  then have "\<not> protect_refusal example_table example_range perms e" for perms e
    by (auto simp: protect_refusal_def example_range_pages mappable_def protected_def)
      (auto simp: example_table_def rt_iter_def map_filter_def covers_def first_page_def
      end_page_def page_number_def PAGE_SHIFT_def drop_bit_eq_div example_range_def rt_free_slots_def)
  with E obtain extra where "res = Inr extra"
    by (cases res) auto
  with E Pair show ?thesis
    by (auto simp: protect_effect_def example_range_pages example_table_regions(2))
qed

section \<open>Sequences of requests\<close>

text \<open>The requests the kernel makes of a table, each with its effect on the table.\<close>

datatype 'b region_request =
    InsertRegion "'b region"
  | RemovePages nat page_range
  | ProtectPages page_range permissions

fun rt_step :: "'b region_table \<Rightarrow> 'b region_request \<Rightarrow> 'b region_table" where
  "rt_step t (InsertRegion r) = snd (rt_insert t r)"
| "rt_step t (RemovePages m X) = snd (rt_remove t m X)"
| "rt_step t (ProtectPages X perms) = snd (rt_protect t X perms)"

fun request_ok :: "'b region_request \<Rightarrow> bool" where
  "request_ok (InsertRegion r) = region_sound r"
| "request_ok (RemovePages m X) = (0 < m \<and> page_range_wf X)"
| "request_ok (ProtectPages X perms) = page_range_wf X"

lemma rt_wf_step:
  assumes wf: "rt_wf t" and ok: "request_ok q"
  shows "rt_wf (rt_step t q)"
proof (cases q)
  case (InsertRegion r)
  then show ?thesis
    using ok rt_insert_effect [OF wf, of r "fst (rt_insert t r)" "snd (rt_insert t r)"] wf
    by (auto simp: insert_effect_def split: sum.splits)
next
  case (RemovePages m X)
  then show ?thesis
    using ok rt_remove_effect [OF wf, of X m "fst (rt_remove t m X)" "snd (rt_remove t m X)"] wf
    by (auto split: sum.splits)
next
  case (ProtectPages X perms)
  then show ?thesis
    using ok rt_protect_effect [OF wf, of X perms "fst (rt_protect t X perms)" "snd (rt_protect t X perms)"] wf
    by (auto simp: protect_effect_def split: sum.splits)
qed

lemma rt_wf_run: "rt_wf t \<Longrightarrow> list_all request_ok qs \<Longrightarrow> rt_wf (foldl rt_step t qs)"
  by (induction qs arbitrary: t) (simp_all add: rt_wf_step)

lemma rt_wf_new: "rt_wf (region_table_new n)" "rt_wf (region_table_kernel n)"
  by (simp_all add: rt_wf_def regions_ok_def holds_def region_table_new_def region_table_kernel_def
      rt_iter_def map_filter_def)

lemma invariants_from_iff:
  assumes "list_all region_wf rs" and "\<And>q. previous = Some q \<Longrightarrow> page_range_wf q"
  shows "invariants_from k previous rs \<longleftrightarrow> list_all (in_bounds k) rs \<and> ordered rs \<and>
    (\<forall>q r. previous = Some q \<longrightarrow> r \<in> set rs \<longrightarrow> end_page q \<le> rg_first r)"
  using assms
proof (induction rs arbitrary: previous)
  case (Cons r rs)
  have r: "region_wf r" using Cons.prems by simp
  have ne: "\<not> page_range_is_empty (rg_pages r)"
    using region_wfD(2) [OF r] by (auto simp: page_range_is_empty_def first_page_def end_page_def)
  have IH: "invariants_from k (Some (rg_pages r)) rs \<longleftrightarrow> list_all (in_bounds k) rs \<and> ordered rs \<and>
      (\<forall>q \<in> set rs. rg_end r \<le> rg_first q)"
    using Cons.IH [of "Some (rg_pages r)"] Cons.prems region_wfD(1) [OF r] by auto
  have prev: "(case previous of Some q \<Rightarrow> page_number (pr_start (rg_pages r)) < page_range_end_number q
      | None \<Rightarrow> False) \<longleftrightarrow> (\<exists>q. previous = Some q \<and> rg_first r < end_page q)"
    using Cons.prems(2) page_range_end_number_unat
    by (auto simp: word_less_nat_alt first_page_def split: option.splits)
  have bounds: "in_bounds k r \<longleftrightarrow> \<not> (\<not> k \<and> (\<not> page_range_is_user (rg_pages r) \<or>
      pr_start (rg_pages r) < USER_SPACE_START))"
    by (simp add: in_bounds_def)
  have step: "invariants_from k previous (r # rs) \<longleftrightarrow> in_bounds k r \<and>
      \<not> (\<exists>q. previous = Some q \<and> rg_first r < end_page q) \<and> invariants_from k (Some (rg_pages r)) rs"
    by (simp only: invariants_from.simps ne prev bounds if_False simp_thms) simp
  show ?case
    unfolding step IH using region_wfD(2) [OF r]
    by (auto simp: ordered_Cons not_less)
qed simp

lemma check_invariants_wf: "rt_wf t \<Longrightarrow> rt_check_invariants t"
  using invariants_from_iff [of "rt_iter t" None "rt_kernel t"]
  by (simp add: rt_check_invariants_def rt_wf_def regions_ok_def)

text \<open>
  C5: A region table stays in order. From an empty table, of a user or of the kernel, any sequence of
  insertions, removals and protections, of empty ranges too, whether they succeed or are refused, leaves a
  table whose occupied slots come first, whose regions are not empty, lie in the space the table is
  for and are sorted and disjoint; the table's own \<open>check_invariants\<close> accepts it.
\<close>

theorem rt_reachable_invariants:
  assumes "list_all request_ok qs" and "t = region_table_new n \<or> t = region_table_kernel n"
  shows "rt_wf (foldl rt_step t qs) \<and> rt_check_invariants (foldl rt_step t qs)"
  using rt_wf_run [OF _ assms(1), of t] assms(2) rt_wf_new check_invariants_wf by blast

definition empty_region :: "nat region" where
  "empty_region = example_region\<lparr>rg_pages := \<lparr>pr_start = 0x20000, pr_count = 0\<rparr>\<rparr>"

lemma empty_region_sound: "region_sound empty_region"
  by (auto simp: empty_region_def example_region_def region_sound_def page_range_wf_def first_page_def end_page_def
      page_wf_iff page_is_user_iff page_number_def PAGE_SHIFT_def drop_bit_eq_div half_limit_def)

theorem rt_reachable_invariants_witness:
  "rt_check_invariants (foldl rt_step (region_table_new 4)
     [InsertRegion example_region, InsertRegion empty_region, RemovePages 2 example_range,
      ProtectPages (rg_pages example_region) \<lparr>pm_write = False, pm_execute = False, pm_user = True\<rparr>])"
  using rt_reachable_invariants [of "[InsertRegion example_region, InsertRegion empty_region, RemovePages 2 example_range,
      ProtectPages (rg_pages example_region) \<lparr>pm_write = False, pm_execute = False, pm_user = True\<rparr>]"
      "region_table_new 4" 4]
  by (simp add: example_region_pages empty_region_sound example_range_pages region_wfD)

end
