(* ===== verification/Objects.thy ===== *)
theory Objects
  imports Pool Regions
begin

text \<open>
  The kernel objects, \<open>src/crates/kernel/objects/src/object.rs\<close>, with the quotas of
  \<open>quota.rs\<close>, the pool sizes of \<open>config.rs\<close> and the heads of the two kinds of list that objects
  hold (\<open>WaitQueue\<close> of \<open>wait_queue.rs\<close>, \<open>HandleList\<close> and \<open>Link\<close> of \<open>handle_table.rs\<close>). An id of
  the source carries the type of its object in its own type; here every id is an \<open>object_id\<close>, and
  the type that \<open>AnyObjectId\<close> stores at run time is a field.

  The lemmas show that a quota never exceeds its limit and that charging and refunding cancel, that
  the thread and watcher slots of a process behave as finite sets, and that port ranges are the
  intervals they stand for.
\<close>

section \<open>Ids of any type\<close>

record any_object_id =
  ao_type :: object_type
  ao_index :: u32
  ao_generation :: u32

definition any_of :: "object_type \<Rightarrow> object_id \<Rightarrow> any_object_id" where
  "any_of ty oid = \<lparr>ao_type = ty, ao_index = oid_index oid, ao_generation = oid_generation oid\<rparr>"

definition any_typed :: "object_type \<Rightarrow> any_object_id \<Rightarrow> error + object_id" where
  "any_typed ty a =
     (if object_type_code (ao_type a) = object_type_code ty
      then Inr (ObjectId (ao_index a) (ao_generation a)) else Inl WrongObjectType)"

section \<open>Quotas\<close>

record quota_exceeded =
  qe_limit :: u32
  qe_used :: u32
  qe_requested :: u32

definition error_of_quota_exceeded :: "quota_exceeded \<Rightarrow> error" where
  "error_of_quota_exceeded _ = QuotaExceeded"

record quota =
  qt_limit :: u32
  qt_used :: u32

definition quota_new :: "u32 \<Rightarrow> quota" where
  "quota_new limit = \<lparr>qt_limit = limit, qt_used = 0\<rparr>"

definition quota_remaining :: "quota \<Rightarrow> u32" where
  "quota_remaining q = saturating_sub (qt_limit q) (qt_used q)"

definition quota_is_empty :: "quota \<Rightarrow> bool" where
  "quota_is_empty q = (qt_used q = 0)"

definition quota_charge :: "quota \<Rightarrow> u32 \<Rightarrow> (quota_exceeded + unit) \<times> quota" where
  "quota_charge q amount =
     (let exceeded = \<lparr>qe_limit = qt_limit q, qe_used = qt_used q, qe_requested = amount\<rparr>
      in case checked_add (qt_used q) amount of
           Some used \<Rightarrow>
             if used \<le> qt_limit q then (Inr (), q\<lparr>qt_used := used\<rparr>) else (Inl exceeded, q)
         | None \<Rightarrow> (Inl exceeded, q))"

definition quota_refund :: "quota \<Rightarrow> u32 \<Rightarrow> quota" where
  "quota_refund q amount = q\<lparr>qt_used := saturating_sub (qt_used q) amount\<rparr>"

section \<open>Links and list heads\<close>

datatype link = Link (link_raw: u32)

definition link_NONE :: link where "link_NONE = Link 0"

definition link_to :: "u32 \<Rightarrow> link" where
  "link_to index = (case checked_add index 1 of Some raw \<Rightarrow> Link raw | None \<Rightarrow> link_NONE)"

definition link_index :: "link \<Rightarrow> u32 option" where
  "link_index l = checked_sub (link_raw l) 1"

definition link_is_none :: "link \<Rightarrow> bool" where
  "link_is_none l = (link_raw l = 0)"

record handle_list =
  hl_head :: link
  hl_count :: u32
  hl_capacity :: u32

definition handle_list_with_capacity :: "u32 \<Rightarrow> handle_list" where
  "handle_list_with_capacity capacity = \<lparr>hl_head = link_NONE, hl_count = 0, hl_capacity = capacity\<rparr>"

definition handle_list_is_empty :: "handle_list \<Rightarrow> bool" where
  "handle_list_is_empty l = (hl_count l = 0)"

definition handle_list_free_slots :: "handle_list \<Rightarrow> u32" where
  "handle_list_free_slots l = saturating_sub (hl_capacity l) (hl_count l)"

record wait_queue =
  wq_head :: "object_id option"
  wq_tail :: "object_id option"
  wq_len :: u32

definition wait_queue_EMPTY :: wait_queue where
  "wait_queue_EMPTY = \<lparr>wq_head = None, wq_tail = None, wq_len = 0\<rparr>"

definition wq_is_empty :: "wait_queue \<Rightarrow> bool" where
  "wq_is_empty q = (wq_head q = None)"

record links =
  ln_next :: "object_id option"
  ln_previous :: "object_id option"

definition links_UNLINKED :: links where
  "links_UNLINKED = \<lparr>ln_next = None, ln_previous = None\<rparr>"

definition is_unlinked :: "links \<Rightarrow> bool" where
  "is_unlinked l = (ln_next l = None \<and> ln_previous l = None)"

section \<open>Memory objects\<close>

datatype memory_kind = Ram | Device

record memory_object =
  mo_frames :: frame_range
  mo_kind :: memory_kind
  mo_cache :: cache_policy

definition memory_object_new :: "frame_range \<Rightarrow> memory_kind \<Rightarrow> cache_policy \<Rightarrow> memory_object" where
  "memory_object_new frames kind cache = \<lparr>mo_frames = frames, mo_kind = kind, mo_cache = cache\<rparr>"

definition memory_object_frame_count :: "memory_object \<Rightarrow> u64" where
  "memory_object_frame_count m = fr_count (mo_frames m)"

section \<open>Processes\<close>

record watch =
  wt_notification :: object_id
  wt_bit :: u8

record process =
  pc_root :: phys_frame
  pc_regions :: "object_id region_table"
  pc_handles :: handle_list
  pc_threads :: "object_id option list"
  pc_quota :: quota
  pc_kernel_object_quota :: quota
  pc_fault_handler :: "(object_id \<times> u64) option"
  pc_creator :: "object_id option"
  pc_watchers :: "watch option list"
  pc_ended :: bool

definition process_new :: "phys_frame \<Rightarrow> handle_list \<Rightarrow> quota \<Rightarrow> quota \<Rightarrow> process" where
  "process_new root handles quota kernel_object_quota =
     \<lparr>pc_root = root, pc_regions = region_table_new REGIONS_PER_PROCESS, pc_handles = handles,
      pc_threads = replicate THREADS_PER_PROCESS None, pc_quota = quota,
      pc_kernel_object_quota = kernel_object_quota, pc_fault_handler = None, pc_creator = None,
      pc_watchers = replicate WATCHERS_PER_PROCESS None, pc_ended = False\<rparr>"

text \<open>The position of the first element that satisfies a condition, as \<open>iter_mut().find\<close> finds it.\<close>

definition first_index :: "('a \<Rightarrow> bool) \<Rightarrow> 'a list \<Rightarrow> nat option" where
  "first_index P xs = find (\<lambda>i. P (xs ! i)) [0..<length xs]"

definition process_watchers :: "process \<Rightarrow> watch list" where
  "process_watchers p = List.map_filter (\<lambda>x. x) (pc_watchers p)"

definition process_add_watcher :: "process \<Rightarrow> watch \<Rightarrow> (error + unit) \<times> process" where
  "process_add_watcher p watch =
     (if watch \<in> set (process_watchers p) then (Inl AlreadyExists, p)
      else case first_index (\<lambda>slot. slot = None) (pc_watchers p) of
             None \<Rightarrow> (Inl QuotaExceeded, p)
           | Some i \<Rightarrow> (Inr (), p\<lparr>pc_watchers := (pc_watchers p)[i := Some watch]\<rparr>))"

definition process_remove_watcher :: "process \<Rightarrow> watch \<Rightarrow> process" where
  "process_remove_watcher p watch =
     p\<lparr>pc_watchers := map (\<lambda>slot. if slot = Some watch then None else slot) (pc_watchers p)\<rparr>"

definition process_mark_ended :: "process \<Rightarrow> process" where
  "process_mark_ended p = p\<lparr>pc_ended := True\<rparr>"

definition process_add_thread :: "process \<Rightarrow> object_id \<Rightarrow> (error + nat) \<times> process" where
  "process_add_thread p thread =
     (case first_index (\<lambda>slot. slot = None) (pc_threads p) of
        None \<Rightarrow> (Inl QuotaExceeded, p)
      | Some i \<Rightarrow> (Inr i, p\<lparr>pc_threads := (pc_threads p)[i := Some thread]\<rparr>))"

definition process_remove_thread :: "process \<Rightarrow> object_id \<Rightarrow> bool \<times> process" where
  "process_remove_thread p thread =
     (case first_index (\<lambda>slot. slot = Some thread) (pc_threads p) of
        None \<Rightarrow> (False, p)
      | Some i \<Rightarrow> (True, p\<lparr>pc_threads := (pc_threads p)[i := None]\<rparr>))"

definition process_threads :: "process \<Rightarrow> object_id list" where
  "process_threads p = List.map_filter (\<lambda>x. x) (pc_threads p)"

definition process_thread_count :: "process \<Rightarrow> nat" where
  "process_thread_count p = length (process_threads p)"

definition process_has_region_room :: "process \<Rightarrow> nat \<Rightarrow> bool" where
  "process_has_region_room p count = (count \<le> rt_free_slots (pc_regions p))"

section \<open>Threads\<close>

datatype queue = Senders | Callers | Receivers

definition is_sender :: "queue \<Rightarrow> bool" where
  "is_sender q = (q = Senders \<or> q = Callers)"

definition wants_reply :: "queue \<Rightarrow> bool" where
  "wants_reply q = (q = Callers)"

datatype wait =
    WaitNothing
  | WaitEndpoint (wait_endpoint: object_id) (wait_queue: queue) (wait_badge: u64)
      (wait_kernel_message: bool)
  | WaitReply (wait_reply: object_id)
  | WaitNotification (wait_notification: object_id)

definition wait_is_nothing :: "wait \<Rightarrow> bool" where
  "wait_is_nothing w = (w = WaitNothing)"

record thread =
  th_cpu :: u8
  th_process :: object_id
  th_state :: thread_state
  th_priority :: u8
  th_max_priority :: u8
  th_time_slice :: u32
  th_kernel_stack :: u32
  th_ipc_buffer :: phys_frame
  th_buffer_object :: "object_id option"
  th_ipc_address :: virt_addr
  th_entry :: virt_addr
  th_user_stack :: virt_addr
  th_context :: virt_addr
  th_queue_links :: links
  th_wait_links :: links
  th_wait :: wait
  th_deadline :: "u64 option"
  th_deadline_index :: "nat option"
  th_fault :: "fault option"

definition thread_new ::
  "object_id \<Rightarrow> u8 \<Rightarrow> u8 \<Rightarrow> u32 \<Rightarrow> phys_frame \<Rightarrow> error + thread" where
  "thread_new process priority max_priority kernel_stack ipc_buffer =
     (if PRIORITY_COUNT \<le> max_priority \<or> max_priority < priority then Inl InvalidArgument
      else Inr \<lparr>th_cpu = 0, th_process = process, th_state = Inactive, th_priority = priority,
        th_max_priority = max_priority, th_time_slice = 0, th_kernel_stack = kernel_stack,
        th_ipc_buffer = ipc_buffer, th_buffer_object = None, th_ipc_address = 0, th_entry = 0,
        th_user_stack = 0, th_context = 0, th_queue_links = links_UNLINKED,
        th_wait_links = links_UNLINKED, th_wait = WaitNothing, th_deadline = None,
        th_deadline_index = None, th_fault = None\<rparr>)"

definition thread_on_processor :: "thread \<Rightarrow> u8 \<Rightarrow> thread" where
  "thread_on_processor t cpu = t\<lparr>th_cpu := cpu\<rparr>"

definition thread_with_buffer_object :: "thread \<Rightarrow> object_id \<Rightarrow> thread" where
  "thread_with_buffer_object t object = t\<lparr>th_buffer_object := Some object\<rparr>"

definition thread_starting_at :: "thread \<Rightarrow> virt_addr \<Rightarrow> virt_addr \<Rightarrow> virt_addr \<Rightarrow> thread" where
  "thread_starting_at t entry user_stack ipc_address =
     t\<lparr>th_ipc_address := ipc_address, th_entry := entry, th_user_stack := user_stack\<rparr>"

definition thread_is_runnable :: "thread \<Rightarrow> bool" where
  "thread_is_runnable t = is_runnable (th_state t)"

section \<open>Endpoints, replies and notifications\<close>

record endpoint =
  ep_senders :: wait_queue
  ep_receivers :: wait_queue

definition endpoint_EMPTY :: endpoint where
  "endpoint_EMPTY = \<lparr>ep_senders = wait_queue_EMPTY, ep_receivers = wait_queue_EMPTY\<rparr>"

definition endpoint_is_quiet :: "endpoint \<Rightarrow> bool" where
  "endpoint_is_quiet e = (wq_is_empty (ep_senders e) \<and> wq_is_empty (ep_receivers e))"

record reply =
  rp_caller :: object_id
  rp_consumed :: bool

definition reply_new :: "object_id \<Rightarrow> reply" where
  "reply_new caller = \<lparr>rp_caller = caller, rp_consumed = False\<rparr>"

record notification =
  nt_word :: u64
  nt_waiter :: "object_id option"

definition notification_EMPTY :: notification where
  "notification_EMPTY = \<lparr>nt_word = 0, nt_waiter = None\<rparr>"

definition notification_consume :: "notification \<Rightarrow> u64 \<times> notification" where
  "notification_consume n = (nt_word n, n\<lparr>nt_word := 0\<rparr>)"

section \<open>Interrupts and ports\<close>

record interrupt =
  ir_line :: "u8 option"
  ir_vector :: u8
  ir_notification :: "(object_id \<times> u8) option"
  ir_masked :: bool

definition interrupt_new :: "u8 \<Rightarrow> u8 \<Rightarrow> interrupt" where
  "interrupt_new line vector =
     \<lparr>ir_line = Some line, ir_vector = vector, ir_notification = None, ir_masked = False\<rparr>"

definition interrupt_message :: "u8 \<Rightarrow> interrupt" where
  "interrupt_message vector =
     \<lparr>ir_line = None, ir_vector = vector, ir_notification = None, ir_masked = False\<rparr>"

record io_port_range =
  io_first :: u16
  io_count :: u16

definition io_port_range_new :: "u16 \<Rightarrow> u16 \<Rightarrow> error + io_port_range" where
  "io_port_range_new first count =
     (if count = 0 then Inl InvalidArgument
      else case checked_add first (count - 1) of
             Some _ \<Rightarrow> Inr \<lparr>io_first = first, io_count = count\<rparr>
           | None \<Rightarrow> Inl InvalidArgument)"

definition io_last :: "io_port_range \<Rightarrow> u16" where
  "io_last r = io_first r + (io_count r - 1)"

definition io_contains :: "io_port_range \<Rightarrow> u16 \<Rightarrow> bool" where
  "io_contains r port = (io_first r \<le> port \<and> port \<le> io_last r)"

definition io_holds :: "io_port_range \<Rightarrow> u16 \<Rightarrow> u8 \<Rightarrow> bool" where
  "io_holds r port width =
     (if \<not> io_contains r port then False
      else case checked_add port (ucast (width - 1)) of
             Some stop \<Rightarrow> stop \<le> io_last r
           | None \<Rightarrow> False)"

definition io_overlaps :: "io_port_range \<Rightarrow> io_port_range \<Rightarrow> bool" where
  "io_overlaps r q = (io_first r \<le> io_last q \<and> io_first q \<le> io_last r)"

definition system_control_ID :: object_id where
  "system_control_ID = ObjectId 0 1"

section \<open>Pool sizes\<close>

definition PROCESSES :: nat where "PROCESSES = 64"

definition THREADS :: nat where "THREADS = 256"

definition MEMORY_OBJECTS :: nat where "MEMORY_OBJECTS = 4096"

definition ENDPOINTS :: nat where "ENDPOINTS = 1024"

definition NOTIFICATIONS :: nat where "NOTIFICATIONS = 1024"

definition REPLIES :: nat where "REPLIES = 1024"

definition INTERRUPTS :: nat where "INTERRUPTS = 64"

definition IO_PORT_RANGES :: nat where "IO_PORT_RANGES = 64"

definition HANDLE_ENTRIES :: nat where "HANDLE_ENTRIES = 16384"

definition CPUS :: nat where "CPUS = 16"

section \<open>Lemmas\<close>

subsection \<open>Ids and links\<close>

lemma object_type_code_inject [simp]: "object_type_code a = object_type_code b \<longleftrightarrow> a = b"
  by (metis object_type_from_code_code option.inject)

lemma any_typed_of [simp]: "any_typed ty (any_of ty oid) = Inr oid"
  by (cases oid) (simp add: any_typed_def any_of_def)

lemma any_typed_eq_Inr: "any_typed ty a = Inr oid \<longleftrightarrow> a = any_of ty oid"
  by (cases oid; cases a) (auto simp: any_typed_def any_of_def)

lemma any_of_inject [simp]: "any_of a x = any_of b y \<longleftrightarrow> a = b \<and> x = y"
  by (cases x; cases y) (auto simp: any_of_def)

lemma link_none [simp]: "link_index link_NONE = None" "link_is_none link_NONE"
  by (simp_all add: link_index_def link_NONE_def link_is_none_def checked_sub_def)

lemma link_index_None: "link_index l = None \<longleftrightarrow> link_is_none l"
  by (cases l) (auto simp: link_index_def link_is_none_def checked_sub_def word_le_nat_alt
      unat_eq_zero Suc_le_eq not_less)

lemma link_is_none_iff: "link_is_none l \<longleftrightarrow> l = link_NONE"
  by (cases l) (simp add: link_is_none_def link_NONE_def)

lemma link_index_to [simp]:
  assumes "i \<noteq> - 1"
  shows "link_index (link_to i) = Some i" "link_is_none (link_to i) \<longleftrightarrow> False"
proof -
  have "unat i \<noteq> unat (- 1 :: u32)"
    using assms unat_inject by metis
  then have "unat i + 1 < 2 ^ 32"
    using unat_less_size [of i] by (simp add: unsigned_minus_1_eq_mask mask_eq_exp_minus_1)
  then have i: "unat (i + 1) = unat i + 1"
    by (simp add: unat_add_fits)
  with \<open>unat i + 1 < 2 ^ 32\<close> show "link_index (link_to i) = Some i"
    by (simp add: link_to_def link_index_def checked_add_def checked_sub_def word_le_nat_alt)
  then show "link_is_none (link_to i) \<longleftrightarrow> False"
    using link_index_None [of "link_to i"] by simp
qed

lemma link_to_index: "link_index l = Some i \<Longrightarrow> l = link_to i \<and> i \<noteq> - 1"
proof -
  assume a: "link_index l = Some i"
  then have l: "1 \<le> link_raw l" "i = link_raw l - 1"
    by (auto simp: link_index_def checked_sub_def split: if_splits)
  then have "unat i + 1 = unat (link_raw l)"
    by (simp add: unat_sub_fits word_le_nat_alt)
  then have "unat i + 1 < 2 ^ 32"
    using unat_less_size [of "link_raw l"] by simp
  then show ?thesis
    using l by (cases l) (auto simp: link_to_def checked_add_def unsigned_minus_1_eq_mask mask_eq_exp_minus_1)
qed

subsection \<open>Quotas\<close>

text \<open>
  C21: Quotas. A charge succeeds exactly when what is in use and the amount together stay within the
  limit, computed without wrap-around; it then adds the amount and a refund of the same amount takes
  it back. A refused charge reports the numbers it was refused with and changes nothing, and the use
  never exceeds the limit, whatever is charged or refunded.
\<close>

theorem quota_accounting:
  assumes "qt_used q \<le> qt_limit q" and "quota_charge q amount = (r, q')"
  shows "(r = Inr () \<longleftrightarrow> unat (qt_used q) + unat amount \<le> unat (qt_limit q)) \<and>
    (r = Inr () \<longrightarrow> unat (qt_used q') = unat (qt_used q) + unat amount \<and>
       unat (quota_remaining q') = unat (quota_remaining q) - unat amount \<and>
       quota_refund q' amount = q) \<and>
    (r \<noteq> Inr () \<longrightarrow> q' = q \<and> r = Inl \<lparr>qe_limit = qt_limit q, qe_used = qt_used q,
       qe_requested = amount\<rparr>) \<and>
    qt_used q' \<le> qt_limit q' \<and> qt_used (quota_refund q' n) \<le> qt_limit (quota_refund q' n)"
proof -
  have sub: "qt_used (quota_refund x n) \<le> qt_used x" "qt_limit (quota_refund x n) = qt_limit x" for x
    by (simp_all add: quota_refund_def word_le_nat_alt)
  show ?thesis
  proof (cases "unat (qt_used q) + unat amount \<le> unat (qt_limit q)")
    case True
    then have fits: "unat (qt_used q) + unat amount < 2 ^ 32"
      using unat_less_size [of "qt_limit q"] by simp
    then have "(r, q') = (Inr (), q\<lparr>qt_used := qt_used q + amount\<rparr>)"
      using True assms(2) by (simp add: quota_charge_def checked_add_def Let_def word_le_nat_alt unat_add_fits)
    moreover have "saturating_sub (qt_used q + amount) amount = qt_used q"
      using fits by (intro unat_inject [THEN iffD1]) (simp add: unat_add_fits)
    ultimately show ?thesis
      using True fits assms(1) sub [of q']
      by (auto simp: unat_add_fits quota_remaining_def quota_refund_def word_le_nat_alt)
  next
    case False
    then have "(r, q') = (Inl \<lparr>qe_limit = qt_limit q, qe_used = qt_used q, qe_requested = amount\<rparr>, q)"
      using assms(2) by (auto simp: quota_charge_def checked_add_def Let_def word_le_nat_alt unat_add_fits
          split: if_splits)
    with False assms(1) sub [of q'] show ?thesis
      by auto
  qed
qed

theorem quota_accounting_witness:
  "quota_refund (snd (quota_charge \<lparr>qt_limit = 10, qt_used = 4\<rparr> 6)) 6 = \<lparr>qt_limit = 10, qt_used = 4\<rparr> \<and>
   fst (quota_charge \<lparr>qt_limit = 10, qt_used = 4\<rparr> 6) = Inr ()"
  using quota_accounting [of "\<lparr>qt_limit = 10, qt_used = 4\<rparr>" 6
      "fst (quota_charge \<lparr>qt_limit = 10, qt_used = 4\<rparr> 6)" "snd (quota_charge \<lparr>qt_limit = 10, qt_used = 4\<rparr> 6)"]
  by simp

subsection \<open>Slots of a process\<close>

lemma first_index_None: "first_index P xs = None \<longleftrightarrow> (\<forall>x \<in> set xs. \<not> P x)"
  by (auto simp: first_index_def find_None_iff in_set_conv_nth dest: nth_mem)

lemma first_index_Some:
  assumes "first_index P xs = Some i"
  shows "i < length xs" "P (xs ! i)" "j < i \<Longrightarrow> \<not> P (xs ! j)"
proof -
  obtain k where k: "k < length xs" "P (xs ! k)" "i = k" "\<forall>j < k. \<not> P (xs ! j)"
    using assms by (auto simp: first_index_def find_Some_iff)
  then show "i < length xs" "P (xs ! i)" "j < i \<Longrightarrow> \<not> P (xs ! j)"
    by simp_all
qed

lemma set_present: "set (List.map_filter (\<lambda>x. x) xs) = {y. Some y \<in> set xs}"
  by (auto simp: map_filter_def) force

lemma length_present: "length (List.map_filter (\<lambda>x. x) xs) = length (filter (\<lambda>x. x \<noteq> None) xs)"
  by (simp add: map_filter_def)

lemma present_fill:
  assumes "i < length xs" and "xs ! i = None"
  shows "\<exists>as bs. List.map_filter (\<lambda>x. x) xs = as @ bs \<and>
    List.map_filter (\<lambda>x. x) (xs[i := Some t]) = as @ t # bs"
proof -
  let ?p = "List.map_filter (\<lambda>x. x :: 'a option)"
  have app: "?p (us @ vs) = ?p us @ ?p vs" for us vs
    by (simp add: map_filter_def)
  have "?p xs = ?p (take i xs) @ ?p (drop (Suc i) xs)"
    by (subst id_take_nth_drop [OF assms(1)]) (simp add: app assms(2) map_filter_simps)
  moreover have "?p (xs[i := Some t]) = ?p (take i xs) @ t # ?p (drop (Suc i) xs)"
    by (simp add: upd_conv_take_nth_drop [OF assms(1)] app map_filter_simps)
  ultimately show ?thesis by blast
qed

text \<open>
  C22: The thread slots of a process. Adding a thread takes the first free slot, returns its index and
  adds exactly that thread, and is refused exactly when all slots are taken; removing a thread frees
  its slot and reports whether it was there. The number of threads follows.
\<close>

theorem process_thread_slots:
  assumes "distinct (process_threads p)" and "t \<notin> set (process_threads p)"
    and "length (pc_threads p) = THREADS_PER_PROCESS"
    and "process_add_thread p t = (r, p')" and "process_remove_thread p' t = (b, p'')"
  shows "case r of
      Inl e \<Rightarrow> e = QuotaExceeded \<and> p' = p \<and> process_thread_count p = THREADS_PER_PROCESS \<and> \<not> b
    | Inr i \<Rightarrow> i < THREADS_PER_PROCESS \<and> pc_threads p ! i = None \<and>
        (\<forall>j < i. pc_threads p ! j \<noteq> None) \<and> pc_threads p' ! i = Some t \<and>
        set (process_threads p') = insert t (set (process_threads p)) \<and>
        process_thread_count p' = process_thread_count p + 1 \<and> b \<and> p'' = p"
proof (cases "first_index (\<lambda>slot. slot = None) (pc_threads p)")
  case None
  then have "\<forall>slot \<in> set (pc_threads p). slot \<noteq> None"
    by (simp add: first_index_None)
  then have "process_thread_count p = THREADS_PER_PROCESS"
    using assms(3) by (simp add: process_thread_count_def process_threads_def length_present)
  moreover have "first_index (\<lambda>slot. slot = Some t) (pc_threads p) = None"
    using assms(2) by (auto simp: first_index_None process_threads_def set_present)
  ultimately show ?thesis
    using None assms(4,5) by (auto simp: process_add_thread_def process_remove_thread_def)
next
  case (Some i)
  note i = first_index_Some [OF Some]
  define ts where "ts = (pc_threads p)[i := Some t]"
  have p': "r = Inr i" "p' = p\<lparr>pc_threads := ts\<rparr>"
    using assms(4) Some by (simp_all add: process_add_thread_def ts_def)
  have none: "Some t \<notin> set (pc_threads p)"
    using assms(2) by (simp add: process_threads_def set_present)
  have "first_index (\<lambda>slot. slot = Some t) ts = Some i"
  proof (cases "first_index (\<lambda>slot. slot = Some t) ts")
    case None
    then show ?thesis
      using i(1) by (auto simp: first_index_None ts_def set_update_memI)
  next
    case (Some j)
    have "j = i"
    proof (rule ccontr)
      assume "j \<noteq> i"
      then have "pc_threads p ! j = Some t" "j < length (pc_threads p)"
        using first_index_Some(1,2) [OF Some] by (simp_all add: ts_def)
      with none show False by (metis nth_mem)
    qed
    with Some show ?thesis by simp
  qed
  moreover have "(pc_threads p)[i := None] = pc_threads p"
    using i(2) by (metis list_update_id)
  ultimately have "b" "p'' = p"
    using assms(5) by (simp_all add: p' process_remove_thread_def ts_def)
  moreover obtain as bs where "process_threads p = as @ bs" "process_threads p' = as @ t # bs"
    using present_fill [OF i(1,2), of t] by (auto simp: process_threads_def p' ts_def)
  ultimately show ?thesis
    using i assms(3) by (auto simp: p'(1) process_thread_count_def) (auto simp: p'(2) ts_def)
qed

theorem process_thread_slots_witness:
  "set (process_threads (snd (process_add_thread
     (process_new 0 (handle_list_with_capacity 1) (quota_new 1) (quota_new 1)) (ObjectId 3 1)))) =
   {ObjectId 3 1}"
proof -
  let ?p = "process_new 0 (handle_list_with_capacity 1) (quota_new 1) (quota_new 1)"
  have p: "process_threads ?p = []" "length (pc_threads ?p) = THREADS_PER_PROCESS"
      "process_thread_count ?p = 0"
    by (simp_all add: process_threads_def process_new_def map_filter_def process_thread_count_def)
  obtain r p' b p'' where run: "process_add_thread ?p (ObjectId 3 1) = (r, p')"
      "process_remove_thread p' (ObjectId 3 1) = (b, p'')"
    by (metis surj_pair)
  have "distinct (process_threads ?p)" "ObjectId 3 1 \<notin> set (process_threads ?p)"
    by (simp_all add: p(1))
  from process_thread_slots [OF this p(2) run] p show ?thesis
    by (cases r) (simp_all add: THREADS_PER_PROCESS_def run(1))
qed

text \<open>The ports of a range.\<close>

definition io_wf :: "io_port_range \<Rightarrow> bool" where
  "io_wf r \<longleftrightarrow> io_count r \<noteq> 0 \<and> unat (io_first r) + unat (io_count r) \<le> 2 ^ 16"

definition io_ports :: "io_port_range \<Rightarrow> nat set" where
  "io_ports r = {unat (io_first r) ..< unat (io_first r) + unat (io_count r)}"

lemma io_new_wf: "io_port_range_new first count = Inr r \<longleftrightarrow>
    r = \<lparr>io_first = first, io_count = count\<rparr> \<and> io_wf r"
proof -
  have "unat (count - 1) = unat count - 1 \<and> 0 < unat count" if "count \<noteq> 0"
    using that unat_sub_fits [of 1 count] by (simp add: word_le_nat_alt Suc_le_eq unat_gt_0)
  then show ?thesis
    by (cases "count = 0") (auto simp: io_port_range_new_def io_wf_def checked_add_def)
qed

text \<open>
  C23: Port ranges. A range that the constructor accepts is an interval of ports that does not wrap,
  and it accepts every such interval; \<open>contains\<close>, \<open>overlaps\<close> and, for the access of at least one
  byte, \<open>holds\<close> are membership, intersection and inclusion of these intervals.
\<close>

theorem io_port_ranges_correct:
  assumes "io_port_range_new first count = Inr r" and "io_port_range_new first' count' = Inr q"
    and "width \<noteq> 0"
  shows "io_ports r = {unat first ..< unat first + unat count} \<and> io_ports r \<noteq> {} \<and>
    (io_contains r port \<longleftrightarrow> unat port \<in> io_ports r) \<and>
    (io_overlaps r q \<longleftrightarrow> io_ports r \<inter> io_ports q \<noteq> {}) \<and>
    (io_holds r port width \<longleftrightarrow> {unat port ..< unat port + unat width} \<subseteq> io_ports r)"
proof -
  have r: "r = \<lparr>io_first = first, io_count = count\<rparr>" "io_wf r" and q: "io_wf q"
    using assms(1,2) unfolding io_new_wf by blast+
  have stop: "unat (io_last x) + 1 = unat (io_first x) + unat (io_count x)" if "io_wf x" for x
  proof -
    have c: "0 < unat (io_count x)" "unat (io_first x) + unat (io_count x) \<le> 2 ^ 16"
      using that by (simp_all add: io_wf_def unat_gt_0)
    then have "unat (io_count x - 1) = unat (io_count x) - 1"
      using unat_sub_fits [of 1 "io_count x"] by (simp add: word_le_nat_alt Suc_le_eq)
    with c show ?thesis
      by (simp add: io_last_def unat_add_fits)
  qed
  have contains: "io_contains r p \<longleftrightarrow> unat p \<in> io_ports r" for p
    using stop [OF r(2)] by (auto simp: io_contains_def io_ports_def word_le_nat_alt)
  have width: "unat (ucast (width - 1) :: u16) = unat width - 1" "0 < unat width" "unat width < 2 ^ 8"
    using assms(3) unat_sub_fits [of 1 width] unat_less_size [of width] unat_less_size [of "width - 1"]
    by (simp_all add: word_le_nat_alt Suc_le_eq unat_gt_0 unsigned_ucast_eq take_bit_nat_eq_self)
  have "io_holds r port width \<longleftrightarrow> {unat port ..< unat port + unat width} \<subseteq> io_ports r"
  proof (cases "unat port \<in> io_ports r")
    case True
    then show ?thesis
      using stop [OF r(2)] width unat_less_size [of "io_last r"]
      by (auto simp: io_holds_def contains checked_add_def word_le_nat_alt unat_add_fits io_ports_def)
  next
    case False
    have "unat port \<in> {unat port ..< unat port + unat width}"
      using width(2) by simp
    with False have "\<not> {unat port ..< unat port + unat width} \<subseteq> io_ports r"
      by blast
    with False show ?thesis
      by (simp add: io_holds_def contains)
  qed
  moreover have "io_overlaps r q \<longleftrightarrow> io_ports r \<inter> io_ports q \<noteq> {}"
    using stop [OF r(2)] stop [OF q] r(2) q
    by (auto simp: io_overlaps_def io_ports_def io_wf_def word_le_nat_alt unat_eq_zero)
  moreover have "io_ports r \<noteq> {}"
    using r(2) by (simp add: io_ports_def io_wf_def unat_gt_0)
  ultimately show ?thesis
    using contains r(1) by (simp add: io_ports_def)
qed

theorem io_port_ranges_correct_witness:
  "\<not> io_overlaps \<lparr>io_first = 0x60, io_count = 5\<rparr> \<lparr>io_first = 0x65, io_count = 1\<rparr> \<and>
   io_holds \<lparr>io_first = 0x60, io_count = 5\<rparr> 0x61 4 \<and>
   \<not> io_holds \<lparr>io_first = 0x60, io_count = 5\<rparr> 0x62 4"
proof -
  have "io_port_range_new 0x60 5 = Inr \<lparr>io_first = 0x60, io_count = 5\<rparr>"
    "io_port_range_new 0x65 1 = Inr \<lparr>io_first = 0x65, io_count = 1\<rparr>"
    by (simp_all add: io_new_wf io_wf_def)
  from io_port_ranges_correct [OF this, of 4 "0x61"] io_port_ranges_correct [OF this, of 4 "0x62"]
  show ?thesis
    by (auto simp: io_ports_def)
qed

end
