(* ===== verification/WaitQueue.thy ===== *)
theory WaitQueue
  imports Chains Objects
begin

text \<open>
  Wait queues, \<open>src/crates/kernel/objects/src/wait_queue.rs\<close>: the threads that wait on one side of an
  endpoint, in order of priority and of arrival. A queue is a head, a tail and a count; its list is
  threaded through the \<open>wait_links\<close> of the threads, which live in the thread pool, so every operation
  takes the queue and the pool and returns both.

  \<open>thread_links\<close> is the contract of a pair of links that a thread carries. It gives the contract of a
  store with links of the theory \<open>Chains\<close> for the thread pool; the wait links here and the run queue
  links of the scheduler are its two instances. \<open>wq_holds\<close> relates a queue to the list of threads in
  it, and the lemmas show that each operation is the list operation its name says: insertion behind
  the threads of the same or of higher priority, insertion in front of the threads of the same
  priority, taking the first one and taking out any one.
\<close>

section \<open>Operations\<close>

definition set_wait_links :: "links \<Rightarrow> thread \<Rightarrow> thread" where
  "set_wait_links l t = t\<lparr>th_wait_links := l\<rparr>"

definition set_wait_next :: "object_id option \<Rightarrow> thread \<Rightarrow> thread" where
  "set_wait_next n t = t\<lparr>th_wait_links := (th_wait_links t)\<lparr>ln_next := n\<rparr>\<rparr>"

definition set_wait_previous :: "object_id option \<Rightarrow> thread \<Rightarrow> thread" where
  "set_wait_previous n t = t\<lparr>th_wait_links := (th_wait_links t)\<lparr>ln_previous := n\<rparr>\<rparr>"

definition waiting_next :: "thread pool \<Rightarrow> object_id \<Rightarrow> object_id option" where
  "waiting_next threads oid = Option.bind (ok (pool_get threads oid)) (\<lambda>t. ln_next (th_wait_links t))"

definition wq_iter :: "wait_queue \<Rightarrow> thread pool \<Rightarrow> object_id list" where
  "wq_iter q threads = walk (waiting_next threads) (unat (wq_len q)) (wq_head q)"

definition wq_find_by_priority ::
  "wait_queue \<Rightarrow> thread pool \<Rightarrow> (u8 \<Rightarrow> bool) \<Rightarrow> object_id option" where
  "wq_find_by_priority q threads wanted =
     find (\<lambda>oid. case pool_get threads oid of Inr t \<Rightarrow> wanted (th_priority t) | Inl _ \<Rightarrow> False)
       (wq_iter q threads)"

definition wq_first_below :: "wait_queue \<Rightarrow> thread pool \<Rightarrow> u8 \<Rightarrow> object_id option" where
  "wq_first_below q threads priority = wq_find_by_priority q threads (\<lambda>waiting. waiting < priority)"

definition wq_first_at_or_below :: "wait_queue \<Rightarrow> thread pool \<Rightarrow> u8 \<Rightarrow> object_id option" where
  "wq_first_at_or_below q threads priority =
     wq_find_by_priority q threads (\<lambda>waiting. waiting \<le> priority)"

definition wq_append ::
  "wait_queue \<Rightarrow> thread pool \<Rightarrow> object_id \<Rightarrow> (error + unit) \<times> wait_queue \<times> thread pool" where
  "wq_append q threads oid =
     (let tail = wq_tail q
      in case pool_get_mut threads oid (set_wait_links \<lparr>ln_next = None, ln_previous = tail\<rparr>) of
           (Inl _, threads) \<Rightarrow> (Inl InvalidHandle, q, threads)
         | (Inr _, threads) \<Rightarrow>
             (case tail of
                Some previous \<Rightarrow>
                  (case pool_get_mut threads previous (set_wait_next (Some oid)) of
                     (Inl _, threads) \<Rightarrow> (Inl InvalidHandle, q, threads)
                   | (Inr _, threads) \<Rightarrow> (Inr (), q\<lparr>wq_tail := Some oid\<rparr>, threads))
              | None \<Rightarrow> (Inr (), q\<lparr>wq_head := Some oid, wq_tail := Some oid\<rparr>, threads)))"

definition wq_link_before ::
  "wait_queue \<Rightarrow> thread pool \<Rightarrow> object_id \<Rightarrow> object_id \<Rightarrow>
   (error + unit) \<times> wait_queue \<times> thread pool" where
  "wq_link_before q threads oid nxt =
     (case pool_get threads nxt of
        Inl _ \<Rightarrow> (Inl InvalidHandle, q, threads)
      | Inr t \<Rightarrow>
          let previous = ln_previous (th_wait_links t)
          in case pool_get_mut threads oid (set_wait_links \<lparr>ln_next = Some nxt, ln_previous = previous\<rparr>) of
               (Inl _, threads) \<Rightarrow> (Inl InvalidHandle, q, threads)
             | (Inr _, threads) \<Rightarrow>
                 (case pool_get_mut threads nxt (set_wait_previous (Some oid)) of
                    (Inl _, threads) \<Rightarrow> (Inl InvalidHandle, q, threads)
                  | (Inr _, threads) \<Rightarrow>
                      (case previous of
                         Some before \<Rightarrow>
                           (case pool_get_mut threads before (set_wait_next (Some oid)) of
                              (Inl _, threads) \<Rightarrow> (Inl InvalidHandle, q, threads)
                            | (Inr _, threads) \<Rightarrow> (Inr (), q, threads))
                       | None \<Rightarrow> (Inr (), q\<lparr>wq_head := Some oid\<rparr>, threads))))"

text \<open>\<open>enqueue\<close> and \<open>requeue\<close> share their guards and differ in the thread they insert before.\<close>

definition wq_enqueue ::
  "wait_queue \<Rightarrow> thread pool \<Rightarrow> object_id \<Rightarrow> (error + unit) \<times> wait_queue \<times> thread pool" where
  "wq_enqueue q threads oid =
     (case pool_get threads oid of
        Inl _ \<Rightarrow> (Inl InvalidHandle, q, threads)
      | Inr t \<Rightarrow>
          if \<not> wait_is_nothing (th_wait t) \<or> \<not> is_unlinked (th_wait_links t) \<or> wq_head q = Some oid
          then (Inl InvalidState, q, threads)
          else (case (case wq_first_below q threads (th_priority t) of
                        Some nxt \<Rightarrow> wq_link_before q threads oid nxt
                      | None \<Rightarrow> wq_append q threads oid) of
                  (Inl e, q, threads) \<Rightarrow> (Inl e, q, threads)
                | (Inr _, q, threads) \<Rightarrow>
                    (Inr (), q\<lparr>wq_len := saturating_add (wq_len q) 1\<rparr>, threads)))"

definition wq_requeue ::
  "wait_queue \<Rightarrow> thread pool \<Rightarrow> object_id \<Rightarrow> (error + unit) \<times> wait_queue \<times> thread pool" where
  "wq_requeue q threads oid =
     (case pool_get threads oid of
        Inl _ \<Rightarrow> (Inl InvalidHandle, q, threads)
      | Inr t \<Rightarrow>
          if \<not> wait_is_nothing (th_wait t) \<or> \<not> is_unlinked (th_wait_links t) \<or> wq_head q = Some oid
          then (Inl InvalidState, q, threads)
          else (case (case wq_first_at_or_below q threads (th_priority t) of
                        Some nxt \<Rightarrow> wq_link_before q threads oid nxt
                      | None \<Rightarrow> wq_append q threads oid) of
                  (Inl e, q, threads) \<Rightarrow> (Inl e, q, threads)
                | (Inr _, q, threads) \<Rightarrow>
                    (Inr (), q\<lparr>wq_len := saturating_add (wq_len q) 1\<rparr>, threads)))"

definition wq_unlink ::
  "wait_queue \<Rightarrow> thread pool \<Rightarrow> object_id \<Rightarrow> bool \<times> wait_queue \<times> thread pool" where
  "wq_unlink q threads oid =
     (case pool_get threads oid of
        Inl _ \<Rightarrow> (False, q, threads)
      | Inr t \<Rightarrow>
          let links = th_wait_links t
          in if is_unlinked links \<and> wq_head q \<noteq> Some oid then (False, q, threads)
             else let threads = (case ln_previous links of
                        Some previous \<Rightarrow> snd (pool_get_mut threads previous (set_wait_next (ln_next links)))
                      | None \<Rightarrow> threads);
                      threads = (case ln_next links of
                        Some nxt \<Rightarrow> snd (pool_get_mut threads nxt (set_wait_previous (ln_previous links)))
                      | None \<Rightarrow> threads);
                      q = (if wq_head q = Some oid then q\<lparr>wq_head := ln_next links\<rparr> else q);
                      q = (if wq_tail q = Some oid then q\<lparr>wq_tail := ln_previous links\<rparr> else q);
                      threads = snd (pool_get_mut threads oid (set_wait_links links_UNLINKED));
                      q = q\<lparr>wq_len := saturating_sub (wq_len q) 1\<rparr>
                  in (True, q, threads))"

definition wq_dequeue_front ::
  "wait_queue \<Rightarrow> thread pool \<Rightarrow> object_id option \<times> wait_queue \<times> thread pool" where
  "wq_dequeue_front q threads =
     (case wq_head q of
        None \<Rightarrow> (None, q, threads)
      | Some head \<Rightarrow>
          (case wq_unlink q threads head of
             (True, q, threads) \<Rightarrow> (Some head, q, threads)
           | (False, q, threads) \<Rightarrow> (None, wait_queue_EMPTY, threads)))"

section \<open>Links carried by threads\<close>

text \<open>
  The contract of a pair of links that threads carry: reading after writing gives what was written.
\<close>

locale thread_links =
  fixes get_links :: "thread \<Rightarrow> links"
    and put_links :: "links \<Rightarrow> thread \<Rightarrow> thread"
  assumes get_put: "get_links (put_links l t) = l"
begin

abbreviation tnext :: "thread pool \<Rightarrow> object_id \<Rightarrow> object_id option" where
  "tnext s k \<equiv> Option.bind (pool_map s k) (\<lambda>t. ln_next (get_links t))"

abbreviation tprev :: "thread pool \<Rightarrow> object_id \<Rightarrow> object_id option" where
  "tprev s k \<equiv> Option.bind (pool_map s k) (\<lambda>t. ln_previous (get_links t))"

lemma thread_link_store:
  "link_store (\<lambda>s k. pool_map s k \<noteq> None) tnext tprev
     (\<lambda>k v s. pool_modify s k (\<lambda>t. put_links ((get_links t)\<lparr>ln_next := v\<rparr>) t))
     (\<lambda>k v s. pool_modify s k (\<lambda>t. put_links ((get_links t)\<lparr>ln_previous := v\<rparr>) t))
     (\<lambda>k v w s. pool_modify s k (put_links \<lparr>ln_next = v, ln_previous = w\<rparr>))"
  by unfold_locales (auto simp: fun_eq_iff get_put views split: option.splits)

end

sublocale thread_links \<subseteq> store: link_store "\<lambda>s k. pool_map s k \<noteq> None" tnext tprev
     "\<lambda>k v s. pool_modify s k (\<lambda>t. put_links ((get_links t)\<lparr>ln_next := v\<rparr>) t)"
     "\<lambda>k v s. pool_modify s k (\<lambda>t. put_links ((get_links t)\<lparr>ln_previous := v\<rparr>) t)"
     "\<lambda>k v w s. pool_modify s k (put_links \<lparr>ln_next = v, ln_previous = w\<rparr>)"
  by (rule thread_link_store)

interpretation wait_links: thread_links th_wait_links set_wait_links
  by unfold_locales (simp add: set_wait_links_def)

section \<open>Queues as lists\<close>

definition wq_holds :: "thread pool \<Rightarrow> wait_queue \<Rightarrow> object_id list \<Rightarrow> bool" where
  "wq_holds ts q xs \<longleftrightarrow> wait_links.store.queue ts (wq_head q) (wq_tail q) xs \<and>
     (\<forall>k \<in> set xs. pool_map ts k \<noteq> None) \<and> unat (wq_len q) = length xs"

definition prio :: "thread pool \<Rightarrow> object_id \<Rightarrow> u8" where
  "prio ts k = (case pool_map ts k of Some t \<Rightarrow> th_priority t | None \<Rightarrow> 0)"

text \<open>The pools \<open>s\<close> and \<open>s'\<close> differ in the wait links of the threads in \<open>K\<close> only.\<close>

definition links_changed :: "object_id set \<Rightarrow> thread pool \<Rightarrow> thread pool \<Rightarrow> bool" where
  "links_changed K s s' \<longleftrightarrow>
     (\<forall>k. map_option (set_wait_links links_UNLINKED) (pool_map s' k) =
          map_option (set_wait_links links_UNLINKED) (pool_map s k)) \<and>
     (\<forall>k. k \<notin> K \<longrightarrow> pool_map s' k = pool_map s k) \<and> (pool_inv s \<longrightarrow> pool_inv s')"

lemma links_changed_refl [simp]: "links_changed K s s"
  by (simp add: links_changed_def)

lemma links_changed_trans: "links_changed K s s' \<Longrightarrow> links_changed K s' s'' \<Longrightarrow> links_changed K s s''"
  by (simp add: links_changed_def)

lemma links_changed_modify:
  assumes "k \<in> K" and "\<And>t. set_wait_links links_UNLINKED (f t) = set_wait_links links_UNLINKED t"
  shows "links_changed K s (pool_modify s k f)"
  using assms by (auto simp: links_changed_def pool_map_modify pool_inv_modify split: option.splits)

lemma links_changed_on_some:
  assumes "\<And>j. k = Some j \<Longrightarrow> j \<in> K" and "links_changed K s s'"
    and "\<And>t. set_wait_links links_UNLINKED (f t) = set_wait_links links_UNLINKED t"
  shows "links_changed K s (on_some k (\<lambda>j s. pool_modify s j f) s')"
  using assms by (cases k) (auto simp: on_some_def intro: links_changed_trans [OF _ links_changed_modify])

lemma links_changed_mono: "links_changed K s s' \<Longrightarrow> K \<subseteq> L \<Longrightarrow> links_changed L s s'"
  by (auto simp: links_changed_def)

lemma links_changed_live: "links_changed K s s' \<Longrightarrow> pool_map s' k = None \<longleftrightarrow> pool_map s k = None"
  unfolding links_changed_def by (metis map_option_is_None)

lemma links_changed_prio: "links_changed K s s' \<Longrightarrow> prio s' = prio s"
proof
  fix k assume a: "links_changed K s s'"
  then have "map_option (set_wait_links links_UNLINKED) (pool_map s' k) =
      map_option (set_wait_links links_UNLINKED) (pool_map s k)"
    by (simp add: links_changed_def)
  then show "prio s' k = prio s k"
    by (cases "pool_map s' k"; cases "pool_map s k")
      (auto simp: prio_def set_wait_links_def dest: arg_cong [where f = th_priority])
qed

lemma waiting_next_eq: "waiting_next ts = wait_links.tnext ts"
  by (simp add: waiting_next_def pool_map_def fun_eq_iff)

lemma set_wait_eq:
  "set_wait_next v = (\<lambda>t. set_wait_links ((th_wait_links t)\<lparr>ln_next := v\<rparr>) t)"
  "set_wait_previous v = (\<lambda>t. set_wait_links ((th_wait_links t)\<lparr>ln_previous := v\<rparr>) t)"
  by (simp_all add: fun_eq_iff set_wait_next_def set_wait_previous_def set_wait_links_def)

lemma set_wait_links_twice [simp]: "set_wait_links l (set_wait_links l' t) = set_wait_links l t"
  by (simp add: set_wait_links_def)

lemma wq_holds_iter: "wq_holds ts q xs \<Longrightarrow> wq_iter q ts = xs"
  unfolding wq_iter_def waiting_next_eq by (rule walk_queue_list) (auto simp: wq_holds_def)

lemma wq_holds_frame:
  assumes "wq_holds ts q xs" and "links_changed K ts ts'" and "set xs \<inter> K = {}"
  shows "wq_holds ts' q xs"
proof -
  have "pool_map ts' k = pool_map ts k" if "k \<in> set xs" for k
    using assms(2,3) that by (auto simp: links_changed_def)
  then show ?thesis
    using assms(1) by (auto simp: wq_holds_def intro: queue_list_cong)
qed

lemma wq_holds_empty [simp]: "wq_holds ts wait_queue_EMPTY []"
  by (simp add: wq_holds_def wait_queue_EMPTY_def)

lemma wq_holds_unique: "wq_holds ts q xs \<Longrightarrow> wq_holds ts q ys \<Longrightarrow> xs = ys"
  unfolding wq_holds_def by (meson queue_list_unique)

lemma pool_live_bound:
  assumes "pool_inv p" and "distinct xs" and "\<forall>k \<in> set xs. pool_map p k \<noteq> None"
  shows "length xs < 2 ^ 32"
proof -
  obtain fl where wf: "pool_wf p fl" using assms(1) pool_inv_wf by blast
  have inj: "inj_on oid_index (set xs)"
    using assms(3) pool_map_one_generation by (fastforce intro!: inj_onI)
  have "oid_index k \<in> {i. unat i < length (pl_slots p)}" if "k \<in> set xs" for k
    using assms(3) that pool_slot_in_range by (force simp: pool_map_eq_Some)
  then have "unat ` oid_index ` set xs \<subseteq> {..<length (pl_slots p)}" by auto
  then have "card (unat ` oid_index ` set xs) \<le> length (pl_slots p)"
    using card_mono [of "{..<length (pl_slots p)}"] by simp
  moreover have "card (unat ` oid_index ` set xs) = length xs"
    using inj assms(2) by (simp add: card_image inj_on_def distinct_card)
  ultimately show ?thesis
    using pool_wfD(1) [OF wf] by simp
qed

section \<open>What the operations do to the list\<close>

lemma wq_holdsD:
  assumes "wq_holds ts q xs"
  shows "wait_links.store.queue ts (wq_head q) (wq_tail q) xs" "\<And>k. k \<in> set xs \<Longrightarrow> pool_map ts k \<noteq> None"
    "unat (wq_len q) = length xs" "distinct xs"
  using assms queue_listD(4) by (auto simp: wq_holds_def)

lemma wq_append_holds:
  assumes q: "wq_holds ts q xs" and x: "pool_map ts oid = Some t" "oid \<notin> set xs"
  shows "\<exists>q' ts'. wq_append q ts oid = (Inr (), q', ts') \<and>
    wait_links.store.queue ts' (wq_head q') (wq_tail q') (xs @ [oid]) \<and>
    links_changed (insert oid (set xs)) ts ts' \<and> wq_len q' = wq_len q"
proof -
  note Q = wq_holdsD [OF q]
  have tail: "pool_map ts k \<noteq> None \<and> k \<in> set xs" if "wq_tail q = Some k" for k
    using queue_listD(2) [OF Q(1)] Q(2) that by (metis opt_last_in)
  let ?s = "pool_modify ts oid (set_wait_links \<lparr>ln_next = None, ln_previous = wq_tail q\<rparr>)"
  let ?s' = "on_some (wq_tail q) (\<lambda>k s. pool_modify s k (\<lambda>t. set_wait_links ((th_wait_links t)\<lparr>ln_next := Some oid\<rparr>) t)) ?s"
  have "wq_append q ts oid = (Inr (), q\<lparr>wq_head := if wq_tail q = None then Some oid else wq_head q,
      wq_tail := Some oid\<rparr>, ?s')"
    using x tail
    by (cases "wq_tail q") (auto simp: wq_append_def pool_get_mut_eq on_some_def set_wait_eq Let_def
        split: option.splits)
  moreover have "wait_links.store.queue ?s' (if wq_tail q = None then Some oid else wq_head q)
      (Some oid) (xs @ [oid])"
    by (rule wait_links.store.append_queue(1) [OF Q(1)]) (use x Q(2) in auto)
  moreover have "links_changed (insert oid (set xs)) ts ?s'"
    by (rule links_changed_on_some) (use tail in \<open>auto intro: links_changed_modify\<close>)
  ultimately show ?thesis by simp
qed

lemma wq_link_before_holds:
  assumes q: "wq_holds ts q (ys @ y # zs)" and x: "pool_map ts oid = Some t" "oid \<notin> set (ys @ y # zs)"
  shows "\<exists>q' ts'. wq_link_before q ts oid y = (Inr (), q', ts') \<and>
    wait_links.store.queue ts' (wq_head q') (wq_tail q') (ys @ oid # y # zs) \<and>
    links_changed (insert oid (set (ys @ y # zs))) ts ts' \<and> wq_len q' = wq_len q"
proof -
  note Q = wq_holdsD [OF q]
  obtain u where u: "pool_map ts y = Some u" using Q(2) [of y] by auto
  have ne: "oid \<noteq> y" using x(2) by auto
  let ?p = "ln_previous (th_wait_links u)"
  have p: "wait_links.tprev ts y = ?p" by (simp add: u)
  have prev: "pool_map ts k \<noteq> None \<and> k \<in> set ys" if "?p = Some k" for k
  proof -
    have "k \<in> set ys"
      using queue_list_neighbours(1) [OF Q(1)] that unfolding p by (metis opt_last_in)
    then show ?thesis using Q(2) by simp
  qed
  let ?s1 = "pool_modify ts oid (set_wait_links \<lparr>ln_next = Some y, ln_previous = ?p\<rparr>)"
  let ?s2 = "pool_modify ?s1 y (\<lambda>t. set_wait_links ((th_wait_links t)\<lparr>ln_previous := Some oid\<rparr>) t)"
  let ?s3 = "on_some ?p (\<lambda>k s. pool_modify s k (\<lambda>t. set_wait_links ((th_wait_links t)\<lparr>ln_next := Some oid\<rparr>) t)) ?s2"
  have "wq_link_before q ts oid y =
      (Inr (), q\<lparr>wq_head := if ?p = None then Some oid else wq_head q\<rparr>, ?s3)"
    using x u ne prev
    by (cases ?p) (auto simp: wq_link_before_def pool_get_map pool_get_mut_eq on_some_def set_wait_eq Let_def
        split: option.splits)
  moreover have "wait_links.store.queue ?s3 (if ?p = None then Some oid else wq_head q)
      (wq_tail q) (ys @ oid # y # zs)"
    using wait_links.store.insert_before_queue(1) [OF Q(1) x(2) _ Q(2)] x(1) unfolding p by auto
  moreover have "links_changed (insert oid (set (ys @ y # zs))) ts ?s2"
    by (rule links_changed_trans [OF links_changed_modify links_changed_modify]) simp_all
  then have "links_changed (insert oid (set (ys @ y # zs))) ts ?s3"
    by (rule links_changed_on_some [rotated]) (use prev in auto)
  ultimately show ?thesis by simp
qed

lemma wq_unlink_holds:
  assumes q: "wq_holds ts q (ys @ x # zs)"
  shows "\<exists>q' ts'. wq_unlink q ts x = (True, q', ts') \<and> wq_holds ts' q' (ys @ zs) \<and>
    links_changed (set (ys @ x # zs)) ts ts' \<and>
    (\<exists>t. pool_map ts x = Some t \<and> pool_map ts' x = Some (set_wait_links links_UNLINKED t))"
proof -
  note Q = wq_holdsD [OF q]
  obtain t where t: "pool_map ts x = Some t" using Q(2) [of x] by auto
  let ?l = "th_wait_links t"
  have l: "wait_links.tprev ts x = ln_previous ?l" "wait_links.tnext ts x = ln_next ?l" by (simp_all add: t)
  note nb = queue_list_neighbours [OF Q(1), unfolded l]
  have prev: "k \<in> set ys" if "ln_previous ?l = Some k" for k using nb(1) that by (metis opt_last_in)
  have nxt: "k \<in> set zs" if "ln_next ?l = Some k" for k using nb(2) that by (metis opt_head_Some list.set_intros(1))
  have guard: "\<not> (is_unlinked ?l \<and> wq_head q \<noteq> Some x)"
    using queue_list_unlinked(1) [OF Q(1), of x] l by (auto simp: is_unlinked_def)
  let ?s1 = "on_some (ln_previous ?l) (\<lambda>k s. pool_modify s k (\<lambda>t. set_wait_links ((th_wait_links t)\<lparr>ln_next := ln_next ?l\<rparr>) t)) ts"
  let ?s2 = "on_some (ln_next ?l) (\<lambda>k s. pool_modify s k (\<lambda>t. set_wait_links ((th_wait_links t)\<lparr>ln_previous := ln_previous ?l\<rparr>) t)) ?s1"
  let ?s3 = "pool_modify ?s2 x (set_wait_links \<lparr>ln_next = None, ln_previous = None\<rparr>)"
  let ?q = "q\<lparr>wq_head := if wq_head q = Some x then ln_next ?l else wq_head q,
    wq_tail := if wq_tail q = Some x then ln_previous ?l else wq_tail q,
    wq_len := saturating_sub (wq_len q) 1\<rparr>"
  have snd_eq: "snd (pool_get_mut p k f) = pool_modify p k f" for p :: "thread pool" and k f
    by (simp add: pool_modify_def)
  have "wq_unlink q ts x = (True, ?q, ?s3)"
    using guard by (simp add: wq_unlink_def pool_get_map t Let_def snd_eq set_wait_eq links_UNLINKED_def
        on_some_def split: option.splits)
  moreover have lc2: "links_changed (set (ys @ x # zs)) ts ?s2"
    by (intro links_changed_on_some) (use prev nxt in auto)
  have lc3: "links_changed (set (ys @ x # zs)) ts ?s3"
    by (rule links_changed_trans [OF lc2]) (rule links_changed_modify, simp_all)
  have "wq_holds ?s3 ?q (ys @ zs)"
    unfolding wq_holds_def
  proof (intro conjI ballI)
    show "wait_links.store.queue ?s3 (wq_head ?q) (wq_tail ?q) (ys @ zs)"
      using wait_links.store.splice_out_queue [OF Q(1) Q(2)] unfolding l by simp
    show "unat (wq_len ?q) = length (ys @ zs)"
      using Q(3) by simp
    show "pool_map ?s3 k \<noteq> None" if "k \<in> set (ys @ zs)" for k
      using that Q(2) [of k] links_changed_live [OF lc3, of k] by auto
  qed
  moreover have "pool_map ?s3 x = Some (set_wait_links links_UNLINKED t)"
  proof -
    have "x \<notin> set ys" "x \<notin> set zs" using Q(4) by auto
    then have "links_changed (- {x}) ts ?s2"
      by (intro links_changed_on_some) (use prev nxt in auto)
    then have "pool_map ?s2 x = Some t" using t by (simp add: links_changed_def)
    then show ?thesis by (simp add: links_UNLINKED_def)
  qed
  ultimately show ?thesis
    using t lc3 by blast
qed

text \<open>A thread put in front of the first one that satisfies \<open>P\<close>, or at the end.\<close>

definition place_before :: "('a \<Rightarrow> bool) \<Rightarrow> 'a \<Rightarrow> 'a list \<Rightarrow> 'a list" where
  "place_before P x xs = takeWhile (\<lambda>y. \<not> P y) xs @ x # dropWhile (\<lambda>y. \<not> P y) xs"

lemma place_before_set [simp]: "set (place_before P x xs) = insert x (set xs)"
  by (induction xs) (auto simp: place_before_def)

lemma place_before_length [simp]: "length (place_before P x xs) = Suc (length xs)"
  by (induction xs) (auto simp: place_before_def)

lemma find_split:
  "find P xs = Some y \<Longrightarrow> \<exists>zs. dropWhile (\<lambda>y. \<not> P y) xs = y # zs"
  "find P xs = None \<Longrightarrow> takeWhile (\<lambda>y. \<not> P y) xs = xs \<and> dropWhile (\<lambda>y. \<not> P y) xs = []"
  by (induction xs) (auto split: if_splits)

lemma place_before_sorted:
  assumes "sorted_wrt R xs" and "\<And>y. P y \<Longrightarrow> R x y" and "\<And>y. y \<in> set xs \<Longrightarrow> \<not> P y \<Longrightarrow> R y x"
    and "\<And>y z. P y \<Longrightarrow> R y z \<Longrightarrow> P z"
  shows "sorted_wrt R (place_before P x xs)"
  using assms(1,3)
proof (induction xs)
  case (Cons y ys)
  have "place_before P x (y # ys) = (if P y then x # y # ys else y # place_before P x ys)"
    by (simp add: place_before_def)
  then show ?case
    using Cons assms(2,4) by (auto split: if_splits)
qed (simp add: place_before_def)

lemma sorted_wrt_remove1: "sorted_wrt R xs \<Longrightarrow> sorted_wrt R (remove1 x xs)"
  by (induction xs) (auto dest: notin_set_remove1 [rotated])

lemma wq_insert_holds:
  assumes inv: "pool_inv ts" and q: "wq_holds ts q xs" and x: "pool_map ts oid = Some t" "oid \<notin> set xs"
    and before: "before = find P xs"
  shows "\<exists>q' ts'. (case before of Some nxt \<Rightarrow> wq_link_before q ts oid nxt | None \<Rightarrow> wq_append q ts oid) =
      (Inr (), q', ts') \<and>
    wq_holds ts' (q'\<lparr>wq_len := saturating_add (wq_len q') 1\<rparr>) (place_before P oid xs) \<and>
    links_changed (insert oid (set xs)) ts ts'"
proof -
  note Q = wq_holdsD [OF q]
  have split: "xs = takeWhile (\<lambda>y. \<not> P y) xs @ dropWhile (\<lambda>y. \<not> P y) xs" by simp
  have "length (oid # xs) < 2 ^ 32"
    by (rule pool_live_bound [OF inv]) (use Q(2,4) x in auto)
  then have len: "unat (saturating_add (wq_len q) 1) = Suc (length xs)"
    using Q(3) by simp
  have fin: "wq_holds ts' (q'\<lparr>wq_len := saturating_add (wq_len q') 1\<rparr>) (place_before P oid xs)"
    if "wait_links.store.queue ts' (wq_head q') (wq_tail q') (place_before P oid xs)"
      "links_changed (insert oid (set xs)) ts ts'" "wq_len q' = wq_len q" for q' ts'
    using that len x Q(2) links_changed_live [OF that(2)] by (auto simp: wq_holds_def)
  show ?thesis
  proof (cases before)
    case None
    then have "place_before P oid xs = xs @ [oid]"
      using find_split(2) [of P xs] before by (simp add: place_before_def)
    then show ?thesis
      using wq_append_holds [OF q x] fin None by fastforce
  next
    case (Some y)
    then obtain zs where d: "dropWhile (\<lambda>y. \<not> P y) xs = y # zs"
      using find_split(1) [of P xs y] before by auto
    define ys where "ys = takeWhile (\<lambda>y. \<not> P y) xs"
    have xs: "xs = ys @ y # zs" "place_before P oid xs = ys @ oid # y # zs"
      using split d by (simp_all add: ys_def place_before_def)
    then show ?thesis
      using wq_link_before_holds [of ts q ys y zs oid t] q x fin Some by fastforce
  qed
qed

section \<open>The operations\<close>

definition enqueue_refused :: "thread pool \<Rightarrow> wait_queue \<Rightarrow> object_id \<Rightarrow> error \<Rightarrow> bool" where
  "enqueue_refused ts q oid e \<longleftrightarrow> (case pool_map ts oid of
     None \<Rightarrow> e = InvalidHandle
   | Some t \<Rightarrow> e = InvalidState \<and>
       (th_wait t \<noteq> WaitNothing \<or> th_wait_links t \<noteq> links_UNLINKED \<or> wq_head q = Some oid))"

lemma is_unlinked_iff: "is_unlinked l \<longleftrightarrow> l = links_UNLINKED"
  by (cases l) (auto simp: is_unlinked_def links_UNLINKED_def)

lemma wq_unlinked_outside:
  assumes "wq_holds ts q xs" and "pool_map ts oid = Some t" and "th_wait_links t = links_UNLINKED"
    and "wq_head q \<noteq> Some oid"
  shows "oid \<notin> set xs"
  using queue_list_unlinked(1) [OF wq_holdsD(1) [OF assms(1)], of oid] assms(2-4)
  by (auto simp: links_UNLINKED_def)

lemma wq_find_by_priority_eq:
  "wq_holds ts q xs \<Longrightarrow> wq_find_by_priority q ts P = find (\<lambda>k. P (prio ts k)) xs"
  using wq_holds_iter [of ts q xs] wq_holdsD(2) [of ts q xs]
  by (auto simp: wq_find_by_priority_def prio_def pool_get_map intro!: find_cong split: option.splits)

lemma enqueue_refused_unique: "enqueue_refused ts q oid e \<Longrightarrow> enqueue_refused ts q oid e' \<longleftrightarrow> e' = e"
  by (auto simp: enqueue_refused_def split: option.splits)

lemma wq_enqueue_refused: "enqueue_refused ts q oid e \<Longrightarrow> wq_enqueue q ts oid = (Inl e, q, ts)"
  by (auto simp: enqueue_refused_def wq_enqueue_def pool_get_map wait_is_nothing_def is_unlinked_iff split: option.splits)

lemma wq_enqueue_effect:
  assumes inv: "pool_inv ts" and q: "wq_holds ts q xs" and run: "wq_enqueue q ts oid = (r, q', ts')"
  shows "case r of
      Inl e \<Rightarrow> q' = q \<and> ts' = ts \<and> enqueue_refused ts q oid e
    | Inr _ \<Rightarrow> oid \<notin> set xs \<and>
        wq_holds ts' q' (place_before (\<lambda>k. prio ts k < prio ts oid) oid xs) \<and>
        links_changed (insert oid (set xs)) ts ts'"
proof (cases "\<exists>t. pool_map ts oid = Some t \<and> th_wait t = WaitNothing \<and>
    th_wait_links t = links_UNLINKED \<and> wq_head q \<noteq> Some oid")
  case False
  then show ?thesis
    using run by (cases "pool_map ts oid")
      (auto simp: wq_enqueue_def pool_get_map enqueue_refused_def wait_is_nothing_def is_unlinked_iff)
next
  case True
  then obtain t where t: "pool_map ts oid = Some t" "th_wait t = WaitNothing"
      "th_wait_links t = links_UNLINKED" "wq_head q \<noteq> Some oid" by blast
  note out = wq_unlinked_outside [OF q t(1,3,4)]
  have "wq_first_below q ts (th_priority t) = find (\<lambda>k. prio ts k < prio ts oid) xs"
    using wq_find_by_priority_eq [OF q] by (simp add: wq_first_below_def prio_def t(1))
  from wq_insert_holds [OF inv q t(1) out this] show ?thesis
    using run t out by (auto simp: wq_enqueue_def pool_get_map wait_is_nothing_def is_unlinked_iff)
qed

lemma wq_requeue_effect:
  assumes inv: "pool_inv ts" and q: "wq_holds ts q xs" and run: "wq_requeue q ts oid = (r, q', ts')"
  shows "case r of
      Inl e \<Rightarrow> q' = q \<and> ts' = ts \<and> enqueue_refused ts q oid e
    | Inr _ \<Rightarrow> oid \<notin> set xs \<and>
        wq_holds ts' q' (place_before (\<lambda>k. prio ts k \<le> prio ts oid) oid xs) \<and>
        links_changed (insert oid (set xs)) ts ts'"
proof (cases "\<exists>t. pool_map ts oid = Some t \<and> th_wait t = WaitNothing \<and>
    th_wait_links t = links_UNLINKED \<and> wq_head q \<noteq> Some oid")
  case False
  then show ?thesis
    using run by (cases "pool_map ts oid")
      (auto simp: wq_requeue_def pool_get_map enqueue_refused_def wait_is_nothing_def is_unlinked_iff)
next
  case True
  then obtain t where t: "pool_map ts oid = Some t" "th_wait t = WaitNothing"
      "th_wait_links t = links_UNLINKED" "wq_head q \<noteq> Some oid" by blast
  note out = wq_unlinked_outside [OF q t(1,3,4)]
  have "wq_first_at_or_below q ts (th_priority t) = find (\<lambda>k. prio ts k \<le> prio ts oid) xs"
    using wq_find_by_priority_eq [OF q] by (simp add: wq_first_at_or_below_def prio_def t(1))
  from wq_insert_holds [OF inv q t(1) out this] show ?thesis
    using run t out by (auto simp: wq_requeue_def pool_get_map wait_is_nothing_def is_unlinked_iff)
qed

lemma wq_unlink_effect:
  assumes q: "wq_holds ts q xs" and run: "wq_unlink q ts oid = (b, q', ts')"
    and home: "oid \<in> set xs \<or> (\<forall>t. pool_map ts oid = Some t \<longrightarrow> th_wait_links t = links_UNLINKED)"
  shows "b \<longleftrightarrow> oid \<in> set xs" "wq_holds ts' q' (remove1 oid xs)" "links_changed (set xs) ts ts'"
    "oid \<in> set xs \<Longrightarrow> \<exists>t. pool_map ts oid = Some t \<and> pool_map ts' oid = Some (set_wait_links links_UNLINKED t)"
proof -
  have "(b \<longleftrightarrow> oid \<in> set xs) \<and> wq_holds ts' q' (remove1 oid xs) \<and> links_changed (set xs) ts ts' \<and>
    (oid \<in> set xs \<longrightarrow> (\<exists>t. pool_map ts oid = Some t \<and>
      pool_map ts' oid = Some (set_wait_links links_UNLINKED t)))"
  proof (cases "oid \<in> set xs")
    case True
    then obtain ys zs where xs: "xs = ys @ oid # zs" by (meson split_list)
    have "oid \<notin> set ys" using wq_holdsD(4) [OF q] xs by auto
    then have "remove1 oid xs = ys @ zs" by (simp add: xs remove1_append)
    then show ?thesis
      using wq_unlink_holds [of ts q ys oid zs] q run xs by auto
  next
    case False
    have "wq_head q \<noteq> Some oid"
      using queue_listD(1) [OF wq_holdsD(1) [OF q]] False opt_head_in by metis
    with False home run q show ?thesis
      by (cases "pool_map ts oid")
        (auto simp: wq_unlink_def pool_get_map Let_def is_unlinked_iff remove1_idem)
  qed
  then show "b \<longleftrightarrow> oid \<in> set xs" "wq_holds ts' q' (remove1 oid xs)" "links_changed (set xs) ts ts'"
    "oid \<in> set xs \<Longrightarrow> \<exists>t. pool_map ts oid = Some t \<and> pool_map ts' oid = Some (set_wait_links links_UNLINKED t)"
    by blast+
qed

lemma wq_dequeue_effect:
  assumes q: "wq_holds ts q xs" and run: "wq_dequeue_front q ts = (r, q', ts')"
  shows "r = opt_head xs" "wq_holds ts' q' (tl xs)" "links_changed (set xs) ts ts'"
proof -
  have h: "wq_head q = opt_head xs"
    using queue_listD(1) [OF wq_holdsD(1) [OF q]] .
  have "r = opt_head xs \<and> wq_holds ts' q' (tl xs) \<and> links_changed (set xs) ts ts'"
  proof (cases xs)
    case Nil
    with h run q show ?thesis by (simp add: wq_dequeue_front_def)
  next
    case (Cons x zs)
    with wq_unlink_holds [of ts q "[]" x zs] q run h show ?thesis
      by (auto simp: wq_dequeue_front_def)
  qed
  then show "r = opt_head xs" "wq_holds ts' q' (tl xs)" "links_changed (set xs) ts ts'"
    by blast+
qed

text \<open>Higher priorities first.\<close>

abbreviation by_priority :: "thread pool \<Rightarrow> object_id list \<Rightarrow> bool" where
  "by_priority ts xs \<equiv> sorted_wrt (\<lambda>a b. prio ts b \<le> prio ts a) xs"

lemma place_below_filter:
  fixes f :: "'a \<Rightarrow> 'b::linorder"
  assumes "sorted_wrt (\<lambda>a b. f b \<le> f a) xs"
  shows "filter (\<lambda>y. f y = f x) (place_before (\<lambda>y. f y < f x) x xs) = filter (\<lambda>y. f y = f x) xs @ [x]"
    "filter (\<lambda>y. f y = f x) (place_before (\<lambda>y. f y \<le> f x) x xs) = x # filter (\<lambda>y. f y = f x) xs"
  using assms
proof (induction xs)
  case (Cons y ys)
  have step: "place_before P x (y # ys) = (if P y then x # y # ys else y # place_before P x ys)" for P
    by (simp add: place_before_def)
  { case 1
    then have "filter (\<lambda>y. f y = f x) ys = []" if "f y < f x"
      using that by (auto simp: filter_empty_conv)
    with 1 Cons.IH(1) show ?case
      by (auto simp: step) }
  { case 2
    with Cons.IH(2) show ?case
      by (auto simp: step) }
qed (simp_all add: place_before_def)

text \<open>
  C19: The order of a wait queue. \<open>enqueue\<close> is refused exactly for a thread that does not exist, with
  \<open>InvalidHandle\<close>, and for one that waits or is linked, with \<open>InvalidState\<close>, and a refusal changes nothing.
  Otherwise the thread is put in front of the first thread of a lower priority. In a queue that is
  sorted by priority this is behind every thread of the same or of a higher priority, the queue stays
  sorted, and threads of one priority leave it in the order in which they came. A change of the priority
  of a waiting thread does not move it, and then the new thread can come to stand in front of threads of a
  higher priority. Nothing but the wait links of the queue's own threads changes, so every other queue
  through the same pool keeps its list.
\<close>

theorem wait_queue_enqueue_correct:
  assumes "pool_inv ts" and "wq_holds ts q xs" and "wq_enqueue q ts oid = (r, q', ts')"
    and "wq_holds ts other ys" and "set ys \<inter> insert oid (set xs) = {}"
  defines "xs' \<equiv> takeWhile (\<lambda>k. prio ts oid \<le> prio ts k) xs @ oid # dropWhile (\<lambda>k. prio ts oid \<le> prio ts k) xs"
  shows "(\<forall>e. r = Inl e \<longleftrightarrow> enqueue_refused ts q oid e) \<and>
    (case r of
      Inl e \<Rightarrow> q' = q \<and> ts' = ts
    | Inr _ \<Rightarrow> oid \<notin> set xs \<and> wq_holds ts' q' xs' \<and>
        (by_priority ts xs \<longrightarrow> by_priority ts' xs' \<and>
          filter (\<lambda>k. prio ts k = prio ts oid) xs' = filter (\<lambda>k. prio ts k = prio ts oid) xs @ [oid]) \<and>
        wq_holds ts' other ys \<and> links_changed (insert oid (set xs)) ts ts')"
proof (cases r)
  case (Inl e)
  with wq_enqueue_effect [OF assms(1,2,3)] enqueue_refused_unique show ?thesis by auto
next
  case (Inr u)
  let ?xs = "place_before (\<lambda>k. prio ts k < prio ts oid) oid xs"
  have e: "oid \<notin> set xs" "wq_holds ts' q' ?xs" "links_changed (insert oid (set xs)) ts ts'"
    using wq_enqueue_effect [OF assms(1,2,3)] Inr by simp_all
  have xs': "?xs = xs'" by (simp add: xs'_def place_before_def not_less)
  have "by_priority ts' ?xs" if "by_priority ts xs"
    unfolding links_changed_prio [OF e(3)]
    by (rule place_before_sorted [OF that]) (auto dest: order.strict_implies_order)
  moreover have "\<not> enqueue_refused ts q oid e" for e
    using wq_enqueue_refused [of ts q oid e] assms(3) Inr by auto
  ultimately show ?thesis
    using e Inr place_below_filter(1) [of "prio ts" xs oid] wq_holds_frame [OF assms(4) e(3) assms(5)]
    unfolding xs' by auto
qed

definition example_thread :: "u8 \<Rightarrow> thread" where
  "example_thread p = projr (thread_new (ObjectId 0 1) p 31 0 0)"

lemma example_thread_fields:
  "p < 32 \<Longrightarrow> th_priority (example_thread p) = p" "p < 32 \<Longrightarrow> th_wait (example_thread p) = WaitNothing"
  "p < 32 \<Longrightarrow> th_wait_links (example_thread p) = links_UNLINKED"
  "p < 32 \<Longrightarrow> th_queue_links (example_thread p) = links_UNLINKED"
  "p < 32 \<Longrightarrow> th_state (example_thread p) = Inactive" "p < 32 \<Longrightarrow> th_cpu (example_thread p) = 0"
proof -
  have le: "\<not> 31 < p" if "p < 32"
    using that by (simp add: word_less_nat_alt)
  show "p < 32 \<Longrightarrow> th_priority (example_thread p) = p" "p < 32 \<Longrightarrow> th_wait (example_thread p) = WaitNothing"
    "p < 32 \<Longrightarrow> th_wait_links (example_thread p) = links_UNLINKED"
    "p < 32 \<Longrightarrow> th_queue_links (example_thread p) = links_UNLINKED"
    "p < 32 \<Longrightarrow> th_state (example_thread p) = Inactive" "p < 32 \<Longrightarrow> th_cpu (example_thread p) = 0"
    using le by (simp_all add: example_thread_def thread_new_def PRIORITY_COUNT_def)
qed

definition example_threads :: "thread pool" where
  "example_threads = snd (pool_allocate (pool_new 2) (example_thread 5))"

lemma example_threads_pool:
  "pool_inv example_threads" "pool_map example_threads (ObjectId 0 1) = Some (example_thread 5)"
  unfolding example_threads_def by (simp add: pool_inv_allocate pool_inv_new, simp add: pool_eval)

theorem wait_queue_enqueue_correct_witness:
  "(\<exists>q ts. wq_enqueue wait_queue_EMPTY example_threads (ObjectId 0 1) = (Inr (), q, ts) \<and>
     wq_holds ts q [ObjectId 0 1]) \<and>
   fst (wq_enqueue wait_queue_EMPTY example_threads (ObjectId 1 1)) = Inl InvalidHandle"
proof
  obtain r q ts where run: "wq_enqueue wait_queue_EMPTY example_threads (ObjectId 0 1) = (r, q, ts)"
    by (metis surj_pair)
  note E = wait_queue_enqueue_correct [OF example_threads_pool(1) wq_holds_empty run wq_holds_empty]
  have "\<not> enqueue_refused example_threads wait_queue_EMPTY (ObjectId 0 1) e" for e
    by (simp add: enqueue_refused_def example_threads_pool example_thread_fields wait_queue_EMPTY_def)
  with E obtain u where "r = Inr u" "wq_holds ts q [ObjectId 0 1]"
    by (cases r) auto
  then show "\<exists>q ts. wq_enqueue wait_queue_EMPTY example_threads (ObjectId 0 1) = (Inr (), q, ts) \<and>
     wq_holds ts q [ObjectId 0 1]"
    using run by auto
  obtain r q ts where run: "wq_enqueue wait_queue_EMPTY example_threads (ObjectId 1 1) = (r, q, ts)"
    by (metis surj_pair)
  have "pool_map example_threads (ObjectId 1 1) = None"
    unfolding example_threads_def by (simp add: pool_eval)
  then have "enqueue_refused example_threads wait_queue_EMPTY (ObjectId 1 1) InvalidHandle"
    by (simp add: enqueue_refused_def)
  then show "fst (wq_enqueue wait_queue_EMPTY example_threads (ObjectId 1 1)) = Inl InvalidHandle"
    using wait_queue_enqueue_correct [OF example_threads_pool(1) wq_holds_empty run wq_holds_empty] run by simp
qed

text \<open>
  C20: Leaving a wait queue. \<open>dequeue_front\<close> returns the thread at the front, which has the highest
  priority of the queue and came first among those that have it, and leaves the others in their
  order; \<open>unlink\<close> takes out the given thread alone, whose links are then empty, and reports whether it
  was in the queue; \<open>requeue\<close> puts a thread back in front of all threads of its priority.
\<close>

theorem wait_queue_leave_correct:
  assumes "pool_inv ts" and "wq_holds ts q xs" and "by_priority ts xs"
  shows "(wq_dequeue_front q ts = (x, q', ts') \<longrightarrow> x = opt_head xs \<and> wq_holds ts' q' (tl xs) \<and>
      by_priority ts' (tl xs) \<and> (\<forall>k \<in> set xs. \<forall>h. x = Some h \<longrightarrow> prio ts k \<le> prio ts h)) \<and>
    (wq_unlink q ts oid = (b, q', ts') \<longrightarrow>
      (oid \<in> set xs \<or> (\<forall>t. pool_map ts oid = Some t \<longrightarrow> th_wait_links t = links_UNLINKED)) \<longrightarrow>
      b = (oid \<in> set xs) \<and> wq_holds ts' q' (remove1 oid xs) \<and> by_priority ts' (remove1 oid xs) \<and>
      links_changed (set xs) ts ts') \<and>
    (wq_requeue q ts oid = (Inr (), q', ts') \<longrightarrow> (\<exists>xs'. wq_holds ts' q' xs' \<and> by_priority ts' xs' \<and>
      set xs' = insert oid (set xs) \<and>
      filter (\<lambda>k. prio ts k = prio ts oid) xs' = oid # filter (\<lambda>k. prio ts k = prio ts oid) xs))"
proof -
  have 1: "x = opt_head xs \<and> wq_holds ts' q' (tl xs) \<and> by_priority ts' (tl xs) \<and>
      (\<forall>k \<in> set xs. \<forall>h. x = Some h \<longrightarrow> prio ts k \<le> prio ts h)"
    if "wq_dequeue_front q ts = (x, q', ts')"
    using wq_dequeue_effect [OF assms(2) that] assms(3) links_changed_prio by (cases xs) auto
  have 2: "b = (oid \<in> set xs) \<and> wq_holds ts' q' (remove1 oid xs) \<and> by_priority ts' (remove1 oid xs) \<and>
      links_changed (set xs) ts ts'"
    if "wq_unlink q ts oid = (b, q', ts')"
      "oid \<in> set xs \<or> (\<forall>t. pool_map ts oid = Some t \<longrightarrow> th_wait_links t = links_UNLINKED)"
    using wq_unlink_effect [OF assms(2) that] links_changed_prio [of "set xs" ts ts'] assms(3)
    by (simp add: sorted_wrt_remove1)
  have 3: "\<exists>xs'. wq_holds ts' q' xs' \<and> by_priority ts' xs' \<and> set xs' = insert oid (set xs) \<and>
      filter (\<lambda>k. prio ts k = prio ts oid) xs' = oid # filter (\<lambda>k. prio ts k = prio ts oid) xs"
    if "wq_requeue q ts oid = (Inr (), q', ts')"
  proof -
    let ?xs = "place_before (\<lambda>k. prio ts k \<le> prio ts oid) oid xs"
    have e: "wq_holds ts' q' ?xs" "links_changed (insert oid (set xs)) ts ts'"
      using wq_requeue_effect [OF assms(1,2) that] by simp_all
    have "by_priority ts' ?xs"
      unfolding links_changed_prio [OF e(2)] by (rule place_before_sorted [OF assms(3)]) auto
    with e(1) place_below_filter(2) [OF assms(3), of oid] show ?thesis
      by (intro exI [of _ ?xs]) simp
  qed
  show ?thesis
    using 1 2 3 by blast
qed

theorem wait_queue_leave_correct_witness:
  "\<exists>q ts. wq_enqueue wait_queue_EMPTY example_threads (ObjectId 0 1) = (Inr (), q, ts) \<and>
     fst (wq_dequeue_front q ts) = Some (ObjectId 0 1)"
proof -
  obtain r q ts where run: "wq_enqueue wait_queue_EMPTY example_threads (ObjectId 0 1) = (r, q, ts)"
    by (metis surj_pair)
  have "\<not> enqueue_refused example_threads wait_queue_EMPTY (ObjectId 0 1) e" for e
    by (simp add: enqueue_refused_def example_threads_pool example_thread_fields wait_queue_EMPTY_def)
  then have q: "r = Inr ()" "wq_holds ts q [ObjectId 0 1]" "pool_inv ts"
    using wq_enqueue_effect [OF example_threads_pool(1) wq_holds_empty run] example_threads_pool(1)
    by (cases r; auto simp: place_before_def links_changed_def)+
  obtain x q' ts' where "wq_dequeue_front q ts = (x, q', ts')"
    by (metis surj_pair)
  with wait_queue_leave_correct [OF q(3,2), of x q' ts'] run q(1) show ?thesis
    by simp
qed

end
