(* ===== verification/HandleTable.thy ===== *)
theory HandleTable
  imports Objects Chains
begin

text \<open>
  The handle slots of the machine, \<open>src/crates/kernel/objects/src/handle_table.rs\<close>: one arena shared
  by all processes, with the list of each process threaded through the slots it owns. \<open>HandleArena<N>\<close>
  is \<open>handle_arena\<close> with \<open>N\<close> the length of the slot array; the operations that take
  \<open>&mut HandleList\<close> return the list and the arena. The iterator \<open>Handles\<close> is its step
  \<open>handles_next\<close>, and the list it yields is \<open>handles_of\<close>, a partial function because the iterator has
  no bound of its own.

  The lemmas read an arena as a pool of occupants (\<open>arena_pool\<close>): inserting a handle allocates from
  that pool and closing one releases to it, so the free list, the generations and the staleness of
  closed handles follow from the theory \<open>Pool\<close>. \<open>hl_holds\<close> relates the list of a process to the slots
  it threads; with it come the isolation of the processes, that a duplicate never gains a right, and
  that closing handle after handle visits every handle of a process once.
\<close>

section \<open>Slots\<close>

record entry =
  en_object :: any_object_id
  en_rights :: rights
  en_badge :: u64

definition entry_new :: "any_object_id \<Rightarrow> rights \<Rightarrow> entry" where
  "entry_new object rights = \<lparr>en_object = object, en_rights = rights, en_badge = 0\<rparr>"

definition entry_with_badge :: "entry \<Rightarrow> u64 \<Rightarrow> entry" where
  "entry_with_badge e badge = e\<lparr>en_badge := badge\<rparr>"

definition entry_object_type :: "entry \<Rightarrow> object_type" where
  "entry_object_type e = ao_type (en_object e)"

record handle_occupant =
  ho_owner :: object_id
  ho_entry :: entry
  ho_previous :: link
  ho_next :: link

record handle_slot =
  hs_generation :: u32
  hs_next_free :: link
  hs_occupant :: "handle_occupant option"

definition handle_slot_FREE :: handle_slot where
  "handle_slot_FREE = \<lparr>hs_generation = 0, hs_next_free = link_NONE, hs_occupant = None\<rparr>"

record handle_arena =
  ha_slots :: "handle_slot list"
  ha_free_head :: link
  ha_free_tail :: link
  ha_high_water :: u32
  ha_live :: u32

definition handle_arena_new :: "nat \<Rightarrow> handle_arena" where
  "handle_arena_new n = \<lparr>ha_slots = replicate n handle_slot_FREE, ha_free_head = link_NONE,
     ha_free_tail = link_NONE, ha_high_water = 0, ha_live = 0\<rparr>"

definition arena_capacity :: "handle_arena \<Rightarrow> u32" where
  "arena_capacity a = (if length (ha_slots a) < 2 ^ 32 then of_nat (length (ha_slots a)) else - 1)"

definition arena_is_empty :: "handle_arena \<Rightarrow> bool" where
  "arena_is_empty a = (ha_live a = 0)"

definition arena_slot :: "handle_arena \<Rightarrow> u32 \<Rightarrow> handle_slot option" where
  "arena_slot a index = array_get (ha_slots a) (unat index)"

text \<open>A write through the reference that \<open>slot_mut\<close> returns.\<close>

definition arena_slot_mut :: "handle_arena \<Rightarrow> u32 \<Rightarrow> (handle_slot \<Rightarrow> handle_slot) \<Rightarrow> handle_arena" where
  "arena_slot_mut a index change =
     (case arena_slot a index of
        None \<Rightarrow> a
      | Some slot \<Rightarrow> a\<lparr>ha_slots := array_set (ha_slots a) (unat index) (change slot)\<rparr>)"

definition arena_occupant_at :: "handle_arena \<Rightarrow> u32 \<Rightarrow> handle_occupant option" where
  "arena_occupant_at a index = Option.bind (arena_slot a index) hs_occupant"

definition arena_occupant_mut_at ::
  "handle_arena \<Rightarrow> u32 \<Rightarrow> (handle_occupant \<Rightarrow> handle_occupant) \<Rightarrow> handle_arena" where
  "arena_occupant_mut_at a index change =
     arena_slot_mut a index (\<lambda>slot. slot\<lparr>hs_occupant := map_option change (hs_occupant slot)\<rparr>)"

section \<open>The free list\<close>

definition arena_take_free_slot :: "handle_arena \<Rightarrow> u32 option \<times> handle_arena" where
  "arena_take_free_slot a =
     (case link_index (ha_free_head a) of
        Some index \<Rightarrow>
          let next_free = (case arena_slot a index of None \<Rightarrow> link_NONE | Some slot \<Rightarrow> hs_next_free slot);
              a = a\<lparr>ha_free_head := next_free\<rparr>;
              a = (if link_is_none next_free then a\<lparr>ha_free_tail := link_NONE\<rparr> else a)
          in (Some index, a)
      | None \<Rightarrow>
          if unat (ha_high_water a) < length (ha_slots a)
          then (Some (ha_high_water a), a\<lparr>ha_high_water := saturating_add (ha_high_water a) 1\<rparr>)
          else (None, a))"

definition arena_put_free_slot :: "handle_arena \<Rightarrow> u32 \<Rightarrow> handle_arena" where
  "arena_put_free_slot a index =
     (let a = arena_slot_mut a index (\<lambda>slot. slot\<lparr>hs_next_free := link_NONE\<rparr>);
          a = (case link_index (ha_free_tail a) of
                 Some tail \<Rightarrow> arena_slot_mut a tail (\<lambda>slot. slot\<lparr>hs_next_free := link_to index\<rparr>)
               | None \<Rightarrow> a\<lparr>ha_free_head := link_to index\<rparr>)
      in a\<lparr>ha_free_tail := link_to index\<rparr>)"

section \<open>Handles\<close>

definition arena_insert ::
  "handle_arena \<Rightarrow> object_id \<Rightarrow> handle_list \<Rightarrow> entry \<Rightarrow> (error + handle) \<times> handle_list \<times> handle_arena" where
  "arena_insert a process list entry =
     (if hl_capacity list \<le> hl_count list then (Inl QuotaExceeded, list, a)
      else case arena_take_free_slot a of
        (None, a) \<Rightarrow> (Inl OutOfHandles, list, a)
      | (Some index, a) \<Rightarrow>
          let head = hl_head list
          in case arena_slot a index of
               None \<Rightarrow> (Inl OutOfHandles, list, a)
             | Some slot \<Rightarrow>
                 let generation = next_generation (hs_generation slot);
                     a = arena_slot_mut a index (\<lambda>slot. slot\<lparr>hs_generation := generation,
                       hs_next_free := link_NONE, hs_occupant := Some \<lparr>ho_owner = process,
                         ho_entry = entry, ho_previous = link_NONE, ho_next = head\<rparr>\<rparr>);
                     a = (case link_index head of
                            Some old_head \<Rightarrow> arena_occupant_mut_at a old_head
                              (\<lambda>occupant. occupant\<lparr>ho_previous := link_to index\<rparr>)
                          | None \<Rightarrow> a);
                     list = list\<lparr>hl_head := link_to index, hl_count := saturating_add (hl_count list) 1\<rparr>;
                     a = a\<lparr>ha_live := saturating_add (ha_live a) 1\<rparr>
                 in (ok_or (handle_new index generation) OutOfHandles, list, a))"

definition arena_resolve :: "handle_arena \<Rightarrow> object_id \<Rightarrow> handle \<Rightarrow> error + u32" where
  "arena_resolve a process handle =
     (let index = handle_index handle
      in try_result (ok_or (arena_slot a index) InvalidHandle) (\<lambda>slot.
           if hs_generation slot \<noteq> handle_generation handle then Inl InvalidHandle
           else try_result (ok_or (hs_occupant slot) InvalidHandle) (\<lambda>occupant.
             if ho_owner occupant \<noteq> process then Inl InvalidHandle else Inr index)))"

definition arena_lookup :: "handle_arena \<Rightarrow> object_id \<Rightarrow> handle \<Rightarrow> error + entry" where
  "arena_lookup a process handle =
     try_result (arena_resolve a process handle) (\<lambda>index.
       ok_or (map_option ho_entry (arena_occupant_at a index)) InvalidHandle)"

text \<open>A write through the reference that \<open>lookup_mut\<close> returns.\<close>

definition arena_lookup_mut ::
  "handle_arena \<Rightarrow> object_id \<Rightarrow> handle \<Rightarrow> (entry \<Rightarrow> entry) \<Rightarrow> (error + unit) \<times> handle_arena" where
  "arena_lookup_mut a process handle change =
     (case arena_resolve a process handle of
        Inl e \<Rightarrow> (Inl e, a)
      | Inr index \<Rightarrow>
          (case arena_occupant_at a index of
             None \<Rightarrow> (Inl InvalidHandle, a)
           | Some _ \<Rightarrow> (Inr (), arena_occupant_mut_at a index (ho_entry_update change))))"

definition arena_duplicate ::
  "handle_arena \<Rightarrow> object_id \<Rightarrow> handle_list \<Rightarrow> handle \<Rightarrow> rights \<Rightarrow>
   (error + handle) \<times> handle_list \<times> handle_arena" where
  "arena_duplicate a process list handle rights =
     (case arena_lookup a process handle of
        Inl e \<Rightarrow> (Inl e, list, a)
      | Inr original \<Rightarrow>
          if \<not> rights_contains (en_rights original) RIGHT_DUPLICATE then (Inl AccessDenied, list, a)
          else if \<not> rights_is_subset_of rights (en_rights original) then (Inl AccessDenied, list, a)
          else arena_insert a process list
            \<lparr>en_object = en_object original, en_rights = rights, en_badge = en_badge original\<rparr>)"

definition arena_detach ::
  "handle_arena \<Rightarrow> u32 \<Rightarrow> handle_list \<Rightarrow> entry option \<times> handle_list \<times> handle_arena" where
  "arena_detach a index list =
     (case arena_occupant_at a index of
        None \<Rightarrow> (None, list, a)
      | Some occupant \<Rightarrow>
          let a = arena_slot_mut a index (\<lambda>slot. slot\<lparr>hs_occupant := None\<rparr>);
              a = (case link_index (ho_previous occupant) of
                     Some previous \<Rightarrow> arena_occupant_mut_at a previous
                       (\<lambda>before. before\<lparr>ho_next := ho_next occupant\<rparr>)
                   | None \<Rightarrow> a);
              a = (case link_index (ho_next occupant) of
                     Some nxt \<Rightarrow> arena_occupant_mut_at a nxt
                       (\<lambda>after. after\<lparr>ho_previous := ho_previous occupant\<rparr>)
                   | None \<Rightarrow> a);
              list = (if link_is_none (ho_previous occupant)
                      then list\<lparr>hl_head := ho_next occupant\<rparr> else list);
              list = list\<lparr>hl_count := saturating_sub (hl_count list) 1\<rparr>;
              a = a\<lparr>ha_live := saturating_sub (ha_live a) 1\<rparr>;
              a = arena_put_free_slot a index
          in (Some (ho_entry occupant), list, a))"

definition arena_close ::
  "handle_arena \<Rightarrow> object_id \<Rightarrow> handle_list \<Rightarrow> handle \<Rightarrow> (error + entry) \<times> handle_list \<times> handle_arena" where
  "arena_close a process list handle =
     (case arena_resolve a process handle of
        Inl e \<Rightarrow> (Inl e, list, a)
      | Inr index \<Rightarrow>
          (case arena_detach a index list of
             (entry, list, a) \<Rightarrow> (ok_or entry InvalidHandle, list, a)))"

definition arena_close_next ::
  "handle_arena \<Rightarrow> handle_list \<Rightarrow> entry option \<times> handle_list \<times> handle_arena" where
  "arena_close_next a list =
     (case link_index (hl_head list) of
        None \<Rightarrow> (None, list, a)
      | Some index \<Rightarrow>
          (case arena_detach a index list of
             (Some entry, list, a) \<Rightarrow> (Some entry, list, a)
           | (None, list, a) \<Rightarrow> (None, list\<lparr>hl_head := link_NONE, hl_count := 0\<rparr>, a)))"

text \<open>One step of the iterator \<open>Handles\<close>: the item it yields and the link it moves to.\<close>

definition handles_next :: "handle_arena \<Rightarrow> link \<Rightarrow> ((handle \<times> entry) \<times> link) option" where
  "handles_next a nxt =
     Option.bind (link_index nxt) (\<lambda>index.
     Option.bind (arena_slot a index) (\<lambda>slot.
     Option.bind (hs_occupant slot) (\<lambda>occupant.
     Option.bind (handle_new index (hs_generation slot)) (\<lambda>handle.
       Some ((handle, ho_entry occupant), ho_next occupant)))))"

partial_function (option) handles_from :: "handle_arena \<Rightarrow> link \<Rightarrow> (handle \<times> entry) list option" where
  "handles_from a nxt =
     (case handles_next a nxt of
        None \<Rightarrow> Some []
      | Some (item, nxt) \<Rightarrow>
          Option.bind (handles_from a nxt) (\<lambda>items. Some (item # items)))"

definition handles_of :: "handle_arena \<Rightarrow> handle_list \<Rightarrow> (handle \<times> entry) list option" where
  "handles_of a list = handles_from a (hl_head list)"

section \<open>An arena is a pool of occupants\<close>

definition slot_view :: "handle_slot \<Rightarrow> handle_occupant slot" where
  "slot_view s = \<lparr>sl_generation = hs_generation s, sl_next_free = link_index (hs_next_free s),
     sl_occupancy = (case hs_occupant s of None \<Rightarrow> Free | Some oc \<Rightarrow> Held \<lparr>oc_refs = 1, oc_value = oc\<rparr>)\<rparr>"

definition arena_pool :: "handle_arena \<Rightarrow> handle_occupant pool" where
  "arena_pool a = \<lparr>pl_slots = map slot_view (ha_slots a), pl_free_head = link_index (ha_free_head a),
     pl_free_tail = link_index (ha_free_tail a), pl_high_water = ha_high_water a, pl_live = ha_live a\<rparr>"

definition arena_inv :: "handle_arena \<Rightarrow> bool" where
  "arena_inv a = pool_inv (arena_pool a)"

text \<open>The id of a slot with the generation it has now.\<close>

definition slot_id :: "handle_arena \<Rightarrow> u32 \<Rightarrow> object_id" where
  "slot_id a i = ObjectId i (pool_generation (arena_pool a) i)"

lemma arena_pool_slot: "pool_slot (arena_pool a) i = map_option slot_view (arena_slot a i)"
  by (simp add: pool_slot_def arena_slot_def arena_pool_def array_get_def)

lemma arena_pool_updates [simp]:
  "arena_pool (a\<lparr>ha_live := n\<rparr>) = (arena_pool a)\<lparr>pl_live := n\<rparr>"
  "arena_pool (a\<lparr>ha_free_head := l\<rparr>) = (arena_pool a)\<lparr>pl_free_head := link_index l\<rparr>"
  "arena_pool (a\<lparr>ha_free_tail := l\<rparr>) = (arena_pool a)\<lparr>pl_free_tail := link_index l\<rparr>"
  "arena_pool (a\<lparr>ha_high_water := n\<rparr>) = (arena_pool a)\<lparr>pl_high_water := n\<rparr>"
  "pl_free_head (arena_pool a) = link_index (ha_free_head a)"
  "pl_free_tail (arena_pool a) = link_index (ha_free_tail a)"
  "pl_high_water (arena_pool a) = ha_high_water a" "pl_live (arena_pool a) = ha_live a"
  "length (pl_slots (arena_pool a)) = length (ha_slots a)"
  by (simp_all add: arena_pool_def)

lemma slot_view_fields [simp]:
  "sl_generation (slot_view s) = hs_generation s"
  "sl_next_free (slot_view s) = link_index (hs_next_free s)"
  "sl_occupancy (slot_view s) = (case hs_occupant s of None \<Rightarrow> Free | Some oc \<Rightarrow> Held \<lparr>oc_refs = 1, oc_value = oc\<rparr>)"
  by (simp_all add: slot_view_def)

lemma arena_pool_slot_mut:
  "arena_pool (arena_slot_mut a i f) = (case arena_slot a i of
     None \<Rightarrow> arena_pool a | Some s \<Rightarrow> pool_set_slot (arena_pool a) i (slot_view (f s)))"
  by (auto simp: arena_slot_mut_def pool_set_slot_def arena_pool_def array_set_def map_update
      split: option.splits)

lemma pool_map_slot_id:
  "pool_map (arena_pool a) (slot_id a i) = arena_occupant_at a i"
  by (auto simp: pool_map_def pool_get_def pool_occupant_def slot_id_def pool_generation_def
      arena_pool_slot arena_occupant_at_def ok_or_def split: option.splits)

lemma arena_pool_occupant_mut:
  "arena_pool (arena_occupant_mut_at a i f) = pool_modify (arena_pool a) (slot_id a i) f"
proof (cases "arena_slot a i")
  case None
  then show ?thesis
    by (simp add: arena_occupant_mut_at_def arena_pool_slot_mut pool_map_slot_id arena_occupant_at_def)
next
  case (Some s)
  show ?thesis
  proof (cases "hs_occupant s")
    case None
    then have "slot_view (s\<lparr>hs_occupant := None\<rparr>) = slot_view s"
      by (simp add: slot_view_def)
    moreover have "pool_set_slot p i s' = p" if "pool_slot p i = Some s'" for p :: "handle_occupant pool" and s'
      using that by (auto simp: pool_set_slot_def pool_slot_def array_get_def array_set_def split: if_splits)
    ultimately show ?thesis
      using Some None pool_map_slot_id [of a i]
      by (simp add: arena_occupant_mut_at_def arena_pool_slot_mut arena_occupant_at_def arena_pool_slot)
  next
    case oc: (Some oc)
    then show ?thesis
      using Some
      by (simp add: arena_occupant_mut_at_def arena_pool_slot_mut pool_modify_def pool_get_mut_def
          pool_occupant_mut_def slot_id_def pool_generation_def arena_pool_slot)
        (simp add: slot_view_def)
  qed
qed

lemma arena_take_free_slot_pool:
  "arena_take_free_slot a = (r, a') \<Longrightarrow>
   pool_take_free_slot (arena_pool a) = (case r of None \<Rightarrow> Inl Exhausted | Some i \<Rightarrow> Inr i, arena_pool a')"
  by (auto simp: arena_take_free_slot_def pool_take_free_slot_def Let_def arena_pool_slot
      link_index_None [symmetric] split: option.splits if_splits)

lemma arena_slot_mut_slot:
  "arena_slot (arena_slot_mut a i f) j = (if j = i then map_option f (arena_slot a i) else arena_slot a j)"
  by (auto simp: arena_slot_mut_def arena_slot_def array_get_def array_set_def split: option.splits if_splits)

lemma pool_modify_live: "pool_modify (p\<lparr>pl_live := n\<rparr>) k f = (pool_modify p k f)\<lparr>pl_live := n\<rparr>"
  by (auto simp: pool_modify_def pool_get_mut_def pool_occupant_mut_def pool_slot_def pool_set_slot_def
      array_get_def split: option.splits occupancy.splits if_splits)

text \<open>The occupant of a new handle: it becomes the first of its owner's list.\<close>

abbreviation new_occupant :: "object_id \<Rightarrow> handle_list \<Rightarrow> entry \<Rightarrow> handle_occupant" where
  "new_occupant p l e \<equiv>
     \<lparr>ho_owner = p, ho_entry = e, ho_previous = link_NONE, ho_next = hl_head l\<rparr>"

lemma arena_insert_full:
  assumes "pool_allocate (arena_pool a) (new_occupant p l e) = (Inl x, P)" and "arena_inv a"
    and "\<not> hl_capacity l \<le> hl_count l"
  shows "\<exists>a'. arena_insert a p l e = (Inl OutOfHandles, l, a') \<and> arena_pool a' = arena_pool a"
proof -
  obtain r a' where t: "arena_take_free_slot a = (r, a')" by (metis surj_pair)
  note T = arena_take_free_slot_pool [OF t]
  obtain fl where wf: "pool_wf (arena_pool a) fl" using assms(2) by (auto simp: arena_inv_def pool_inv_wf)
  have P: "P = arena_pool a"
    using assms(1) by (cases rule: pool_allocate_cases [OF wf, of "new_occupant p l e"]) auto
  show ?thesis
  proof (cases r)
    case None
    with T assms(1,3) t P show ?thesis
      by (simp add: arena_insert_def pool_allocate_def try_state_def)
  next
    case (Some i)
    with T assms(1,3) t P show ?thesis
      by (auto simp: arena_insert_def pool_allocate_def try_state_def arena_pool_slot Let_def
          split: option.splits)
  qed
qed

lemma arena_insert_slot:
  assumes "pool_allocate (arena_pool a) (new_occupant p l e) = (Inr oid, P)"
    and "\<not> hl_capacity l \<le> hl_count l"
  shows "\<exists>a' h. arena_insert a p l e =
      (Inr h, l\<lparr>hl_head := link_to (oid_index oid), hl_count := saturating_add (hl_count l) 1\<rparr>, a') \<and>
    handle_new (oid_index oid) (oid_generation oid) = Some h \<and>
    arena_pool a' = (case link_index (hl_head l) of
       None \<Rightarrow> P
     | Some j \<Rightarrow> pool_modify P (ObjectId j (pool_generation P j))
         (\<lambda>oc. oc\<lparr>ho_previous := link_to (oid_index oid)\<rparr>))"
proof -
  obtain r b where t: "arena_take_free_slot a = (r, b)" by (metis surj_pair)
  note T = arena_take_free_slot_pool [OF t]
  obtain i s where i: "r = Some i" "arena_slot b i = Some s"
    using T assms(1) by (auto simp: pool_allocate_def try_state_def arena_pool_slot split: option.splits)
  let ?g = "next_generation (hs_generation s)"
  have oid: "oid = ObjectId i ?g"
    using T assms(1) i by (simp add: pool_allocate_def try_state_def arena_pool_slot Let_def)
  define c where "c = arena_slot_mut b i (\<lambda>s. s\<lparr>hs_generation := ?g, hs_next_free := link_NONE,
    hs_occupant := Some (new_occupant p l e)\<rparr>)"
  have P: "P = (arena_pool c)\<lparr>pl_live := saturating_add (ha_live b) 1\<rparr>"
    using T assms(1) i by (simp add: pool_allocate_def try_state_def arena_pool_slot Let_def c_def
        arena_pool_slot_mut slot_view_def pool_set_slot_def)
  obtain h where h: "handle_new i ?g = Some h"
    using handle_new_total [of ?g i] by auto
  have live: "ha_live c = ha_live b"
    by (simp add: c_def arena_slot_mut_def split: option.splits)
  define d where "d = (case link_index (hl_head l) of
      Some j \<Rightarrow> arena_occupant_mut_at c j (\<lambda>oc. oc\<lparr>ho_previous := link_to i\<rparr>) | None \<Rightarrow> c)"
  have "ha_live d = ha_live c"
    by (simp add: d_def arena_occupant_mut_at_def arena_slot_mut_def split: option.splits)
  have "arena_insert a p l e = (Inr h, l\<lparr>hl_head := link_to i, hl_count := saturating_add (hl_count l) 1\<rparr>,
      d\<lparr>ha_live := saturating_add (ha_live d) 1\<rparr>)"
    unfolding d_def c_def using assms(2) t i h
    by (simp add: arena_insert_def Let_def ok_or_def)
  moreover have "arena_pool (d\<lparr>ha_live := saturating_add (ha_live d) 1\<rparr>) = (case link_index (hl_head l) of
       None \<Rightarrow> P
     | Some j \<Rightarrow> pool_modify P (ObjectId j (pool_generation P j)) (\<lambda>oc. oc\<lparr>ho_previous := link_to i\<rparr>))"
    using live \<open>ha_live d = ha_live c\<close>
    by (auto simp: P d_def arena_pool_occupant_mut pool_modify_live slot_id_def pool_generation_def
        pool_slot_def split: option.splits)
  ultimately show ?thesis
    unfolding oid object_id.sel using h by blast
qed


text \<open>
  Detaching a slot: the two neighbours are written first here, which is the same because they are
  other slots; then the occupant is released.
\<close>

lemma arena_slot_mut_commute:
  "i \<noteq> j \<Longrightarrow> arena_slot_mut (arena_slot_mut a i f) j g = arena_slot_mut (arena_slot_mut a j g) i f"
  by (auto simp: arena_slot_mut_def arena_slot_def array_get_def array_set_def list_update_swap
      split: option.splits if_splits)

definition relinked :: "handle_arena \<Rightarrow> handle_occupant \<Rightarrow> handle_arena" where
  "relinked a oc =
     (let a = (case link_index (ho_previous oc) of
            Some k \<Rightarrow> arena_occupant_mut_at a k (\<lambda>x. x\<lparr>ho_next := ho_next oc\<rparr>) | None \<Rightarrow> a)
      in case link_index (ho_next oc) of
            Some k \<Rightarrow> arena_occupant_mut_at a k (\<lambda>x. x\<lparr>ho_previous := ho_previous oc\<rparr>) | None \<Rightarrow> a)"

lemma relinked_commute:
  assumes "link_index (ho_previous oc) \<noteq> Some i" "link_index (ho_next oc) \<noteq> Some i"
  shows "relinked (arena_slot_mut a i f) oc = arena_slot_mut (relinked a oc) i f"
  using assms by (auto simp: relinked_def Let_def arena_occupant_mut_at_def arena_slot_mut_commute
      split: option.splits)

lemma relinked_fields [simp]:
  "ha_live (relinked a oc) = ha_live a" "ha_free_head (relinked a oc) = ha_free_head a"
  "ha_free_tail (relinked a oc) = ha_free_tail a" "ha_high_water (relinked a oc) = ha_high_water a"
  "length (ha_slots (relinked a oc)) = length (ha_slots a)"
  by (auto simp: relinked_def Let_def arena_occupant_mut_at_def arena_slot_mut_def split: option.splits)

lemma relinked_slot:
  assumes "link_index (ho_previous oc) \<noteq> Some i" "link_index (ho_next oc) \<noteq> Some i"
  shows "arena_slot (relinked a oc) i = arena_slot a i"
  using assms by (auto simp: relinked_def Let_def arena_occupant_mut_at_def arena_slot_mut_slot
      split: option.splits)

lemma arena_slot_mut_twice:
  "arena_slot_mut (arena_slot_mut a i f) i g = arena_slot_mut a i (\<lambda>s. g (f s))"
  by (auto simp: arena_slot_mut_def arena_slot_def array_get_def array_set_def split: option.splits if_splits)

lemma arena_slot_mut_live: "(arena_slot_mut a i f)\<lparr>ha_live := n\<rparr> = arena_slot_mut (a\<lparr>ha_live := n\<rparr>) i f"
  by (auto simp: arena_slot_mut_def arena_slot_def array_get_def split: option.splits if_splits)

lemma arena_slot_mut_fields [simp]:
  "ha_live (arena_slot_mut a i f) = ha_live a" "ha_free_head (arena_slot_mut a i f) = ha_free_head a"
  "ha_free_tail (arena_slot_mut a i f) = ha_free_tail a"
  by (simp_all add: arena_slot_mut_def split: option.splits)

lemma arena_put_free_pool:
  assumes "i \<noteq> - 1"
  shows "arena_pool (arena_put_free_slot a i) =
    (let p = arena_pool (arena_slot_mut a i (\<lambda>s. s\<lparr>hs_next_free := link_NONE\<rparr>))
     in (case pl_free_tail p of
           Some t \<Rightarrow> pool_link_free p t i
         | None \<Rightarrow> p\<lparr>pl_free_head := Some i\<rparr>)\<lparr>pl_free_tail := Some i\<rparr>)"
proof -
  have view: "slot_view (s\<lparr>hs_next_free := link_to i\<rparr>) = (slot_view s)\<lparr>sl_next_free := Some i\<rparr>" for s
    using assms by (simp add: slot_view_def)
  have "arena_pool (arena_slot_mut b t (\<lambda>s. s\<lparr>hs_next_free := link_to i\<rparr>)) = pool_link_free (arena_pool b) t i"
    for b t
    by (simp add: arena_pool_slot_mut pool_link_free_def arena_pool_slot view split: option.splits)
  then show ?thesis
    using assms by (simp add: arena_put_free_slot_def Let_def split: option.splits)
qed

lemma arena_detach_pool:
  assumes oc: "arena_occupant_at a i = Some oc" and i: "i \<noteq> - 1"
    and nb: "link_index (ho_previous oc) \<noteq> Some i" "link_index (ho_next oc) \<noteq> Some i"
  shows "\<exists>a'. arena_detach a i l = (Some (ho_entry oc),
      l\<lparr>hl_head := if link_is_none (ho_previous oc) then ho_next oc else hl_head l,
        hl_count := saturating_sub (hl_count l) 1\<rparr>, a') \<and>
    pool_release (arena_pool (relinked a oc)) (slot_id a i) = (Inr True, arena_pool a')"
proof -
  define b where "b = relinked (arena_slot_mut a i (\<lambda>s. s\<lparr>hs_occupant := None\<rparr>)) oc"
  have b: "b = arena_slot_mut (relinked a oc) i (\<lambda>s. s\<lparr>hs_occupant := None\<rparr>)"
    unfolding b_def by (rule relinked_commute [OF nb])
  obtain s where s: "arena_slot a i = Some s" "hs_occupant s = Some oc"
    using oc by (auto simp: arena_occupant_at_def bind_eq_Some_conv)
  have sr: "arena_slot (relinked a oc) i = Some s"
    using relinked_slot [OF nb] s by simp
  let ?a' = "arena_put_free_slot (b\<lparr>ha_live := saturating_sub (ha_live b) 1\<rparr>) i"
  have "arena_detach a i l = (Some (ho_entry oc),
      l\<lparr>hl_head := if link_is_none (ho_previous oc) then ho_next oc else hl_head l,
        hl_count := saturating_sub (hl_count l) 1\<rparr>, ?a')"
    by (simp add: arena_detach_def oc b_def relinked_def Let_def)
  moreover have "pool_release (arena_pool (relinked a oc)) (slot_id a i) = (Inr True, arena_pool ?a')"
  proof -
    let ?p = "arena_pool (relinked a oc)"
    have gen: "pool_generation (arena_pool a) i = hs_generation s"
      by (simp add: pool_generation_def arena_pool_slot s)
    have slot: "pool_slot ?p i = Some (slot_view s)"
      by (simp add: arena_pool_slot sr)
    define c where "c = arena_slot_mut ((relinked a oc)\<lparr>ha_live := saturating_sub (ha_live a) 1\<rparr>) i
      (\<lambda>s. s\<lparr>hs_occupant := None, hs_next_free := link_NONE\<rparr>)"
    have "arena_slot_mut (b\<lparr>ha_live := saturating_sub (ha_live b) 1\<rparr>) i (\<lambda>s. s\<lparr>hs_next_free := link_NONE\<rparr>) = c"
      by (simp add: b c_def arena_slot_mut_live arena_slot_mut_twice)
    moreover have "arena_pool c = (pool_set_slot ?p i
        ((slot_view s)\<lparr>sl_occupancy := Free, sl_next_free := None\<rparr>))\<lparr>pl_live := saturating_sub (ha_live a) 1\<rparr>"
      using sr by (simp add: c_def arena_pool_slot_mut arena_slot_def slot_view_def pool_set_slot_def)
    ultimately show ?thesis
      by (simp add: arena_put_free_pool [OF i] pool_release_def pool_occupant_def slot_id_def gen slot s(2)
          occupancy_clear_def Let_def split: option.splits)
  qed
  ultimately show ?thesis by blast
qed

section \<open>The lists of the processes\<close>

definition arena_next :: "handle_arena \<Rightarrow> u32 \<Rightarrow> u32 option" where
  "arena_next a i = Option.bind (arena_occupant_at a i) (\<lambda>oc. link_index (ho_next oc))"

definition arena_prev :: "handle_arena \<Rightarrow> u32 \<Rightarrow> u32 option" where
  "arena_prev a i = Option.bind (arena_occupant_at a i) (\<lambda>oc. link_index (ho_previous oc))"

definition owned :: "handle_arena \<Rightarrow> object_id \<Rightarrow> u32 \<Rightarrow> bool" where
  "owned a p i \<longleftrightarrow> (\<exists>oc. arena_occupant_at a i = Some oc \<and> ho_owner oc = p)"

definition hl_holds :: "handle_arena \<Rightarrow> object_id \<Rightarrow> handle_list \<Rightarrow> u32 list \<Rightarrow> bool" where
  "hl_holds a p l xs \<longleftrightarrow>
     queue_list (arena_next a) (arena_prev a) (link_index (hl_head l)) (opt_last xs) xs \<and>
     (\<forall>i. i \<in> set xs \<longleftrightarrow> owned a p i) \<and>
     unat (hl_count l) = length xs \<and> hl_count l \<le> hl_capacity l"

text \<open>The occupants of an arena by slot, from the pool that the arena stands for.\<close>

lemma occupant_at_modify:
  assumes "arena_pool a' = pool_modify P (ObjectId j (pool_generation P j)) f"
    and "\<And>i. occ i = pool_map P (ObjectId i (pool_generation P i))"
  shows "arena_occupant_at a' = occ(j := map_option f (occ j))"
proof
  fix i
  have "arena_occupant_at a' i = pool_map (arena_pool a') (ObjectId i (pool_generation P i))"
    using pool_map_slot_id [of a' i] by (simp add: slot_id_def assms(1))
  then show "arena_occupant_at a' i = (occ(j := map_option f (occ j))) i"
    by (auto simp: assms pool_map_modify split: option.splits)
qed

lemma occupant_at_pool:
  "arena_occupant_at a i = pool_map (arena_pool a) (ObjectId i (pool_generation (arena_pool a) i))"
  using pool_map_slot_id [of a i] by (simp add: slot_id_def)

lemma occupant_in_range:
  assumes "arena_inv a" and "arena_occupant_at a i \<noteq> None"
  shows "i \<noteq> - 1"
proof -
  have "unat i < length (ha_slots a)"
    using assms(2) by (auto simp: arena_occupant_at_def arena_slot_def array_get_def split: if_splits)
  moreover have "length (ha_slots a) < 2 ^ 32"
    using assms(1) pool_wfD(1) by (force simp: arena_inv_def pool_inv_wf)
  ultimately have "unat i < 2 ^ 32 - 1" by simp
  then show ?thesis
    by (auto simp: unsigned_minus_1_eq_mask mask_eq_exp_minus_1)
qed

lemma arena_lookup_eq:
  "arena_lookup a p h = (case arena_occupant_at a (handle_index h) of
     None \<Rightarrow> Inl InvalidHandle
   | Some oc \<Rightarrow> if pool_generation (arena_pool a) (handle_index h) = handle_generation h \<and> ho_owner oc = p
       then Inr (ho_entry oc) else Inl InvalidHandle)"
  by (auto simp: arena_lookup_def arena_resolve_def arena_occupant_at_def pool_generation_def
      arena_pool_slot ok_or_def Let_def split: option.splits)

lemma arena_resolve_eq:
  "arena_resolve a p h = (case arena_lookup a p h of Inl e \<Rightarrow> Inl InvalidHandle | Inr _ \<Rightarrow> Inr (handle_index h))"
  by (auto simp: arena_lookup_def arena_resolve_def arena_occupant_at_def
      ok_or_def Let_def split: option.splits)

definition new_head :: "u32 \<Rightarrow> handle_list \<Rightarrow> handle_list" where
  "new_head i l = l\<lparr>hl_head := link_to i, hl_count := saturating_add (hl_count l) 1\<rparr>"

definition with_head :: "(u32 \<rightharpoonup> handle_occupant) \<Rightarrow> u32 \<Rightarrow> object_id \<Rightarrow> handle_list \<Rightarrow> entry \<Rightarrow> u32 \<rightharpoonup> handle_occupant" where
  "with_head occ i p l e = (let occ = occ(i \<mapsto> new_occupant p l e)
     in case link_index (hl_head l) of
          None \<Rightarrow> occ
        | Some j \<Rightarrow> occ(j := map_option (\<lambda>oc. oc\<lparr>ho_previous := link_to i\<rparr>) (occ j)))"

lemma arena_insert_cases:
  assumes inv: "arena_inv a" and run: "arena_insert a p l e = (r, l', a')"
  obtains (quota) "hl_capacity l \<le> hl_count l" "r = Inl QuotaExceeded" "l' = l" "a' = a"
  | (full) "hl_count l < hl_capacity l" "r = Inl OutOfHandles" "l' = l" "arena_pool a' = arena_pool a"
      "unat (ha_live a) = length (ha_slots a)"
  | (slot) i h where "hl_count l < hl_capacity l" "r = Inr h" "l' = new_head i l" "handle_index h = i"
      "handle_generation h = next_generation (pool_generation (arena_pool a) i)"
      "i \<noteq> - 1" "arena_occupant_at a i = None" "arena_inv a'"
      "pool_generation (arena_pool a') = (pool_generation (arena_pool a))(i := handle_generation h)"
      "arena_occupant_at a' = with_head (arena_occupant_at a) i p l e"
proof (cases "hl_capacity l \<le> hl_count l")
  case True
  then show thesis
    using run by (intro that(1)) (simp_all add: arena_insert_def)
next
  case False
  obtain fl where wf: "pool_wf (arena_pool a) fl" using inv by (auto simp: arena_inv_def pool_inv_wf)
  from wf show thesis
  proof (cases rule: pool_allocate_cases [where v = "new_occupant p l e"])
    case full: full
    then have "unat (ha_live a) = length (ha_slots a)"
      using next_slot_None [OF wf] pool_wfD(10) [OF wf] by simp
    with arena_insert_full [OF full(1) inv False] run False show thesis
      by (intro that(2)) simp_all
  next
    case (slot i P)
    let ?g = "next_generation (pool_generation (arena_pool a) i)"
    obtain h where h: "handle_new i ?g = Some h" "r = Inr h" "l' = new_head i l"
      and a': "arena_pool a' = (case link_index (hl_head l) of None \<Rightarrow> P
       | Some j \<Rightarrow> pool_modify P (ObjectId j (pool_generation P j)) (\<lambda>oc. oc\<lparr>ho_previous := link_to i\<rparr>))"
      using arena_insert_slot [OF slot(3) False] run unfolding object_id.sel by (auto simp: new_head_def)
    obtain s where s: "pool_slot (arena_pool a) i = Some s" "sl_occupancy s = Free"
      using next_slot_free [OF wf slot(1)] by blast
    have none: "arena_occupant_at a i = None"
      using pool_map_free_slot [of "arena_pool a" "slot_id a i"] s pool_map_slot_id [of a i]
      by (simp add: slot_free_def slot_id_def)
    have "unat i < length (ha_slots a)" "length (ha_slots a) < 2 ^ 32"
      using pool_slot_in_range [OF s(1)] pool_wfD(1) [OF wf] by simp_all
    then have "i \<noteq> - 1"
      by (auto simp: unsigned_minus_1_eq_mask mask_eq_exp_minus_1)
    have gen: "pool_generation (arena_pool a') = (pool_generation (arena_pool a))(i := ?g)"
      using slot(6) by (simp add: a' split: option.splits)
    have inv': "arena_inv a'"
      using pool_wf_inv [OF slot(2)] by (simp add: arena_inv_def a' pool_inv_modify split: option.splits)
    have occ: "((arena_occupant_at a)(i \<mapsto> new_occupant p l e)) k = pool_map P (ObjectId k (pool_generation P k))" for k
      by (simp add: slot(4,6) occupant_at_pool)
    have "arena_occupant_at a' = with_head (arena_occupant_at a) i p l e"
    proof (cases "link_index (hl_head l)")
      case None
      then show ?thesis
        using occ occupant_at_pool [of a'] by (simp add: with_head_def a' fun_eq_iff Let_def)
    next
      case (Some j)
      with a' have "arena_pool a' = pool_modify P (ObjectId j (pool_generation P j)) (\<lambda>oc. oc\<lparr>ho_previous := link_to i\<rparr>)"
        by simp
      from occupant_at_modify [where occ = "(arena_occupant_at a)(i \<mapsto> new_occupant p l e)", OF this occ]
      show ?thesis
        by (simp only: with_head_def Some Let_def option.case)
    qed
    then show thesis
      using h(2,3) handle_new_fields [OF h(1)] False \<open>i \<noteq> - 1\<close> none inv' gen by (intro that(3) [where i = i and h = h]) simp_all
  qed
qed

lemma hl_holdsD:
  assumes "hl_holds a p l xs"
  shows "queue_list (arena_next a) (arena_prev a) (link_index (hl_head l)) (opt_last xs) xs"
    "\<And>i. i \<in> set xs \<longleftrightarrow> owned a p i" "unat (hl_count l) = length xs" "hl_count l \<le> hl_capacity l"
    "distinct xs"
  using assms queue_listD(4) by (auto simp: hl_holds_def)

lemma hl_holds_cong:
  assumes "hl_holds a p l xs" and "\<And>i. i \<in> set xs \<Longrightarrow> arena_occupant_at a' i = arena_occupant_at a i"
    and "\<And>i. owned a' p i = owned a p i"
  shows "hl_holds a' p l xs"
  using assms by (auto simp: hl_holds_def arena_next_def arena_prev_def intro: queue_list_cong)

lemma with_head_apply:
  assumes "occ i = None" and "\<And>j. link_index (hl_head l) = Some j \<Longrightarrow> occ j \<noteq> None"
  shows "with_head occ i p l e k = (if k = i then Some (new_occupant p l e)
    else if link_index (hl_head l) = Some k then map_option (\<lambda>oc. oc\<lparr>ho_previous := link_to i\<rparr>) (occ k)
    else occ k)"
  using assms by (cases "link_index (hl_head l)") (auto simp: with_head_def Let_def)

lemma insert_lists:
  assumes l: "hl_holds a p l xs" and room: "hl_count l < hl_capacity l"
    and i: "i \<noteq> - 1" "arena_occupant_at a i = None"
    and a': "arena_occupant_at a' = with_head (arena_occupant_at a) i p l e"
  shows "hl_holds a' p (new_head i l) (i # xs)"
    and "hl_holds a q l2 ys \<Longrightarrow> q \<noteq> p \<Longrightarrow> hl_holds a' q l2 ys"
proof -
  note L = hl_holdsD [OF l]
  have head: "link_index (hl_head l) = opt_head xs"
    using queue_listD(1) [OF L(1)] .
  have live: "arena_occupant_at a j \<noteq> None" if "j \<in> set xs" for j
    using that L(2) by (auto simp: owned_def)
  have hd: "j \<in> set xs" if "link_index (hl_head l) = Some j" for j
    using that head by (metis opt_head_in)
  have occ: "arena_occupant_at a' k = (if k = i then Some (new_occupant p l e)
      else if link_index (hl_head l) = Some k
      then map_option (\<lambda>oc. oc\<lparr>ho_previous := link_to i\<rparr>) (arena_occupant_at a k) else arena_occupant_at a k)" for k
    unfolding a' by (rule with_head_apply) (use i hd live in auto)
  have out: "i \<notin> set xs" using i(2) live [of i] by auto
  have own: "owned a' r k \<longleftrightarrow> (if k = i then r = p else owned a r k)" for r k
    by (auto simp: owned_def occ)
  have "queue_list (arena_next a') (arena_prev a') (Some i) (opt_last (i # xs)) (i # xs)"
  proof (cases xs)
    case Nil
    then show ?thesis
      using head by (simp add: queue_list_def arena_next_def arena_prev_def occ)
  next
    case (Cons y ys)
    have q: "queue_list (arena_next a) (arena_prev a) (Some y) (opt_last xs) ([] @ y # ys)"
      using L(1) head Cons by simp
    have prev: "arena_prev a y = None" using queue_list_neighbours(1) [OF q] by simp
    have "queue_list ((arena_next a)(i := Some y)) ((arena_prev a)(i := None, y := Some i)) (Some i)
        (opt_last xs) (i # y # ys)"
      using queue_list_insert_before [OF q, of i] out Cons prev by simp
    moreover have "arena_next a' = (arena_next a)(i := Some y)"
      using head Cons live [of y]
      by (auto simp: fun_eq_iff arena_next_def occ map_option_case split: option.splits)
    moreover have "arena_prev a' = (arena_prev a)(i := None, y := Some i)"
      using head Cons live [of y] i(1) out
      by (auto simp: fun_eq_iff arena_prev_def occ map_option_case split: option.splits)
    ultimately show ?thesis
      by (simp add: Cons)
  qed
  moreover have "link_index (hl_head (new_head i l)) = Some i"
    using i(1) by (simp add: new_head_def)
  moreover have "unat (hl_count (new_head i l)) = Suc (length xs)"
      "hl_count (new_head i l) \<le> hl_capacity (new_head i l)"
    using L(3) room unat_less_size [of "hl_capacity l"]
    by (simp_all add: new_head_def word_less_nat_alt word_le_nat_alt)
  ultimately show "hl_holds a' p (new_head i l) (i # xs)"
    using L(2) by (simp add: hl_holds_def own)
  show "hl_holds a' q l2 ys" if "hl_holds a q l2 ys" "q \<noteq> p"
    using that hd L(2) i by (intro hl_holds_cong [OF that(1)]) (auto simp: own occ hl_holdsD(2) owned_def)
qed

text \<open>Detaching the slot of a handle.\<close>

lemma relinked_occupant:
  "arena_occupant_at (relinked a oc) k = map_option
     (\<lambda>x. let x = (if link_index (ho_previous oc) = Some k then x\<lparr>ho_next := ho_next oc\<rparr> else x)
          in if link_index (ho_next oc) = Some k then x\<lparr>ho_previous := ho_previous oc\<rparr> else x)
     (arena_occupant_at a k)"
proof -
  have upd: "arena_occupant_at (arena_occupant_mut_at b j f) k =
      (if k = j then map_option f (arena_occupant_at b k) else arena_occupant_at b k)" for b j f
    by (cases "arena_slot b j")
      (auto simp: arena_occupant_at_def arena_occupant_mut_at_def arena_slot_mut_slot)
  show ?thesis
    by (cases "arena_occupant_at a k") (auto simp: relinked_def Let_def upd split: option.splits)
qed

lemma relinked_inv: "arena_inv a \<Longrightarrow> arena_inv (relinked a oc)"
  "pool_generation (arena_pool (relinked a oc)) = pool_generation (arena_pool a)"
  by (auto simp: relinked_def Let_def arena_inv_def arena_pool_occupant_mut pool_inv_modify split: option.splits)

lemma detach_effect:
  assumes inv: "arena_inv a" and l: "hl_holds a p l xs" and i: "i \<in> set xs"
    and run: "arena_detach a i l = (r, l', a')"
  obtains oc where "arena_occupant_at a i = Some oc" "ho_owner oc = p" "r = Some (ho_entry oc)"
    "l' = l\<lparr>hl_head := if link_is_none (ho_previous oc) then ho_next oc else hl_head l,
        hl_count := saturating_sub (hl_count l) 1\<rparr>"
    "arena_inv a'" "pool_generation (arena_pool a') = pool_generation (arena_pool a)"
    "arena_occupant_at a' = (arena_occupant_at (relinked a oc))(i := None)"
proof -
  note L = hl_holdsD [OF l]
  obtain oc where oc: "arena_occupant_at a i = Some oc" "ho_owner oc = p"
    using L(2) i by (auto simp: owned_def)
  obtain ys zs where xs: "xs = ys @ i # zs" using i by (meson split_list)
  have "link_index (ho_previous oc) = opt_last ys" "link_index (ho_next oc) = opt_head zs"
    using queue_list_neighbours [OF L(1) [unfolded xs]] oc by (simp_all add: arena_prev_def arena_next_def)
  then have nb: "link_index (ho_previous oc) \<noteq> Some i" "link_index (ho_next oc) \<noteq> Some i"
    using L(5) xs opt_last_in [of ys i] opt_head_in [of zs i] by auto
  have "i \<noteq> - 1" using occupant_in_range [OF inv, of i] oc by simp
  from arena_detach_pool [OF oc(1) this nb, of l] run
  have e: "r = Some (ho_entry oc)" "l' = l\<lparr>hl_head := if link_is_none (ho_previous oc) then ho_next oc else hl_head l,
        hl_count := saturating_sub (hl_count l) 1\<rparr>"
    and rel: "pool_release (arena_pool (relinked a oc)) (slot_id a i) = (Inr True, arena_pool a')"
    by auto
  obtain fl where wf: "pool_wf (arena_pool (relinked a oc)) fl"
    using relinked_inv(1) [OF inv] by (auto simp: arena_inv_def pool_inv_wf)
  from wf have a': "arena_inv a'" "pool_generation (arena_pool a') = pool_generation (arena_pool (relinked a oc))"
      "pool_map (arena_pool a') = (pool_map (arena_pool (relinked a oc)))(slot_id a i := None)"
    using rel by (cases rule: pool_release_cases [where oid = "slot_id a i"];
        auto simp: arena_inv_def intro: pool_wf_inv)+
  have "arena_occupant_at a' = (arena_occupant_at (relinked a oc))(i := None)"
  proof
    fix k
    show "arena_occupant_at a' k = ((arena_occupant_at (relinked a oc))(i := None)) k"
      unfolding occupant_at_pool a'(2,3) by (simp add: slot_id_def relinked_inv(2))
  qed
  with that oc e a' show thesis by (simp add: relinked_inv(2))
qed

lemma detach_lists:
  assumes l: "hl_holds a p l xs" and i: "i \<in> set xs" and oc: "arena_occupant_at a i = Some oc"
    and a': "arena_occupant_at a' = (arena_occupant_at (relinked a oc))(i := None)"
    and l': "l' = l\<lparr>hl_head := if link_is_none (ho_previous oc) then ho_next oc else hl_head l,
        hl_count := saturating_sub (hl_count l) 1\<rparr>"
  shows "hl_holds a' p l' (remove1 i xs)"
    and "hl_holds a q l2 ws \<Longrightarrow> q \<noteq> p \<Longrightarrow> hl_holds a' q l2 ws"
    and "k \<noteq> i \<Longrightarrow> map_option (\<lambda>x. (ho_owner x, ho_entry x)) (arena_occupant_at a' k) =
      map_option (\<lambda>x. (ho_owner x, ho_entry x)) (arena_occupant_at a k)"
proof -
  note L = hl_holdsD [OF l]
  obtain ys zs where xs: "xs = ys @ i # zs" using i by (meson split_list)
  note Q = L(1) [unfolded xs]
  have nb: "link_index (ho_previous oc) = opt_last ys" "link_index (ho_next oc) = opt_head zs"
    using queue_list_neighbours [OF Q] oc by (simp_all add: arena_prev_def arena_next_def)
  have links: "arena_prev a i = link_index (ho_previous oc)" "arena_next a i = link_index (ho_next oc)"
    using oc by (simp_all add: arena_prev_def arena_next_def)
  have live: "arena_occupant_at a k \<noteq> None" if "k \<in> set xs" for k
    using that L(2) by (auto simp: owned_def)
  have in_xs: "k \<in> set xs" if "link_index (ho_previous oc) = Some k \<or> link_index (ho_next oc) = Some k" for k
    using that nb opt_last_in [of ys k] opt_head_in [of zs k] xs by auto
  show keep: "map_option (\<lambda>x. (ho_owner x, ho_entry x)) (arena_occupant_at a' k) =
      map_option (\<lambda>x. (ho_owner x, ho_entry x)) (arena_occupant_at a k)" if "k \<noteq> i" for k
    using that by (cases "arena_occupant_at a k") (auto simp: a' relinked_occupant Let_def)
  have own: "owned a' r k \<longleftrightarrow> k \<noteq> i \<and> owned a r k" for r k
    using keep [of k] by (cases "k = i"; cases "arena_occupant_at a k"; cases "arena_occupant_at a' k")
      (auto simp: owned_def a')
  have nx: "arena_next a' = (upd_opt (arena_next a) (arena_prev a i) (arena_next a i))(i := None)"
  proof
    fix k show "arena_next a' k = ((upd_opt (arena_next a) (arena_prev a i) (arena_next a i))(i := None)) k"
      unfolding links using live [OF in_xs, of k]
      by (cases "arena_occupant_at a k"; cases "link_index (ho_previous oc)")
        (auto simp: arena_next_def a' relinked_occupant Let_def)
  qed
  have pv: "arena_prev a' = (upd_opt (arena_prev a) (arena_next a i) (arena_prev a i))(i := None)"
  proof
    fix k show "arena_prev a' k = ((upd_opt (arena_prev a) (arena_next a i) (arena_prev a i))(i := None)) k"
      unfolding links using live [OF in_xs, of k]
      by (cases "arena_occupant_at a k"; cases "link_index (ho_next oc)")
        (auto simp: arena_prev_def a' relinked_occupant Let_def)
  qed
  have rem: "remove1 i xs = ys @ zs"
    using L(5) xs by (simp add: remove1_append)
  have head: "link_index (hl_head l') = (if link_index (hl_head l) = Some i then arena_next a i else link_index (hl_head l))"
  proof -
    have "link_is_none (ho_previous oc) \<longleftrightarrow> ys = []"
      using nb(1) by (simp add: link_index_None [symmetric])
    moreover have "link_index (hl_head l) = Some i \<longleftrightarrow> ys = []"
      using queue_listD(1,4) [OF Q] by (cases ys) auto
    ultimately show ?thesis by (simp add: l' links)
  qed
  have "queue_list (arena_next a') (arena_prev a') (link_index (hl_head l')) (opt_last (ys @ zs)) (ys @ zs)"
    using queue_list_unlink [OF Q] queue_listD(2) unfolding nx pv head by metis
  moreover have "unat (hl_count l') = length (ys @ zs)" "hl_count l' \<le> hl_capacity l'"
    using L(3,4) xs by (auto simp: l' unat_saturating_sub word_le_nat_alt)
  ultimately show "hl_holds a' p l' (remove1 i xs)"
    unfolding rem using L(2,5) xs by (auto simp: hl_holds_def own)
  show "hl_holds a' q l2 ws" if "hl_holds a q l2 ws" "q \<noteq> p"
  proof (rule hl_holds_cong [OF that(1)])
    have own_oc: "owned a p i" using L(2) i by simp
    show "owned a' q k = owned a q k" for k
      using own own_oc that(2) by (auto simp: owned_def)
    show "arena_occupant_at a' k = arena_occupant_at a k" if "k \<in> set ws" for k
    proof -
      have "k \<notin> set xs"
        using that L(2) hl_holdsD(2) [OF \<open>hl_holds a q l2 ws\<close>] \<open>q \<noteq> p\<close> by (auto simp: owned_def)
      with i in_xs [of k] show ?thesis
        by (cases "arena_occupant_at a k") (auto simp: a' relinked_occupant Let_def)
    qed
  qed
qed

section \<open>The operations on the table of handles\<close>

lemma handle_eqI: "handle_index h = handle_index k \<Longrightarrow> handle_generation h = handle_generation k \<Longrightarrow> h = k"
  using handle_raw_split [of "handle_raw h"] handle_raw_split [of "handle_raw k"]
  by (cases h; cases k) (simp add: handle_index_def handle_generation_def HANDLE_INDEX_BITS_def)

lemma occupant_same_pool: "arena_pool a' = arena_pool a \<Longrightarrow> arena_occupant_at a' = arena_occupant_at a"
  by (simp add: fun_eq_iff occupant_at_pool)

lemma arena_lookup_same_pool:
  assumes "arena_pool a' = arena_pool a"
  shows "arena_lookup a' p h = arena_lookup a p h"
  unfolding arena_lookup_eq occupant_same_pool [OF assms] assms ..

lemma arena_pool_lists:
  assumes "arena_pool a' = arena_pool a"
  shows "owned a' p i = owned a p i" "hl_holds a' p l xs = hl_holds a p l xs"
  unfolding hl_holds_def owned_def arena_next_def [abs_def] arena_prev_def [abs_def] occupant_same_pool [OF assms]
  by simp_all

text \<open>The owner and the entry that a slot holds.\<close>

definition holding :: "handle_arena \<Rightarrow> u32 \<Rightarrow> (object_id \<times> entry) option" where
  "holding a i = map_option (\<lambda>oc. (ho_owner oc, ho_entry oc)) (arena_occupant_at a i)"

lemma holding_None: "holding a i = None \<longleftrightarrow> arena_occupant_at a i = None"
  by (simp add: holding_def)

lemma owned_holding: "owned a p i \<longleftrightarrow> (\<exists>e. holding a i = Some (p, e))"
  by (auto simp: owned_def holding_def)

lemma insert_owned:
  assumes "arena_occupant_at a i = None" "arena_occupant_at a' = with_head (arena_occupant_at a) i p l e"
    and "hl_holds a p l xs"
  shows "owned a' q k \<longleftrightarrow> (if k = i then q = p else owned a q k)"
    and "k \<noteq> i \<Longrightarrow> holding a' k = holding a k"
    and "holding a' i = Some (p, e)"
proof -
  have "arena_occupant_at a j \<noteq> None" if "link_index (hl_head l) = Some j" for j
    using that hl_holdsD(1,2) [OF assms(3)] queue_listD(1) opt_head_in owned_def by (metis option.discI)
  then have occ: "arena_occupant_at a' k = (if k = i then Some (new_occupant p l e)
      else if link_index (hl_head l) = Some k
      then map_option (\<lambda>oc. oc\<lparr>ho_previous := link_to i\<rparr>) (arena_occupant_at a k) else arena_occupant_at a k)" for k
    unfolding assms(2) by (intro with_head_apply assms(1)) blast
  show "owned a' q k \<longleftrightarrow> (if k = i then q = p else owned a q k)"
    by (auto simp: owned_def occ)
  show "k \<noteq> i \<Longrightarrow> holding a' k = holding a k"
    by (cases "arena_occupant_at a k") (simp_all add: holding_def occ)
  show "holding a' i = Some (p, e)"
    by (simp add: holding_def occ)
qed

text \<open>What a look-up answers, from the owner and the entry of the slot.\<close>

lemma arena_lookup_view:
  "arena_lookup a p h = (case holding a (handle_index h) of
     None \<Rightarrow> Inl InvalidHandle
   | Some (q, e) \<Rightarrow> if pool_generation (arena_pool a) (handle_index h) = handle_generation h \<and> q = p
       then Inr e else Inl InvalidHandle)"
  by (simp add: arena_lookup_eq holding_def split: option.splits)

lemma insert_effect:
  assumes inv: "arena_inv a" and l: "hl_holds a p l xs" and run: "arena_insert a p l e = (r, l', a')"
  obtains (quota) "hl_capacity l \<le> hl_count l" "r = Inl QuotaExceeded" "l' = l" "a' = a"
  | (full) "hl_count l < hl_capacity l" "r = Inl OutOfHandles" "l' = l" "arena_pool a' = arena_pool a"
      "unat (ha_live a) = length (ha_slots a)"
  | (slot) h where "hl_count l < hl_capacity l" "r = Inr h" "arena_inv a'"
      "arena_occupant_at a (handle_index h) = None"
      "pool_generation (arena_pool a') = (pool_generation (arena_pool a))(handle_index h := handle_generation h)"
      "handle_generation h = next_generation (pool_generation (arena_pool a) (handle_index h))"
      "hl_holds a' p l' (handle_index h # xs)"
      "\<And>q l2 ys. hl_holds a q l2 ys \<Longrightarrow> q \<noteq> p \<Longrightarrow> hl_holds a' q l2 ys"
      "\<And>q k. owned a' q k \<longleftrightarrow> (if k = handle_index h then q = p else owned a q k)"
      "\<And>q k. arena_lookup a' q k = (if q = p \<and> k = h then Inr e else arena_lookup a q k)"
proof -
  from inv run show thesis
  proof (cases rule: arena_insert_cases)
    case quota
    then show thesis by (rule that(1))
  next
    case full
    then show thesis by (rule that(2))
  next
    case (slot i h)
    note own = insert_owned [OF slot(7,10) l]
    have "arena_lookup a' q k = (if q = p \<and> k = h then Inr e else arena_lookup a q k)" for q k
    proof (cases "handle_index k = i")
      case True
      then show ?thesis
        using own(3) slot(4,7,9) handle_eqI [of k h] holding_None [of a i] by (auto simp: arena_lookup_view)
    next
      case False
      with slot(4,9) have gen: "pool_generation (arena_pool a') (handle_index k) = pool_generation (arena_pool a) (handle_index k)"
        by simp
      show ?thesis
        unfolding arena_lookup_view own(2) [OF False] gen using False slot(4) by auto
    qed
    moreover have "hl_holds a' p l' (i # xs)" "\<And>q l2 ys. hl_holds a q l2 ys \<Longrightarrow> q \<noteq> p \<Longrightarrow> hl_holds a' q l2 ys"
      using insert_lists [OF l slot(1,6,7,10)] slot(3) by simp_all
    ultimately show thesis
      using slot own(1) by (intro that(3) [of h]) simp_all
  qed
qed

lemma detach_owned_effect:
  assumes inv: "arena_inv a" and l: "hl_holds a p l xs" and i: "i \<in> set xs"
    and run: "arena_detach a i l = (r, l', a')"
  obtains oc where "arena_occupant_at a i = Some oc" "ho_owner oc = p" "r = Some (ho_entry oc)"
    "arena_inv a'" "pool_generation (arena_pool a') = pool_generation (arena_pool a)"
    "hl_holds a' p l' (remove1 i xs)"
    "\<And>q l2 ys. hl_holds a q l2 ys \<Longrightarrow> q \<noteq> p \<Longrightarrow> hl_holds a' q l2 ys"
    "\<And>q k. owned a' q k \<longleftrightarrow> k \<noteq> i \<and> owned a q k"
    "\<And>q h. arena_lookup a' q h = (if handle_index h = i then Inl InvalidHandle else arena_lookup a q h)"
proof -
  from detach_effect [OF inv l i run] obtain oc where oc: "arena_occupant_at a i = Some oc" "ho_owner oc = p"
      "r = Some (ho_entry oc)"
      "l' = l\<lparr>hl_head := if link_is_none (ho_previous oc) then ho_next oc else hl_head l,
        hl_count := saturating_sub (hl_count l) 1\<rparr>"
      "arena_inv a'" "pool_generation (arena_pool a') = pool_generation (arena_pool a)"
      "arena_occupant_at a' = (arena_occupant_at (relinked a oc))(i := None)" .
  note D = detach_lists [OF l i oc(1,7,4)]
  have none: "holding a' i = None" by (simp add: holding_None oc(7))
  have keep: "holding a' k = holding a k" if "k \<noteq> i" for k
    using D(3) [OF that] by (simp only: holding_def)
  have own: "owned a' q k \<longleftrightarrow> k \<noteq> i \<and> owned a q k" for q k
    using none keep by (cases "k = i") (simp_all add: owned_holding)
  have look: "arena_lookup a' q h = (if handle_index h = i then Inl InvalidHandle else arena_lookup a q h)" for q h
    unfolding arena_lookup_view oc(6) using none keep by (cases "handle_index h = i") simp_all
  show thesis
    using oc(1-3,5,6) D(1,2) own look by (rule that)
qed

lemma close_effect:
  assumes inv: "arena_inv a" and l: "hl_holds a p l xs" and run: "arena_close a p l h = (r, l', a')"
  obtains (invalid) "r = Inl InvalidHandle" "l' = l" "a' = a" "arena_lookup a p h = Inl InvalidHandle"
  | (closed) e where "r = Inr e" "arena_lookup a p h = Inr e" "arena_inv a'" "handle_index h \<in> set xs"
      "pool_generation (arena_pool a') = pool_generation (arena_pool a)"
      "hl_holds a' p l' (remove1 (handle_index h) xs)"
      "\<And>q l2 ys. hl_holds a q l2 ys \<Longrightarrow> q \<noteq> p \<Longrightarrow> hl_holds a' q l2 ys"
      "\<And>q k. owned a' q k \<longleftrightarrow> k \<noteq> handle_index h \<and> owned a q k"
      "\<And>q k. arena_lookup a' q k = (if q = p \<and> k = h then Inl InvalidHandle else arena_lookup a q k)"
proof (cases "arena_lookup a p h")
  case (Inl x)
  then have "x = InvalidHandle" by (auto simp: arena_lookup_eq split: option.splits if_splits)
  with Inl run show thesis by (intro that(1)) (simp_all add: arena_close_def arena_resolve_eq)
next
  case (Inr e)
  then obtain oc where oc: "arena_occupant_at a (handle_index h) = Some oc" "ho_owner oc = p" "ho_entry oc = e"
      "pool_generation (arena_pool a) (handle_index h) = handle_generation h"
    by (auto simp: arena_lookup_eq split: option.splits if_splits)
  then have i: "handle_index h \<in> set xs"
    by (simp add: hl_holdsD(2) [OF l] owned_def)
  obtain r2 where d: "arena_detach a (handle_index h) l = (r2, l', a')" "r = ok_or r2 InvalidHandle"
    using run Inr by (auto simp: arena_close_def arena_resolve_eq split: prod.splits)
  from detach_owned_effect [OF inv l i d(1)] obtain oc2 where D: "arena_occupant_at a (handle_index h) = Some oc2"
    "r2 = Some (ho_entry oc2)" "arena_inv a'" "pool_generation (arena_pool a') = pool_generation (arena_pool a)"
    "hl_holds a' p l' (remove1 (handle_index h) xs)"
    "\<And>q l2 ys. hl_holds a q l2 ys \<Longrightarrow> q \<noteq> p \<Longrightarrow> hl_holds a' q l2 ys"
    "\<And>q k. owned a' q k \<longleftrightarrow> k \<noteq> handle_index h \<and> owned a q k"
    "\<And>q k. arena_lookup a' q k = (if handle_index k = handle_index h then Inl InvalidHandle else arena_lookup a q k)"
    by metis
  have "arena_lookup a' q k = (if q = p \<and> k = h then Inl InvalidHandle else arena_lookup a q k)" for q k
    using D(8) [of q k] oc handle_eqI [of k h] by (auto simp: arena_lookup_eq)
  then show thesis
    using Inr i D oc d(2) by (intro that(2) [of e]) simp_all
qed

lemma occupant_mut_at:
  "arena_occupant_at (arena_occupant_mut_at a i f) k =
   (if k = i then map_option f (arena_occupant_at a k) else arena_occupant_at a k)"
  by (cases "arena_slot a i")
    (auto simp: arena_occupant_at_def arena_occupant_mut_at_def arena_slot_mut_slot)

text \<open>A change of an entry keeps every list and every other entry.\<close>

lemma lookup_mut_effect:
  assumes inv: "arena_inv a" and run: "arena_lookup_mut a p h f = (r, a')"
  obtains (invalid) "r = Inl InvalidHandle" "a' = a" "arena_lookup a p h = Inl InvalidHandle"
  | (changed) e where "r = Inr ()" "arena_lookup a p h = Inr e" "arena_inv a'"
      "pool_generation (arena_pool a') = pool_generation (arena_pool a)"
      "\<And>q l ys. hl_holds a' q l ys = hl_holds a q l ys" "\<And>q k. owned a' q k = owned a q k"
      "\<And>q k. arena_lookup a' q k = (if q = p \<and> k = h then Inr (f e) else arena_lookup a q k)"
proof (cases "arena_lookup a p h")
  case (Inl x)
  then have "x = InvalidHandle" by (auto simp: arena_lookup_eq split: option.splits if_splits)
  with Inl run show thesis by (intro that(1)) (simp_all add: arena_lookup_mut_def arena_resolve_eq)
next
  case (Inr e)
  let ?i = "handle_index h"
  from Inr obtain oc where oc: "arena_occupant_at a ?i = Some oc" "ho_owner oc = p" "ho_entry oc = e"
      "pool_generation (arena_pool a) ?i = handle_generation h"
    by (auto simp: arena_lookup_eq split: option.splits if_splits)
  with run Inr have a': "a' = arena_occupant_mut_at a ?i (ho_entry_update f)" "r = Inr ()"
    by (simp_all add: arena_lookup_mut_def arena_resolve_eq)
  then have P: "arena_pool a' = pool_modify (arena_pool a) (slot_id a ?i) (ho_entry_update f)"
    by (simp add: arena_pool_occupant_mut)
  have occ: "arena_occupant_at a' k = (if k = ?i then Some (ho_entry_update f oc) else arena_occupant_at a k)" for k
    using oc(1) by (simp add: a' occupant_mut_at)
  have own: "owned a' q k = owned a q k" for q k
    using oc(1) by (simp add: owned_def occ)
  have "arena_next a' = arena_next a" "arena_prev a' = arena_prev a"
    using oc(1) by (auto simp: fun_eq_iff arena_next_def arena_prev_def occ)
  with own have "hl_holds a' q l ys = hl_holds a q l ys" for q l ys
    by (simp add: hl_holds_def)
  moreover have gen: "pool_generation (arena_pool a') = pool_generation (arena_pool a)" by (simp add: P)
  moreover have "arena_lookup a' q k = (if q = p \<and> k = h then Inr (f e) else arena_lookup a q k)" for q k
    using oc handle_eqI [of k h] unfolding arena_lookup_eq gen occ by (auto split: option.splits)
  ultimately show thesis
    using Inr a'(2) inv own by (intro that(2) [of e]) (simp_all add: P arena_inv_def pool_inv_modify)
qed

lemma close_next_effect:
  assumes inv: "arena_inv a" and l: "hl_holds a p l xs" and run: "arena_close_next a l = (r, l', a')"
  obtains (empty) "xs = []" "r = None" "l' = l" "a' = a"
  | (closed) i ys e where "xs = i # ys" "r = Some e" "holding a i = Some (p, e)" "arena_inv a'"
      "pool_generation (arena_pool a') = pool_generation (arena_pool a)" "hl_holds a' p l' ys"
      "\<And>q l2 ws. hl_holds a q l2 ws \<Longrightarrow> q \<noteq> p \<Longrightarrow> hl_holds a' q l2 ws"
      "\<And>q k. owned a' q k \<longleftrightarrow> k \<noteq> i \<and> owned a q k"
      "\<And>q h. arena_lookup a' q h = (if handle_index h = i then Inl InvalidHandle else arena_lookup a q h)"
proof (cases xs)
  case Nil
  with l run show thesis
    by (intro that(1)) (simp_all add: hl_holds_def queue_list_def arena_close_next_def)
next
  case (Cons i ys)
  have head: "link_index (hl_head l) = Some i"
    using queue_listD(1) [OF hl_holdsD(1) [OF l]] Cons by simp
  obtain r2 l2 a2 where d: "arena_detach a i l = (r2, l2, a2)" by (metis surj_pair)
  from Cons have i: "i \<in> set xs" by simp
  from detach_owned_effect [OF inv l i d] obtain oc where D:
    "arena_occupant_at a i = Some oc" "ho_owner oc = p" "r2 = Some (ho_entry oc)"
    "arena_inv a2" "pool_generation (arena_pool a2) = pool_generation (arena_pool a)"
    "hl_holds a2 p l2 (remove1 i xs)"
    "\<And>q l3 ys. hl_holds a q l3 ys \<Longrightarrow> q \<noteq> p \<Longrightarrow> hl_holds a2 q l3 ys"
    "\<And>q k. owned a2 q k \<longleftrightarrow> k \<noteq> i \<and> owned a q k"
    "\<And>q h. arena_lookup a2 q h = (if handle_index h = i then Inl InvalidHandle else arena_lookup a q h)"
    by metis
  have r: "r = r2" "l' = l2" "a' = a2" using run head d D(3) by (simp_all add: arena_close_next_def)
  show thesis
    using Cons D r by (intro that(2) [of i ys "ho_entry oc"]) (simp_all add: holding_def)
qed

text \<open>The iterator over the handles of a process yields one item for each slot of its list.\<close>

definition slot_handle :: "handle_arena \<Rightarrow> u32 \<Rightarrow> handle" where
  "slot_handle a i = the (handle_new i (pool_generation (arena_pool a) i))"

lemma occupant_generation:
  assumes "arena_inv a" and "arena_occupant_at a i = Some oc"
  shows "\<exists>s. arena_slot a i = Some s \<and> hs_generation s = pool_generation (arena_pool a) i \<and>
      hs_occupant s = Some oc"
    and "pool_generation (arena_pool a) i \<noteq> 0"
proof -
  obtain s where s: "arena_slot a i = Some s" "hs_occupant s = Some oc"
    using assms(2) by (auto simp: arena_occupant_at_def bind_eq_Some_conv)
  then show "\<exists>s. arena_slot a i = Some s \<and> hs_generation s = pool_generation (arena_pool a) i \<and>
      hs_occupant s = Some oc"
    by (simp add: pool_generation_def arena_pool_slot)
  obtain fl where wf: "pool_wf (arena_pool a) fl" using assms(1) by (auto simp: arena_inv_def pool_inv_wf)
  have "pool_map (arena_pool a) (slot_id a i) = Some oc" by (simp add: pool_map_slot_id assms(2))
  from pool_occupant_map(2) [OF this] pool_wf_occupant(2) [OF wf]
  show "pool_generation (arena_pool a) i \<noteq> 0" by (fastforce simp: slot_id_def)
qed

lemma slot_handle_fields:
  assumes "arena_inv a" and "arena_occupant_at a i = Some oc"
  shows "handle_new i (pool_generation (arena_pool a) i) = Some (slot_handle a i)"
    "handle_index (slot_handle a i) = i"
    "handle_generation (slot_handle a i) = pool_generation (arena_pool a) i"
proof -
  show new: "handle_new i (pool_generation (arena_pool a) i) = Some (slot_handle a i)"
    using handle_new_total [OF occupant_generation(2) [OF assms]] by (auto simp: slot_handle_def)
  show "handle_index (slot_handle a i) = i"
    "handle_generation (slot_handle a i) = pool_generation (arena_pool a) i"
    using handle_new_fields [OF new] by simp_all
qed

lemma handles_from_list:
  assumes inv: "arena_inv a" and "path (arena_next a) xs None" and "link_index nxt = opt_head xs"
    and "\<And>i. i \<in> set xs \<Longrightarrow> arena_occupant_at a i \<noteq> None"
  shows "handles_from a nxt = Some (map (\<lambda>i. (slot_handle a i, snd (the (holding a i)))) xs)"
  using assms(2-)
proof (induction xs arbitrary: nxt)
  case Nil
  then show ?case by (subst handles_from.simps) (simp add: handles_next_def)
next
  case (Cons i xs)
  obtain oc where oc: "arena_occupant_at a i = Some oc" using Cons.prems(3) [of i] by auto
  have "handles_next a nxt = Some ((slot_handle a i, ho_entry oc), ho_next oc)"
    using Cons.prems(2) slot_handle_fields(1) [OF inv oc] occupant_generation(1) [OF inv oc]
    by (auto simp: handles_next_def)
  moreover have "handles_from a (ho_next oc) = Some (map (\<lambda>i. (slot_handle a i, snd (the (holding a i)))) xs)"
    using Cons.prems oc by (intro Cons.IH) (auto simp: arena_next_def)
  ultimately show ?case
    by (subst handles_from.simps) (simp add: holding_def oc)
qed

section \<open>Histories of the table\<close>

text \<open>
  The arena together with the lists of the processes, and one step of it: a process starts with an
  empty list or ends with one, or one of the operations runs for a process. The label is the slot
  that the step hands out.
\<close>

type_synonym handle_state = "handle_arena \<times> (object_id \<rightharpoonup> handle_list)"

definition handed_out :: "error + handle \<Rightarrow> u32 option" where
  "handed_out r = (case r of Inl _ \<Rightarrow> None | Inr h \<Rightarrow> Some (handle_index h))"

inductive handle_step :: "handle_state \<Rightarrow> u32 option \<Rightarrow> handle_state \<Rightarrow> bool" where
  handle_start: "ls p = None \<Longrightarrow> handle_step (a, ls) None (a, ls(p \<mapsto> handle_list_with_capacity n))"
| handle_end: "ls p = Some l \<Longrightarrow> link_index (hl_head l) = None \<Longrightarrow> handle_step (a, ls) None (a, ls(p := None))"
| handle_insert: "ls p = Some l \<Longrightarrow> arena_insert a p l e = (r, l', a') \<Longrightarrow>
    handle_step (a, ls) (handed_out r) (a', ls(p \<mapsto> l'))"
| handle_duplicate: "ls p = Some l \<Longrightarrow> arena_duplicate a p l h rs = (r, l', a') \<Longrightarrow>
    handle_step (a, ls) (handed_out r) (a', ls(p \<mapsto> l'))"
| handle_change: "arena_lookup_mut a p h f = (r2, a') \<Longrightarrow> handle_step (a, ls) None (a', ls)"
| handle_close: "ls p = Some l \<Longrightarrow> arena_close a p l h = (r3, l', a') \<Longrightarrow>
    handle_step (a, ls) None (a', ls(p \<mapsto> l'))"
| handle_close_next: "ls p = Some l \<Longrightarrow> arena_close_next a l = (r4, l', a') \<Longrightarrow>
    handle_step (a, ls) None (a', ls(p \<mapsto> l'))"

definition handle_inv :: "handle_state \<Rightarrow> bool" where
  "handle_inv s \<longleftrightarrow> arena_inv (fst s) \<and>
     (\<forall>p l. snd s p = Some l \<longrightarrow> (\<exists>xs. hl_holds (fst s) p l xs)) \<and>
     (\<forall>p i. owned (fst s) p i \<longrightarrow> snd s p \<noteq> None)"

definition handle_names :: "handle_state \<Rightarrow> u32 \<Rightarrow> u32 \<Rightarrow> bool" where
  "handle_names s i g \<longleftrightarrow> (\<exists>p. owned (fst s) p i) \<and> pool_generation (arena_pool (fst s)) i = g"

lemma duplicate_cases:
  assumes "arena_duplicate a p l h rs = (r, l', a')"
  obtains (refused) x where "r = Inl x" "l' = l" "a' = a"
      "arena_lookup a p h = Inl x \<or> x = AccessDenied \<and> (\<exists>e. arena_lookup a p h = Inr e \<and>
        (\<not> rights_contains (en_rights e) RIGHT_DUPLICATE \<or> \<not> rights_is_subset_of rs (en_rights e)))"
  | (inserted) e where "arena_lookup a p h = Inr e" "rights_contains (en_rights e) RIGHT_DUPLICATE"
      "rights_is_subset_of rs (en_rights e)"
      "arena_insert a p l \<lparr>en_object = en_object e, en_rights = rs, en_badge = en_badge e\<rparr> = (r, l', a')"
  using assms by (auto simp: arena_duplicate_def split: sum.splits if_splits)

text \<open>
  Every step keeps the invariant; the slot it hands out, if any, gets the next generation, and no
  other slot gains an occupant.
\<close>

definition step_effect :: "handle_state \<Rightarrow> u32 option \<Rightarrow> handle_state \<Rightarrow> bool" where
  "step_effect s lbl t \<longleftrightarrow> handle_inv t \<and>
     pool_generation (arena_pool (fst t)) = (case lbl of None \<Rightarrow> pool_generation (arena_pool (fst s))
       | Some i \<Rightarrow> (pool_generation (arena_pool (fst s)))
           (i := next_generation (pool_generation (arena_pool (fst s)) i))) \<and>
     (\<forall>i p. Some i \<noteq> lbl \<longrightarrow> owned (fst t) p i \<longrightarrow> owned (fst s) p i)"

lemma handle_invD:
  assumes "handle_inv (a, ls)"
  shows "arena_inv a" "\<And>p l. ls p = Some l \<Longrightarrow> \<exists>xs. hl_holds a p l xs" "\<And>p i. owned a p i \<Longrightarrow> ls p \<noteq> None"
  using assms unfolding handle_inv_def fst_conv snd_conv by blast+

lemma handle_invI:
  assumes "handle_inv (a, ls)" and "ls p = Some l" and "arena_inv a'" and "hl_holds a' p l' xs"
    and "\<And>q l2 ws. hl_holds a q l2 ws \<Longrightarrow> q \<noteq> p \<Longrightarrow> hl_holds a' q l2 ws"
    and "\<And>q k. owned a' q k \<Longrightarrow> q = p \<or> owned a q k"
  shows "handle_inv (a', ls(p \<mapsto> l'))"
  using assms unfolding handle_inv_def fst_conv snd_conv by (metis fun_upd_apply option.inject option.discI)

lemma insert_step:
  assumes inv: "handle_inv (a, ls)" and l: "ls p = Some l" and run: "arena_insert a p l e = (r, l', a')"
  shows "step_effect (a, ls) (handed_out r) (a', ls(p \<mapsto> l'))"
proof -
  obtain xs where xs: "hl_holds a p l xs" using handle_invD(2) [OF inv l] by blast
  from handle_invD(1) [OF inv] xs run show ?thesis
  proof (cases rule: insert_effect)
    case quota
    then show ?thesis using inv l by (simp add: step_effect_def handed_out_def fun_upd_idem)
  next
    case full
    then have "handle_inv (a', ls)" "pool_generation (arena_pool a') = pool_generation (arena_pool a)"
      "\<And>i p. owned a' p i = owned a p i"
      using inv by (simp_all add: handle_inv_def arena_inv_def arena_pool_lists [OF full(4)])
    then show ?thesis using full l by (simp add: step_effect_def handed_out_def fun_upd_idem)
  next
    case (slot h)
    have "handle_inv (a', ls(p \<mapsto> l'))"
      by (rule handle_invI [OF inv l slot(3,7,8)]) (auto simp: slot(9) split: if_splits)
    with slot(2,5,6,9) show ?thesis
      by (simp add: step_effect_def handed_out_def)
  qed
qed

lemma handle_step_effect: "handle_step s lbl t \<Longrightarrow> handle_inv s \<Longrightarrow> step_effect s lbl t"
proof (induction rule: handle_step.induct)
  case (handle_start ls p a n)
  have "hl_holds a p (handle_list_with_capacity n) []"
    using handle_invD(3) [OF handle_start(2), of p] handle_start(1)
    by (auto simp: hl_holds_def handle_list_with_capacity_def)
  with handle_start show ?case
    by (auto simp: step_effect_def handle_inv_def)
next
  case (handle_end ls p l a)
  obtain xs where xs: "hl_holds a p l xs" using handle_invD(2) [OF handle_end(3,1)] by blast
  with handle_end(2) have "\<not> owned a p i" for i
    using queue_list_head [OF hl_holdsD(1) [OF xs]] hl_holdsD(2) [OF xs] by auto
  with handle_end show ?case
    by (auto simp: step_effect_def handle_inv_def)
next
  case (handle_insert ls p l a e r l' a')
  then show ?case by (intro insert_step)
next
  case (handle_duplicate ls p l a h rs r l' a')
  from handle_duplicate(2) show ?case
  proof (cases rule: duplicate_cases)
    case refused
    then show ?thesis using handle_duplicate by (simp add: step_effect_def handed_out_def fun_upd_idem)
  next
    case inserted
    then show ?thesis using handle_duplicate by (intro insert_step)
  qed
next
  case (handle_change a p h f r a' ls)
  from handle_invD(1) [OF handle_change(2)] handle_change(1) show ?case
  proof (cases rule: lookup_mut_effect)
    case invalid
    then show ?thesis using handle_change by (simp add: step_effect_def)
  next
    case (changed e)
    then show ?thesis using handle_change(2) by (simp add: step_effect_def handle_inv_def)
  qed
next
  case (handle_close ls p l a h r l' a')
  obtain xs where xs: "hl_holds a p l xs" using handle_invD(2) [OF handle_close(3,1)] by blast
  from handle_invD(1) [OF handle_close(3)] xs handle_close(2) show ?case
  proof (cases rule: close_effect)
    case invalid
    then show ?thesis using handle_close by (simp add: step_effect_def fun_upd_idem)
  next
    case (closed e)
    have "handle_inv (a', ls(p \<mapsto> l'))"
      by (rule handle_invI [OF handle_close(3,1) closed(3,6,7)]) (auto simp: closed(8))
    then show ?thesis using closed(5,8) by (simp add: step_effect_def)
  qed
next
  case (handle_close_next ls p l a r l' a')
  obtain xs where xs: "hl_holds a p l xs" using handle_invD(2) [OF handle_close_next(3,1)] by blast
  from handle_invD(1) [OF handle_close_next(3)] xs handle_close_next(2) show ?case
  proof (cases rule: close_next_effect)
    case empty
    then show ?thesis using handle_close_next by (simp add: step_effect_def fun_upd_idem)
  next
    case (closed i ys e)
    have "handle_inv (a', ls(p \<mapsto> l'))"
      by (rule handle_invI [OF handle_close_next(3,1) closed(4,6,7)]) (auto simp: closed(8))
    then show ?thesis using closed(5,8) by (simp add: step_effect_def)
  qed
qed

interpretation handle_ids: generation_store handle_inv
  "\<lambda>s. pool_generation (arena_pool (fst s))" handle_names handle_step
proof
  fix s t l
  assume s: "handle_inv s" "handle_step s l t"
  then show "handle_inv t" using handle_step_effect by (auto simp: step_effect_def)
next
  fix s i g
  assume "handle_names s i g"
  then show "pool_generation (arena_pool (fst s)) i = g" by (simp add: handle_names_def)
next
  fix s t i g
  assume s: "handle_inv s" "handle_step s None t"
  note E = handle_step_effect [OF s(2,1), unfolded step_effect_def]
  show "pool_generation (arena_pool (fst t)) = pool_generation (arena_pool (fst s))" using E by simp
  show "handle_names t i g \<Longrightarrow> handle_names s i g" using E by (auto simp: handle_names_def)
next
  fix s t i
  assume s: "handle_inv s" "handle_step s (Some i) t"
  note E = handle_step_effect [OF s(2,1), unfolded step_effect_def]
  show "pool_generation (arena_pool (fst t)) = (pool_generation (arena_pool (fst s)))
      (i := next_generation (pool_generation (arena_pool (fst s)) i))" using E by simp
  show "handle_names s j g" if "j \<noteq> i" "handle_names t j g" for j g
    using E that by (auto simp: handle_names_def)
qed

lemma arena_new_inv: "n < 2 ^ 32 \<Longrightarrow> arena_inv (handle_arena_new n)"
proof -
  have "arena_pool (handle_arena_new n) = pool_new n"
    by (simp add: arena_pool_def handle_arena_new_def pool_new_def slot_view_def handle_slot_FREE_def slot_FREE_def)
  then show "n < 2 ^ 32 \<Longrightarrow> arena_inv (handle_arena_new n)"
    by (simp add: arena_inv_def pool_inv_new)
qed

lemma arena_new_occupant [simp]: "arena_occupant_at (handle_arena_new n) i = None"
  by (simp add: arena_occupant_at_def arena_slot_def handle_arena_new_def array_get_def handle_slot_FREE_def)

lemma arena_new_owned [simp]: "\<not> owned (handle_arena_new n) p i"
  by (simp add: owned_def)

lemma hl_holds_empty: "(\<And>i. \<not> owned a p i) \<Longrightarrow> hl_holds a p (handle_list_with_capacity n) []"
  by (simp add: hl_holds_def handle_list_with_capacity_def)

lemma handle_inv_new: "n < 2 ^ 32 \<Longrightarrow> handle_inv (handle_arena_new n, Map.empty)"
  by (simp add: handle_inv_def arena_new_inv)

text \<open>The example of the witnesses: a process with room for two handles inserts its first one.\<close>

definition first_entry :: entry where
  "first_entry = entry_new (any_of MemoryObjectType (ObjectId 3 1)) (RIGHT_READ OR RIGHT_DUPLICATE)"

definition first_process :: object_id where "first_process = ObjectId 0 1"

definition first_insert :: "(error + handle) \<times> handle_list \<times> handle_arena" where
  "first_insert = arena_insert (handle_arena_new 4) first_process (handle_list_with_capacity 2) first_entry"

lemma first_insert_holds: "hl_holds (handle_arena_new 4) first_process (handle_list_with_capacity 2) []"
  by (rule hl_holds_empty) simp

lemma first_insert_ok:
  obtains h l a where "first_insert = (Inr h, l, a)" "arena_inv a" "hl_holds a first_process l [handle_index h]"
    "arena_lookup a first_process h = Inr first_entry"
proof -
  obtain r l a where run: "first_insert = (r, l, a)" by (metis surj_pair)
  have inv: "arena_inv (handle_arena_new 4)" by (simp add: arena_new_inv)
  have room: "hl_count (handle_list_with_capacity 2) < hl_capacity (handle_list_with_capacity 2)"
      "unat (ha_live (handle_arena_new 4)) \<noteq> length (ha_slots (handle_arena_new 4))"
    by (simp_all add: handle_list_with_capacity_def handle_arena_new_def)
  from inv first_insert_holds run [unfolded first_insert_def] show thesis
  proof (cases rule: insert_effect)
    case (slot h)
    then show thesis using run by (intro that [of h l a]) simp_all
  qed (use room in simp_all)
qed

lemma first_insert_room:
  "case first_insert of (r, l, a) \<Rightarrow> hl_capacity l = 2 \<and> ha_live a = 1 \<and> length (ha_slots a) = 4"
  by (simp add: first_insert_def arena_insert_def arena_take_free_slot_def handle_arena_new_def
      handle_list_with_capacity_def arena_slot_def array_get_def array_set_def arena_slot_mut_def
      handle_slot_FREE_def Let_def saturating_add_def)

section \<open>Properties\<close>



text \<open>
  C15: closing a handle. A handle that does not name an entry of the process is refused with
  \<open>InvalidHandle\<close> and nothing changes. Otherwise the entry is returned, the slot leaves the list of the
  process, the handle is invalid for everyone from then on, and no other handle of any process
  changes its meaning.
\<close>

theorem handle_close_correct:
  assumes "arena_inv a" and "hl_holds a p l xs" and "arena_close a p l h = (r, l', a')"
  shows "case r of
      Inl x \<Rightarrow> x = InvalidHandle \<and> arena_lookup a p h = Inl InvalidHandle \<and> l' = l \<and> a' = a
    | Inr e \<Rightarrow> arena_lookup a p h = Inr e \<and> arena_inv a' \<and>
        hl_holds a' p l' (remove1 (handle_index h) xs) \<and>
        (\<forall>q k. arena_lookup a' q k = (if q = p \<and> k = h then Inl InvalidHandle else arena_lookup a q k)) \<and>
        (\<forall>q l2 ys. hl_holds a q l2 ys \<and> q \<noteq> p \<longrightarrow> hl_holds a' q l2 ys)"
  using assms
proof (cases rule: close_effect)
  case (closed e)
  then show ?thesis by simp
qed simp_all

theorem handle_close_correct_witness:
  "case first_insert of (r, l, a) \<Rightarrow> \<exists>h l' a'. r = Inr h \<and>
     arena_close a first_process l h = (Inr first_entry, l', a') \<and> hl_holds a' first_process l' [] \<and>
     arena_lookup a' first_process h = Inl InvalidHandle"
proof -
  obtain h l a where run: "first_insert = (Inr h, l, a)" "arena_inv a" "hl_holds a first_process l [handle_index h]"
      "arena_lookup a first_process h = Inr first_entry" by (rule first_insert_ok)
  obtain r l' a' where c: "arena_close a first_process l h = (r, l', a')" by (metis surj_pair)
  from handle_close_correct [OF run(2,3) c] run(4) show ?thesis
    by (cases r) (simp_all add: run(1) c)
qed

text \<open>
  C17: a duplicate never gains authority. It needs a handle of the process with the right
  \<open>DUPLICATE\<close>; the new handle names the same object with the same badge and has exactly the rights
  asked for, each of which the original has. Every refusal leaves the list as it was.
\<close>

theorem handle_duplicate_no_amplification:
  assumes "arena_inv a" and "hl_holds a p l xs" and "arena_duplicate a p l h rights = (r, l', a')"
  shows "case r of
      Inl x \<Rightarrow> l' = l \<and> arena_pool a' = arena_pool a \<and>
        (x = InvalidHandle \<and> arena_lookup a p h = Inl InvalidHandle \<or>
         (\<exists>e. arena_lookup a p h = Inr e \<and>
           (x = AccessDenied \<and> (\<not> rights_contains (en_rights e) RIGHT_DUPLICATE \<or>
              \<not> rights_is_subset_of rights (en_rights e)) \<or>
            x = QuotaExceeded \<and> hl_capacity l \<le> hl_count l \<or>
            x = OutOfHandles \<and> unat (ha_live a) = length (ha_slots a))))
    | Inr k \<Rightarrow> \<exists>e e'. arena_lookup a p h = Inr e \<and> arena_lookup a' p h = Inr e \<and>
        arena_lookup a' p k = Inr e' \<and> rights_contains (en_rights e) RIGHT_DUPLICATE \<and>
        en_object e' = en_object e \<and> en_badge e' = en_badge e \<and> en_rights e' = rights \<and>
        (\<forall>n < 32. bit rights n \<longrightarrow> bit (en_rights e) n)"
  using assms(3)
proof (cases rule: duplicate_cases)
  case refused
  then show ?thesis by (auto simp: arena_lookup_eq split: option.splits if_splits)
next
  case (inserted e)
  from assms(1,2) inserted(4) show ?thesis
  proof (cases rule: insert_effect)
    case (slot k)
    then have "arena_lookup a p k = Inl InvalidHandle" by (simp add: arena_lookup_eq)
    with inserted(1) have "k \<noteq> h" by auto
    with slot inserted show ?thesis by (auto simp: rights_subset_bits)
  qed (use inserted in auto)
qed

theorem handle_duplicate_no_amplification_witness:
  "case first_insert of (r, l, a) \<Rightarrow> \<exists>h k l' a'. r = Inr h \<and>
     arena_duplicate a first_process l h RIGHT_READ = (Inr k, l', a') \<and>
     (\<exists>e'. arena_lookup a' first_process k = Inr e' \<and> en_rights e' = RIGHT_READ)"
proof -
  obtain h l a where run: "first_insert = (Inr h, l, a)" "arena_inv a" "hl_holds a first_process l [handle_index h]"
      "arena_lookup a first_process h = Inr first_entry" by (rule first_insert_ok)
  obtain r l' a' where c: "arena_duplicate a first_process l h RIGHT_READ = (r, l', a')" by (metis surj_pair)
  have "rights_contains (en_rights first_entry) RIGHT_DUPLICATE" "rights_is_subset_of RIGHT_READ (en_rights first_entry)"
    by (simp_all add: first_entry_def entry_new_def rights_word_defs RIGHT_READ_def RIGHT_DUPLICATE_def)
  moreover have "\<not> hl_capacity l \<le> hl_count l" "unat (ha_live a) \<noteq> length (ha_slots a)"
    using first_insert_room hl_holdsD(3) [OF run(3)] by (simp_all add: run(1) word_le_nat_alt)
  ultimately show ?thesis
    using handle_duplicate_no_amplification [OF run(2,3) c] run(4) by (cases r) (auto simp: run(1) c)
qed

text \<open>
  C13: however the processes of the machine come and go and use their handles, the arena stays well
  formed and the list of every process threads exactly the slots that the process owns, with its
  count right and within its capacity. Every slot that is held belongs to a process.
\<close>

theorem handle_table_invariant:
  assumes "run handle_step (handle_arena_new n, Map.empty) k (a, ls)" and "n < 2 ^ 32"
  shows "arena_inv a \<and>
    (\<forall>p l. ls p = Some l \<longrightarrow> (\<exists>xs. hl_holds a p l xs \<and> unat (hl_count l) = card {i. owned a p i})) \<and>
    (\<forall>p i. owned a p i \<longrightarrow> ls p \<noteq> None)"
proof -
  have inv: "handle_inv (a, ls)"
    using handle_ids.inv_run [OF assms(1) handle_inv_new [OF assms(2)]] .
  have "unat (hl_count l) = card {i. owned a p i}" if "hl_holds a p l xs" for p l xs
  proof -
    have "{i. owned a p i} = set xs" using hl_holdsD(2) [OF that] by blast
    then show ?thesis using hl_holdsD(3,5) [OF that] by (simp add: distinct_card)
  qed
  with handle_invD [OF inv] show ?thesis by metis
qed

lemma run_one: "step s lbl t \<Longrightarrow> \<exists>k \<le> 1. run step s k t"
  using run_refl [of step s] by (cases lbl) (auto intro: run_quiet run_hand_out)

lemma first_insert_run:
  assumes "first_insert = (Inr h, l, a)"
  shows "run handle_step (handle_arena_new 4, Map.empty) 1 (a, [first_process \<mapsto> l])"
proof -
  have "handle_step (handle_arena_new 4, Map.empty) None
      (handle_arena_new 4, [first_process \<mapsto> handle_list_with_capacity 2])"
    by (rule handle_start) simp
  note start = run_quiet [where step = handle_step, OF run_refl this]
  have "handle_step (handle_arena_new 4, [first_process \<mapsto> handle_list_with_capacity 2])
      (Some (handle_index h)) (a, [first_process \<mapsto> l])"
    using handle_insert [of "[first_process \<mapsto> handle_list_with_capacity 2]" first_process _ "handle_arena_new 4" first_entry
        "Inr h" l a] assms by (simp add: first_insert_def handed_out_def)
  from run_hand_out [where step = handle_step, OF start this] show ?thesis by simp
qed

theorem handle_table_invariant_witness:
  "case first_insert of (r, l, a) \<Rightarrow> arena_inv a \<and> card {i. owned a first_process i} = unat (hl_count l)"
proof -
  obtain h l a where i: "first_insert = (Inr h, l, a)" by (rule first_insert_ok)
  from handle_table_invariant [OF first_insert_run [OF i]] show ?thesis by (simp add: i)
qed

text \<open>
  C16: a closed handle stays closed. Whatever the processes do afterwards, the handle is refused for
  every process until the arena has handed out \<open>2 ^ 32 - 1\<close> more slots, even when its slot is in use
  again.
\<close>

theorem closed_handle_stays_invalid:
  assumes "handle_inv (a, ls)" and "ls p = Some l" and "arena_close a p l h = (Inr e, l', a')"
    and "run handle_step (a', ls(p \<mapsto> l')) k (b, ls')" and "k < 2 ^ 32 - 1"
  shows "arena_lookup b q h = Inl InvalidHandle"
proof -
  obtain xs where xs: "hl_holds a p l xs" using handle_invD(2) [OF assms(1,2)] by blast
  have inv: "handle_inv (a', ls(p \<mapsto> l'))"
    using handle_step_effect [OF handle_close [where ls = ls, OF assms(2,3)] assms(1)] by (simp add: step_effect_def)
  from handle_invD(1) [OF assms(1)] xs assms(3)
  have "\<not> handle_names (b, ls') (handle_index h) (handle_generation h)"
  proof (cases rule: close_effect)
    case (closed e2)
    then obtain oc where oc: "arena_occupant_at a (handle_index h) = Some oc"
        "pool_generation (arena_pool a) (handle_index h) = handle_generation h"
      by (auto simp: arena_lookup_eq split: option.splits if_splits)
    have "handle_generation h \<noteq> 0"
      using occupant_generation(2) [OF handle_invD(1) [OF assms(1)] oc(1)] oc(2) by simp
    then show ?thesis
      using handle_ids.stale_run [OF assms(4) inv, of "handle_index h" "handle_generation h"] closed(5,8) oc(2) assms(5)
      by (simp add: handle_names_def)
  qed simp
  then show ?thesis
    by (auto simp: handle_names_def arena_lookup_eq owned_def split: option.splits)
qed

theorem closed_handle_stays_invalid_witness:
  "case first_insert of (r, l, a) \<Rightarrow> \<exists>h l' a'. r = Inr h \<and> arena_close a first_process l h = (Inr first_entry, l', a') \<and>
     arena_lookup (snd (snd (arena_insert a' first_process l' first_entry))) first_process h = Inl InvalidHandle"
proof -
  let ?P = first_process
  obtain h l a where i: "first_insert = (Inr h, l, a)" "arena_inv a" "hl_holds a ?P l [handle_index h]"
    "arena_lookup a ?P h = Inr first_entry" by (rule first_insert_ok)
  have inv: "handle_inv (a, [?P \<mapsto> l])"
    using handle_ids.inv_run [OF first_insert_run [OF i(1)] handle_inv_new] by simp
  obtain r l' a' where c: "arena_close a ?P l h = (r, l', a')" by (metis surj_pair)
  with i have r: "r = Inr first_entry" by (cases rule: close_effect [OF i(2,3) c]) simp_all
  obtain r2 l2 b where b: "arena_insert a' ?P l' first_entry = (r2, l2, b)" by (metis surj_pair)
  have "handle_step (a', [?P \<mapsto> l, ?P \<mapsto> l']) (handed_out r2) (b, [?P \<mapsto> l, ?P \<mapsto> l', ?P \<mapsto> l2])"
    by (rule handle_insert [where e = first_entry and l = l']) (simp_all add: b)
  from run_one [where step = handle_step, OF this] obtain k where
    k: "k \<le> 1" "run handle_step (a', [?P \<mapsto> l, ?P \<mapsto> l']) k (b, [?P \<mapsto> l, ?P \<mapsto> l', ?P \<mapsto> l2])" by blast
  have "arena_lookup b ?P h = Inl InvalidHandle"
    by (rule closed_handle_stays_invalid [OF inv _ c [unfolded r] k(2)]) (use k(1) in simp_all)
  then show ?thesis
    by (simp add: i(1) c r b)
qed

text \<open>
  C18: the iterator over the handles of a process ends and yields exactly the handles of the process:
  a handle and an entry are among its items if and only if the look-up of the handle gives the entry.
\<close>

theorem handles_of_complete:
  assumes "arena_inv a" and "hl_holds a p l xs"
  shows "\<exists>items. handles_of a l = Some items \<and> length items = unat (hl_count l) \<and> distinct (map fst items) \<and>
    (\<forall>h e. (h, e) \<in> set items \<longleftrightarrow> arena_lookup a p h = Inr e)"
proof -
  let ?f = "\<lambda>i. (slot_handle a i, snd (the (holding a i)))"
  note L = hl_holdsD [OF assms(2)]
  have occ: "\<exists>oc. arena_occupant_at a i = Some oc \<and> ho_owner oc = p" if "i \<in> set xs" for i
    using that L(2) by (auto simp: owned_def)
  have "handles_of a l = Some (map ?f xs)"
    unfolding handles_of_def using L(1) occ assms(1)
    by (intro handles_from_list) (auto simp: queue_list_def intro: linked_path)
  moreover have "distinct (map fst (map ?f xs))"
  proof -
    have "inj_on (\<lambda>i. slot_handle a i) (set xs)"
      using slot_handle_fields(2) [OF assms(1)] occ by (metis inj_onI)
    then show ?thesis using L(5) by (simp add: distinct_map comp_def)
  qed
  moreover have "(h, e) \<in> set (map ?f xs) \<longleftrightarrow> arena_lookup a p h = Inr e" for h e
  proof
    assume "(h, e) \<in> set (map ?f xs)"
    then obtain i where i: "i \<in> set xs" "h = slot_handle a i" "e = snd (the (holding a i))" by auto
    obtain oc where oc: "arena_occupant_at a i = Some oc" "ho_owner oc = p" using occ i(1) by blast
    show "arena_lookup a p h = Inr e"
      using slot_handle_fields(2,3) [OF assms(1) oc(1)] oc by (simp add: arena_lookup_eq i holding_def)
  next
    assume "arena_lookup a p h = Inr e"
    then obtain oc where oc: "arena_occupant_at a (handle_index h) = Some oc" "ho_owner oc = p" "ho_entry oc = e"
        "pool_generation (arena_pool a) (handle_index h) = handle_generation h"
      by (auto simp: arena_lookup_eq split: option.splits if_splits)
    then have "h = slot_handle a (handle_index h)"
      using slot_handle_fields(2,3) [OF assms(1) oc(1)] by (intro handle_eqI) simp_all
    moreover have "handle_index h \<in> set xs" using L(2) oc by (auto simp: owned_def)
    ultimately show "(h, e) \<in> set (map ?f xs)" using oc by (force simp: holding_def)
  qed
  ultimately show ?thesis using L(3) by (intro exI [of _ "map ?f xs"]) simp
qed

theorem handles_of_complete_witness:
  "case first_insert of (r, l, a) \<Rightarrow> \<exists>h. r = Inr h \<and> handles_of a l = Some [(h, first_entry)]"
proof -
  obtain h l a where i: "first_insert = (Inr h, l, a)" "arena_inv a" "hl_holds a first_process l [handle_index h]"
    "arena_lookup a first_process h = Inr first_entry" by (rule first_insert_ok)
  obtain items where it: "handles_of a l = Some items" "length items = 1" "(h, first_entry) \<in> set items"
    using handles_of_complete [OF i(2,3)] i(4) hl_holdsD(3) [OF i(3)] by auto
  then have "items = [(h, first_entry)]"
    by (cases items) auto
  then show ?thesis using it by (simp add: i(1))
qed

end
