(* ===== verification/Store.thy ===== *)
theory Store
  imports HandleTable WaitQueue
begin

text \<open>
  Every object of the machine, \<open>src/crates/kernel/objects/src/store.rs\<close>: the eight pools and the handle
  arena in one record. The four sizes that are type parameters in the code are arguments of
  \<open>objects_new\<close>. A type argument \<open>T: Object\<close> is the object type that \<open>T::OBJECT_TYPE\<close> names.

  The lemmas connect the pool of processes with the handle arena: \<open>objects_inv\<close> says that the list in
  every live process threads exactly the slots that the process owns and that every slot that is held
  belongs to a live process, and every operation here keeps it.
\<close>

section \<open>The machine\<close>

record objects =
  ob_processes :: "process pool"
  ob_threads :: "thread pool"
  ob_memory :: "memory_object pool"
  ob_endpoints :: "endpoint pool"
  ob_notifications :: "notification pool"
  ob_replies :: "reply pool"
  ob_interrupts :: "interrupt pool"
  ob_ports :: "io_port_range pool"
  ob_handles :: handle_arena

definition objects_new :: "nat \<Rightarrow> nat \<Rightarrow> nat \<Rightarrow> nat \<Rightarrow> objects" where
  "objects_new np nt nm nh =
     \<lparr>ob_processes = pool_new np, ob_threads = pool_new nt, ob_memory = pool_new nm,
      ob_endpoints = pool_new ENDPOINTS, ob_notifications = pool_new NOTIFICATIONS,
      ob_replies = pool_new REPLIES, ob_interrupts = pool_new INTERRUPTS,
      ob_ports = pool_new IO_PORT_RANGES, ob_handles = handle_arena_new nh\<rparr>"

definition machine_objects_new :: objects where
  "machine_objects_new = objects_new PROCESSES THREADS MEMORY_OBJECTS HANDLE_ENTRIES"

section \<open>Resolving handles\<close>

definition objects_entry :: "objects \<Rightarrow> object_id \<Rightarrow> handle \<Rightarrow> error + entry" where
  "objects_entry ob process handle = arena_lookup (ob_handles ob) process handle"

definition objects_resolve ::
  "object_type \<Rightarrow> objects \<Rightarrow> object_id \<Rightarrow> handle \<Rightarrow> rights \<Rightarrow> error + (object_id \<times> rights)" where
  "objects_resolve ty ob process handle required =
     try_result (objects_entry ob process handle) (\<lambda>entry.
     try_result (any_typed ty (en_object entry)) (\<lambda>oid.
       if \<not> rights_contains (en_rights entry) required then Inl AccessDenied
       else Inr (oid, en_rights entry)))"

definition objects_object_type :: "objects \<Rightarrow> object_id \<Rightarrow> handle \<Rightarrow> error + object_type" where
  "objects_object_type ob process handle =
     try_result (objects_entry ob process handle) (\<lambda>entry. Inr (entry_object_type entry))"

definition holds_process :: "objects \<Rightarrow> object_id \<Rightarrow> bool" where
  "holds_process ob oid = is_ok (pool_get (ob_processes ob) oid)"

definition holds_thread :: "objects \<Rightarrow> object_id \<Rightarrow> bool" where
  "holds_thread ob oid = is_ok (pool_get (ob_threads ob) oid)"

definition with_process :: "objects \<Rightarrow> object_id \<Rightarrow> (process \<Rightarrow> process) \<Rightarrow> bool \<times> objects" where
  "with_process ob oid body =
     (case pool_get_mut (ob_processes ob) oid body of
        (Inr _, p) \<Rightarrow> (True, ob\<lparr>ob_processes := p\<rparr>)
      | (Inl _, p) \<Rightarrow> (False, ob\<lparr>ob_processes := p\<rparr>))"

definition with_thread :: "objects \<Rightarrow> object_id \<Rightarrow> (thread \<Rightarrow> thread) \<Rightarrow> bool \<times> objects" where
  "with_thread ob oid body =
     (case pool_get_mut (ob_threads ob) oid body of
        (Inr _, p) \<Rightarrow> (True, ob\<lparr>ob_threads := p\<rparr>)
      | (Inl _, p) \<Rightarrow> (False, ob\<lparr>ob_threads := p\<rparr>))"

definition objects_counts :: "objects \<Rightarrow> u32 list" where
  "objects_counts ob =
     [pl_live (ob_processes ob), pl_live (ob_threads ob), pl_live (ob_memory ob),
      pl_live (ob_endpoints ob), pl_live (ob_notifications ob), pl_live (ob_replies ob),
      pl_live (ob_interrupts ob), pl_live (ob_ports ob), ha_live (ob_handles ob)]"

definition objects_capacities :: "objects \<Rightarrow> u32 list" where
  "objects_capacities ob =
     [pool_capacity (ob_processes ob), pool_capacity (ob_threads ob), pool_capacity (ob_memory ob),
      pool_capacity (ob_endpoints ob), pool_capacity (ob_notifications ob),
      pool_capacity (ob_replies ob), pool_capacity (ob_interrupts ob), pool_capacity (ob_ports ob),
      arena_capacity (ob_handles ob)]"

section \<open>Handles of a process\<close>

text \<open>The list is read out of the process, changed with the arena, and written back.\<close>

definition write_list :: "objects \<Rightarrow> object_id \<Rightarrow> handle_list \<Rightarrow> objects" where
  "write_list ob process l =
     ob\<lparr>ob_processes := snd (pool_with (ob_processes ob) process (\<lambda>held. held\<lparr>pc_handles := l\<rparr>))\<rparr>"

definition install_handle :: "objects \<Rightarrow> object_id \<Rightarrow> entry \<Rightarrow> (error + handle) \<times> objects" where
  "install_handle ob process entry =
     (case pool_get (ob_processes ob) process of
        Inl e \<Rightarrow> (Inl (error_of_pool_error e), ob)
      | Inr held \<Rightarrow>
          (case arena_insert (ob_handles ob) process (pc_handles held) entry of
             (Inl e, list, arena) \<Rightarrow> (Inl e, ob\<lparr>ob_handles := arena\<rparr>)
           | (Inr handle, list, arena) \<Rightarrow>
               (Inr handle, write_list (ob\<lparr>ob_handles := arena\<rparr>) process list)))"

definition close_handle :: "objects \<Rightarrow> object_id \<Rightarrow> handle \<Rightarrow> (error + entry) \<times> objects" where
  "close_handle ob process handle =
     (case pool_get (ob_processes ob) process of
        Inl e \<Rightarrow> (Inl (error_of_pool_error e), ob)
      | Inr held \<Rightarrow>
          (case arena_close (ob_handles ob) process (pc_handles held) handle of
             (Inl e, list, arena) \<Rightarrow> (Inl e, ob\<lparr>ob_handles := arena\<rparr>)
           | (Inr entry, list, arena) \<Rightarrow>
               (Inr entry, write_list (ob\<lparr>ob_handles := arena\<rparr>) process list)))"

definition close_next_handle :: "objects \<Rightarrow> object_id \<Rightarrow> entry option \<times> objects" where
  "close_next_handle ob process =
     (case pool_get (ob_processes ob) process of
        Inl _ \<Rightarrow> (None, ob)
      | Inr held \<Rightarrow>
          (case arena_close_next (ob_handles ob) (pc_handles held) of
             (entry, list, arena) \<Rightarrow> (entry, write_list (ob\<lparr>ob_handles := arena\<rparr>) process list)))"

section \<open>References\<close>

text \<open>The object that an id of any type names in one of the pools, with the pool written back.\<close>

definition on_pool ::
  "(objects \<Rightarrow> 't pool) \<Rightarrow> (('t pool \<Rightarrow> 't pool) \<Rightarrow> objects \<Rightarrow> objects) \<Rightarrow>
   ('t pool \<Rightarrow> object_id \<Rightarrow> 'r \<times> 't pool) \<Rightarrow> objects \<Rightarrow> object_id \<Rightarrow> 'r \<times> objects" where
  "on_pool get put f ob oid = (case f (get ob) oid of (r, p) \<Rightarrow> (r, put (\<lambda>_. p) ob))"

definition objects_retain :: "objects \<Rightarrow> any_object_id \<Rightarrow> (error + unit) \<times> objects" where
  "objects_retain ob aid =
     (let retained = (\<lambda>f. case any_typed (ao_type aid) aid of
            Inl e \<Rightarrow> (Inl e, ob)
          | Inr oid \<Rightarrow> (case f ob oid of (r, ob) \<Rightarrow> (map_sum error_of_pool_error id r, ob)))
      in case ao_type aid of
           ProcessType \<Rightarrow> retained (on_pool ob_processes ob_processes_update pool_retain)
         | ThreadType \<Rightarrow> retained (on_pool ob_threads ob_threads_update pool_retain)
         | MemoryObjectType \<Rightarrow> retained (on_pool ob_memory ob_memory_update pool_retain)
         | EndpointType \<Rightarrow> retained (on_pool ob_endpoints ob_endpoints_update pool_retain)
         | NotificationType \<Rightarrow> retained (on_pool ob_notifications ob_notifications_update pool_retain)
         | ReplyType \<Rightarrow> retained (on_pool ob_replies ob_replies_update pool_retain)
         | InterruptType \<Rightarrow> retained (on_pool ob_interrupts ob_interrupts_update pool_retain)
         | IoPortRangeType \<Rightarrow> retained (on_pool ob_ports ob_ports_update pool_retain)
         | SystemControlType \<Rightarrow> (Inr (), ob))"

datatype destroyed =
    DestroyedQuietly any_object_id
  | DestroyedEndpoint object_id endpoint
  | DestroyedNotification object_id notification
  | DestroyedReply object_id reply

definition gone :: "pool_error + bool \<Rightarrow> bool" where
  "gone r = (r = Inr True)"

definition then_some :: "bool \<Rightarrow> 'a \<Rightarrow> 'a option" where
  "then_some b v = (if b then Some v else None)"

definition quietly ::
  "object_type \<Rightarrow> objects \<Rightarrow> any_object_id \<Rightarrow> (objects \<Rightarrow> object_id \<Rightarrow> (pool_error + bool) \<times> objects) \<Rightarrow>
   destroyed option \<times> objects" where
  "quietly ty ob aid release =
     (case any_typed ty aid of
        Inl _ \<Rightarrow> (None, ob)
      | Inr typed \<Rightarrow> (case release ob typed of (r, ob) \<Rightarrow> (then_some (gone r) (DestroyedQuietly aid), ob)))"

text \<open>The release of an object that threads can wait on carries the object away.\<close>

definition loudly ::
  "object_type \<Rightarrow> objects \<Rightarrow> any_object_id \<Rightarrow> (objects \<Rightarrow> 't pool) \<Rightarrow>
   (('t pool \<Rightarrow> 't pool) \<Rightarrow> objects \<Rightarrow> objects) \<Rightarrow> (object_id \<Rightarrow> 't \<Rightarrow> destroyed) \<Rightarrow>
   destroyed option \<times> objects" where
  "loudly ty ob aid get put wrap =
     (case any_typed ty aid of
        Inl _ \<Rightarrow> (None, ob)
      | Inr oid \<Rightarrow>
          (case pool_get (get ob) oid of
             Inl _ \<Rightarrow> (None, ob)
           | Inr held \<Rightarrow>
               (case on_pool get put pool_release ob oid of
                  (r, ob) \<Rightarrow> (then_some (gone r) (wrap oid held), ob))))"

definition objects_destroy :: "objects \<Rightarrow> any_object_id \<Rightarrow> destroyed option \<times> objects" where
  "objects_destroy ob aid =
     (case ao_type aid of
        EndpointType \<Rightarrow> loudly EndpointType ob aid ob_endpoints ob_endpoints_update DestroyedEndpoint
      | NotificationType \<Rightarrow>
          loudly NotificationType ob aid ob_notifications ob_notifications_update DestroyedNotification
      | ReplyType \<Rightarrow> loudly ReplyType ob aid ob_replies ob_replies_update DestroyedReply
      | ProcessType \<Rightarrow>
          quietly ProcessType ob aid (on_pool ob_processes ob_processes_update pool_release)
      | ThreadType \<Rightarrow> quietly ThreadType ob aid (on_pool ob_threads ob_threads_update pool_release)
      | MemoryObjectType \<Rightarrow>
          quietly MemoryObjectType ob aid (on_pool ob_memory ob_memory_update pool_release)
      | InterruptType \<Rightarrow>
          quietly InterruptType ob aid (on_pool ob_interrupts ob_interrupts_update pool_release)
      | IoPortRangeType \<Rightarrow> quietly IoPortRangeType ob aid (on_pool ob_ports ob_ports_update pool_release)
      | SystemControlType \<Rightarrow> (None, ob))"

fun destroyed_id :: "destroyed \<Rightarrow> any_object_id" where
  "destroyed_id (DestroyedQuietly aid) = aid"
| "destroyed_id (DestroyedEndpoint oid _) = any_of EndpointType oid"
| "destroyed_id (DestroyedNotification oid _) = any_of NotificationType oid"
| "destroyed_id (DestroyedReply oid _) = any_of ReplyType oid"

section \<open>Reference counts\<close>

lemma pool_occupant_mut_other:
  assumes "oid' \<noteq> oid"
  shows "pool_occupant (snd (pool_occupant_mut p oid f)) oid' = pool_occupant p oid'"
proof (cases "pool_occupant p oid")
  case (Inl e)
  then have "pool_map p oid = None" by (simp add: pool_map_def pool_get_def)
  then show ?thesis by (simp add: pool_occupant_mut_stale)
next
  case (Inr oc)
  then obtain s where s: "pool_slot p (oid_index oid) = Some s" "sl_generation s = oid_generation oid"
      "sl_occupancy s = Held oc"
    by (auto simp: pool_occupant_alt)
  from assms have "oid_generation oid' \<noteq> oid_generation oid" if "oid_index oid' = oid_index oid"
    using that by (auto simp: object_id.expand)
  then show ?thesis
    by (auto simp: pool_occupant_mut_eq [OF s] pool_occupant_def pool_slot_set s)
qed

lemma pool_refs_occupant:
  "pool_refs p oid = (case pool_occupant p oid of Inl _ \<Rightarrow> 0 | Inr oc \<Rightarrow> unat (oc_refs oc))"
  by (simp add: pool_refs_def pool_references_def split: sum.splits)

lemma pool_refs_live: "pool_inv p \<Longrightarrow> 0 < pool_refs p oid \<longleftrightarrow> pool_map p oid \<noteq> None"
proof -
  assume "pool_inv p"
  then obtain fl where wf: "pool_wf p fl" by (auto simp: pool_inv_wf)
  show ?thesis
  proof (cases "pool_occupant p oid")
    case (Inr oc)
    then show ?thesis
      using pool_wf_occupant(1) [OF wf Inr]
      by (simp add: pool_refs_occupant pool_map_def pool_get_def word_le_nat_alt del: unat_eq_0)
  qed (simp add: pool_refs_occupant pool_map_def pool_get_def)
qed

lemma pool_release_refs:
  assumes "pool_inv p"
  shows "pool_refs (snd (pool_release p oid)) = (pool_refs p)(oid := pool_refs p oid - 1)"
    and "fst (pool_release p oid) = (if pool_refs p oid = 0 then Inl StaleId else Inr (pool_refs p oid = 1))"
proof -
  obtain fl where wf: "pool_wf p fl" using assms by (auto simp: pool_inv_wf)
  have "pool_refs (snd (pool_release p oid)) = (pool_refs p)(oid := pool_refs p oid - 1) \<and>
    fst (pool_release p oid) = (if pool_refs p oid = 0 then Inl StaleId else Inr (pool_refs p oid = 1))"
  proof (cases "pool_occupant p oid")
    case (Inl e)
    then have "pool_map p oid = None" by (simp add: pool_map_def pool_get_def)
    then show ?thesis
      using Inl pool_release_stale [of p oid] by (simp add: pool_refs_occupant fun_upd_idem)
  next
    case (Inr oc)
    then have pos: "1 \<le> unat (oc_refs oc)"
      using pool_wf_occupant(1) [OF wf Inr] by (simp add: word_le_nat_alt)
    show ?thesis
    proof (cases "1 < oc_refs oc")
      case True
      obtain p' where p': "pool_release p oid = (Inr False, p')" "pool_occupant p' oid = Inr (oc\<lparr>oc_refs := oc_refs oc - 1\<rparr>)"
        by (rule pool_release_more_spec [OF wf Inr True]) blast
      have other: "pool_occupant p' oid' = pool_occupant p oid'" if "oid' \<noteq> oid" for oid'
      proof -
        have "p' = snd (pool_occupant_mut p oid (\<lambda>oc. oc\<lparr>oc_refs := saturating_sub (oc_refs oc) 1\<rparr>))"
          using pool_release_more [OF Inr True] p'(1) by simp
        then show ?thesis using pool_occupant_mut_other [OF that] by simp
      qed
      have "unat (oc_refs oc - 1) = unat (oc_refs oc) - 1"
        using pos by (subst unat_sub_fits) (simp_all add: word_le_nat_alt)
      then show ?thesis
        using p' other True Inr pos by (auto simp: fun_eq_iff pool_refs_occupant word_less_nat_alt)
    next
      case False
      obtain p' where p': "pool_release p oid = (Inr True, p')" "pool_map p' = (pool_map p)(oid := None)"
          "\<And>oid'. oid' \<noteq> oid \<Longrightarrow> pool_occupant p' oid' = pool_occupant p oid'"
        by (rule pool_release_last_spec [OF wf Inr False]) blast
      have "pool_occupant p' oid = Inl StaleId"
        using pool_occupant_map(1) [of p' oid] p'(2) by simp
      then show ?thesis
        using p' False Inr pos by (auto simp: fun_eq_iff pool_refs_occupant word_less_nat_alt)
    qed
  qed
  then show "pool_refs (snd (pool_release p oid)) = (pool_refs p)(oid := pool_refs p oid - 1)"
    and "fst (pool_release p oid) = (if pool_refs p oid = 0 then Inl StaleId else Inr (pool_refs p oid = 1))"
    by simp_all
qed

lemma pool_retain_refs:
  assumes "pool_inv p"
  shows "pool_retain p oid = (Inl StaleId, p) \<and> pool_refs p oid = 0 \<or>
    pool_retain p oid = (Inl RefOverflow, p) \<and> pool_refs p oid = 2 ^ 32 - 1 \<or>
    fst (pool_retain p oid) = Inr () \<and> 0 < pool_refs p oid \<and>
      pool_refs (snd (pool_retain p oid)) = (pool_refs p)(oid := pool_refs p oid + 1)"
proof (cases "pool_occupant p oid")
  case (Inl e)
  then show ?thesis
    using pool_occupant_stale [OF Inl] by (simp add: pool_retain_def pool_refs_occupant)
next
  case (Inr oc)
  obtain fl where wf: "pool_wf p fl" using assms by (auto simp: pool_inv_wf)
  have pos: "1 \<le> unat (oc_refs oc)"
    using pool_wf_occupant(1) [OF wf Inr] by (simp add: word_le_nat_alt)
  show ?thesis
  proof (cases "unat (oc_refs oc) < 2 ^ 32 - 1")
    case True
    have eq: "pool_retain p oid = pool_occupant_mut p oid (\<lambda>oc'. oc'\<lparr>oc_refs := oc_refs oc + 1\<rparr>)"
    proof -
      have "checked_add (oc_refs oc) 1 = Some (oc_refs oc + 1)" using True by (simp add: word_nat)
      with Inr show ?thesis by (simp add: pool_retain_def)
    qed
    have other: "pool_occupant (snd (pool_retain p oid)) oid' = pool_occupant p oid'" if "oid' \<noteq> oid" for oid'
      unfolding eq by (rule pool_occupant_mut_other [OF that])
    have "unat (oc_refs oc + 1) = unat (oc_refs oc) + 1"
      using True by (simp add: unat_add_fits)
    then show ?thesis
      using pool_retain_spec [OF Inr True] other Inr pos
      by (auto simp: fun_eq_iff pool_refs_occupant)
  next
    case False
    then have "unat (oc_refs oc) = 2 ^ 32 - 1" using unat_less_size [of "oc_refs oc"] by simp
    then have "checked_add (oc_refs oc) 1 = None" "unat (oc_refs oc) = 2 ^ 32 - 1" by (simp_all add: word_nat)
    then show ?thesis
      using Inr by (simp add: pool_retain_def pool_refs_occupant)
  qed
qed

text \<open>The references to any object of the machine, by its id. The system control capability has none.\<close>

fun type_refs :: "object_type \<Rightarrow> objects \<Rightarrow> object_id \<Rightarrow> nat" where
  "type_refs ProcessType ob = pool_refs (ob_processes ob)"
| "type_refs ThreadType ob = pool_refs (ob_threads ob)"
| "type_refs MemoryObjectType ob = pool_refs (ob_memory ob)"
| "type_refs EndpointType ob = pool_refs (ob_endpoints ob)"
| "type_refs NotificationType ob = pool_refs (ob_notifications ob)"
| "type_refs ReplyType ob = pool_refs (ob_replies ob)"
| "type_refs InterruptType ob = pool_refs (ob_interrupts ob)"
| "type_refs IoPortRangeType ob = pool_refs (ob_ports ob)"
| "type_refs SystemControlType ob = (\<lambda>_. 0)"

definition any_refs :: "objects \<Rightarrow> any_object_id \<Rightarrow> nat" where
  "any_refs ob aid = type_refs (ao_type aid) ob (ObjectId (ao_index aid) (ao_generation aid))"

definition pools_inv :: "objects \<Rightarrow> bool" where
  "pools_inv ob \<longleftrightarrow> pool_inv (ob_processes ob) \<and> pool_inv (ob_threads ob) \<and> pool_inv (ob_memory ob) \<and>
     pool_inv (ob_endpoints ob) \<and> pool_inv (ob_notifications ob) \<and> pool_inv (ob_replies ob) \<and>
     pool_inv (ob_interrupts ob) \<and> pool_inv (ob_ports ob)"

lemma any_of_type [simp]: "ao_type (any_of ty oid) = ty"
  by (simp add: any_of_def)

lemma any_refs_of [simp]: "any_refs ob (any_of ty oid) = type_refs ty ob oid"
  by (cases oid) (simp add: any_refs_def any_of_def)

lemma any_id_cases: obtains ty oid where "aid = any_of ty oid"
  using that [of "ao_type aid" "ObjectId (ao_index aid) (ao_generation aid)"] by (simp add: any_of_def)

lemma any_refs_eqI:
  assumes "\<And>ty. type_refs ty ob' = (if ty = t then (type_refs ty ob)(oid := n) else type_refs ty ob)"
  shows "any_refs ob' = (any_refs ob)(any_of t oid := n)"
proof
  fix x
  obtain ty oid2 where "x = any_of ty oid2" by (rule any_id_cases)
  then show "any_refs ob' x = ((any_refs ob)(any_of t oid := n)) x" by (simp add: assms)
qed

text \<open>What dropping a reference does, and what taking one does.\<close>

definition drop_spec :: "objects \<Rightarrow> any_object_id \<Rightarrow> destroyed option \<Rightarrow> objects \<Rightarrow> bool" where
  "drop_spec ob aid r ob' \<longleftrightarrow> any_refs ob' = (any_refs ob)(aid := any_refs ob aid - 1) \<and>
     (case r of None \<Rightarrow> any_refs ob aid \<noteq> 1 | Some d \<Rightarrow> any_refs ob aid = 1 \<and> destroyed_id d = aid) \<and>
     pools_inv ob' \<and> ob_handles ob' = ob_handles ob"

definition retain_spec :: "objects \<Rightarrow> any_object_id \<Rightarrow> error + unit \<Rightarrow> objects \<Rightarrow> bool" where
  "retain_spec ob aid r ob' \<longleftrightarrow> (case r of
      Inl e \<Rightarrow> ob' = ob \<and> (e = InvalidHandle \<and> any_refs ob aid = 0 \<or>
        e = QuotaExceeded \<and> any_refs ob aid = 2 ^ 32 - 1)
    | Inr _ \<Rightarrow> pools_inv ob' \<and> ob_handles ob' = ob_handles ob \<and>
        pool_map (ob_processes ob') = pool_map (ob_processes ob) \<and>
        any_refs ob' = (if ao_type aid = SystemControlType then any_refs ob
          else (any_refs ob)(aid := any_refs ob aid + 1)) \<and>
        (ao_type aid \<noteq> SystemControlType \<longrightarrow> 0 < any_refs ob aid))"

text \<open>
  One of the eight pools of the machine, with the laws that its operations rely on: writing the pool
  back changes nothing else. The effect of taking and dropping a reference is proved here once for
  all of them.
\<close>

locale object_pool =
  fixes ty :: object_type
    and get :: "objects \<Rightarrow> 't pool"
    and put :: "('t pool \<Rightarrow> 't pool) \<Rightarrow> objects \<Rightarrow> objects"
  assumes get_put: "put (\<lambda>_. get ob) ob = ob"
    and refs: "type_refs ty ob = pool_refs (get ob)"
    and put_refs: "type_refs t (put (\<lambda>_. p) ob) = (if t = ty then pool_refs p else type_refs t ob)"
    and put_handles: "ob_handles (put (\<lambda>_. p) ob) = ob_handles ob"
    and put_processes: "pool_map p = pool_map (get ob) \<Longrightarrow>
      pool_map (ob_processes (put (\<lambda>_. p) ob)) = pool_map (ob_processes ob)"
    and other_processes: "ty \<noteq> ProcessType \<Longrightarrow> ob_processes (put (\<lambda>_. p) ob) = ob_processes ob"
    and get_inv: "pools_inv ob \<Longrightarrow> pool_inv (get ob)"
    and put_inv: "pools_inv ob \<Longrightarrow> pool_inv p \<Longrightarrow> pools_inv (put (\<lambda>_. p) ob)"
begin

definition dropped :: "objects \<Rightarrow> object_id \<Rightarrow> objects" where
  "dropped ob oid = put (\<lambda>_. snd (pool_release (get ob) oid)) ob"

lemma quietly_drops:
  assumes "pools_inv ob"
  shows "quietly ty ob (any_of ty oid) (on_pool get put pool_release) =
    (then_some (type_refs ty ob oid = 1) (DestroyedQuietly (any_of ty oid)), dropped ob oid)"
  using pool_release_refs(2) [OF get_inv [OF assms], of oid]
  by (cases "pool_release (get ob) oid") (auto simp: quietly_def on_pool_def gone_def dropped_def refs)

lemma loudly_drops:
  assumes "pools_inv ob"
  shows "\<exists>v. loudly ty ob (any_of ty oid) get put wrap =
    (then_some (type_refs ty ob oid = 1) (wrap oid v), dropped ob oid)"
proof (cases "pool_map (get ob) oid")
  case None
  then have "type_refs ty ob oid = 0" using pool_refs_live [OF get_inv [OF assms], of oid] by (simp add: refs)
  then show ?thesis
    using None by (simp add: loudly_def pool_get_map pool_release_stale then_some_def dropped_def get_put)
next
  case (Some v)
  show ?thesis
    using Some pool_release_refs(2) [OF get_inv [OF assms], of oid] pool_refs_live [OF get_inv [OF assms], of oid]
    by (cases "pool_release (get ob) oid")
      (auto simp: loudly_def pool_get_map on_pool_def gone_def dropped_def refs)
qed

lemma dropped_effect:
  assumes "pools_inv ob"
  shows "any_refs (dropped ob oid) = (any_refs ob)(any_of ty oid := type_refs ty ob oid - 1)"
    "pools_inv (dropped ob oid)" "ob_handles (dropped ob oid) = ob_handles ob"
  using pool_release_refs(1) [OF get_inv [OF assms], of oid] pool_inv_release [OF get_inv [OF assms]] assms
  by (auto simp: dropped_def put_refs refs put_handles intro!: any_refs_eqI put_inv)

lemma drop_effect:
  assumes "pools_inv ob" and "r = then_some (type_refs ty ob oid = 1) d" and "destroyed_id d = any_of ty oid"
  shows "drop_spec ob (any_of ty oid) r (dropped ob oid)"
  using assms by (simp add: drop_spec_def dropped_effect then_some_def)

lemma quiet_effect:
  assumes "pools_inv ob" and "quietly ty ob (any_of ty oid) (on_pool get put pool_release) = (r, ob')"
  shows "drop_spec ob (any_of ty oid) r ob'"
  using drop_effect [OF assms(1)] assms(2) by (auto simp: quietly_drops [OF assms(1)])

lemma loud_effect:
  assumes "pools_inv ob" and "loudly ty ob (any_of ty oid) get put wrap = (r, ob')"
    and "\<And>v. destroyed_id (wrap oid v) = any_of ty oid"
  shows "drop_spec ob (any_of ty oid) r ob'"
  using drop_effect [OF assms(1)] assms(2,3) loudly_drops [OF assms(1), of oid wrap] by auto

lemma retain_effect:
  assumes "pools_inv ob" and "on_pool get put pool_retain ob oid = (r, ob')" and "ty \<noteq> SystemControlType"
  shows "retain_spec ob (any_of ty oid) (map_sum error_of_pool_error id r) ob'"
proof -
  have ob': "ob' = put (\<lambda>_. snd (pool_retain (get ob) oid)) ob" "r = fst (pool_retain (get ob) oid)"
    using assms(2) by (auto simp: on_pool_def split: prod.splits)
  note inv = get_inv [OF assms(1)]
  from pool_retain_refs [OF inv, of oid] consider
      (stale) "pool_retain (get ob) oid = (Inl StaleId, get ob)" "pool_refs (get ob) oid = 0"
    | (full) "pool_retain (get ob) oid = (Inl RefOverflow, get ob)" "pool_refs (get ob) oid = 2 ^ 32 - 1"
    | (kept) "r = Inr ()" "0 < pool_refs (get ob) oid"
        "pool_refs (snd (pool_retain (get ob) oid)) = (pool_refs (get ob))(oid := pool_refs (get ob) oid + 1)"
    unfolding ob'(2) by (elim disjE conjE) simp_all
  then show ?thesis
  proof cases
    case kept
    have "any_refs ob' = (any_refs ob)(any_of ty oid := type_refs ty ob oid + 1)"
      by (rule any_refs_eqI) (simp add: ob'(1) put_refs kept(3) refs)
    with kept show ?thesis
      using assms(3)
      by (simp add: retain_spec_def ob'(1) refs put_handles put_processes put_inv [OF assms(1) pool_inv_retain [OF inv]])
  qed (simp_all add: retain_spec_def ob' refs get_put)
qed

end

lemma type_refs_put:
  "type_refs t (ob\<lparr>ob_processes := ppr\<rparr>) = (if t = ProcessType then pool_refs ppr else type_refs t ob)"
  "type_refs t (ob\<lparr>ob_threads := pth\<rparr>) = (if t = ThreadType then pool_refs pth else type_refs t ob)"
  "type_refs t (ob\<lparr>ob_memory := pme\<rparr>) = (if t = MemoryObjectType then pool_refs pme else type_refs t ob)"
  "type_refs t (ob\<lparr>ob_endpoints := pen\<rparr>) = (if t = EndpointType then pool_refs pen else type_refs t ob)"
  "type_refs t (ob\<lparr>ob_notifications := pno\<rparr>) = (if t = NotificationType then pool_refs pno else type_refs t ob)"
  "type_refs t (ob\<lparr>ob_replies := pre\<rparr>) = (if t = ReplyType then pool_refs pre else type_refs t ob)"
  "type_refs t (ob\<lparr>ob_interrupts := pin\<rparr>) = (if t = InterruptType then pool_refs pin else type_refs t ob)"
  "type_refs t (ob\<lparr>ob_ports := ppo\<rparr>) = (if t = IoPortRangeType then pool_refs ppo else type_refs t ob)"
  by (cases t; simp)+

interpretation process_pool: object_pool ProcessType ob_processes ob_processes_update
  by unfold_locales (simp_all add: type_refs_put pools_inv_def)

interpretation thread_pool: object_pool ThreadType ob_threads ob_threads_update
  by unfold_locales (simp_all add: type_refs_put pools_inv_def)

interpretation memory_pool: object_pool MemoryObjectType ob_memory ob_memory_update
  by unfold_locales (simp_all add: type_refs_put pools_inv_def)

interpretation endpoint_pool: object_pool EndpointType ob_endpoints ob_endpoints_update
  by unfold_locales (simp_all add: type_refs_put pools_inv_def)

interpretation notification_pool: object_pool NotificationType ob_notifications ob_notifications_update
  by unfold_locales (simp_all add: type_refs_put pools_inv_def)

interpretation reply_pool: object_pool ReplyType ob_replies ob_replies_update
  by unfold_locales (simp_all add: type_refs_put pools_inv_def)

interpretation interrupt_pool: object_pool InterruptType ob_interrupts ob_interrupts_update
  by unfold_locales (simp_all add: type_refs_put pools_inv_def)

interpretation port_pool: object_pool IoPortRangeType ob_ports ob_ports_update
  by unfold_locales (simp_all add: type_refs_put pools_inv_def)

lemma system_specs:
  assumes "pools_inv ob"
  shows "drop_spec ob (any_of SystemControlType oid) None ob"
    "retain_spec ob (any_of SystemControlType oid) (Inr ()) ob"
  using assms by (simp_all add: drop_spec_def retain_spec_def fun_upd_idem)

lemma destroy_effect:
  assumes "pools_inv ob" and "objects_destroy ob aid = (r, ob')"
  shows "drop_spec ob aid r ob'"
proof -
  obtain ty oid where aid: "aid = any_of ty oid" by (rule any_id_cases)
  show ?thesis
    using assms unfolding aid objects_destroy_def any_of_type
    by (cases ty) (auto intro: process_pool.quiet_effect thread_pool.quiet_effect memory_pool.quiet_effect
        interrupt_pool.quiet_effect port_pool.quiet_effect endpoint_pool.loud_effect
        notification_pool.loud_effect reply_pool.loud_effect system_specs(1))
qed

lemma retain_spec_holds:
  assumes "pools_inv ob" and "objects_retain ob aid = (r, ob')"
  shows "retain_spec ob aid r ob'"
proof -
  obtain ty oid where aid: "aid = any_of ty oid" by (rule any_id_cases)
  show ?thesis
    using assms unfolding aid objects_retain_def any_of_type
    by (cases ty) (auto intro: process_pool.retain_effect thread_pool.retain_effect memory_pool.retain_effect
        interrupt_pool.retain_effect port_pool.retain_effect endpoint_pool.retain_effect
        notification_pool.retain_effect reply_pool.retain_effect system_specs(2) split: prod.splits)
qed

section \<open>Processes and their handles\<close>

definition process_lists :: "objects \<Rightarrow> object_id \<rightharpoonup> handle_list" where
  "process_lists ob p = map_option pc_handles (pool_map (ob_processes ob) p)"

definition objects_inv :: "objects \<Rightarrow> bool" where
  "objects_inv ob \<longleftrightarrow> pools_inv ob \<and> handle_inv (ob_handles ob, process_lists ob)"

text \<open>
  What the kernel does with its objects: objects of every kind are allocated, a process with an empty list
  of handles; handles are installed and closed; references are taken and dropped; objects change; threads
  and processes are released whatever their count, as the reaper and \<open>process_kill\<close> do. A process holds a
  reference to itself while it lives and \<open>process_kill\<close> closes its handles before it releases it, so a
  process is released, or its last reference dropped, only with an empty list. Dropping any other
  reference, of a process too, is not restricted.
\<close>

inductive store_step :: "objects \<Rightarrow> objects \<Rightarrow> bool" where
  store_create: "pool_allocate (ob_processes ob) v = (r0, ps) \<Longrightarrow> pc_handles v = handle_list_with_capacity n \<Longrightarrow>
    store_step ob (ob\<lparr>ob_processes := ps\<rparr>)"
| store_new_thread: "store_step ob (ob\<lparr>ob_threads := snd (pool_allocate (ob_threads ob) v1)\<rparr>)"
| store_new_memory: "store_step ob (ob\<lparr>ob_memory := snd (pool_allocate (ob_memory ob) v2)\<rparr>)"
| store_new_endpoint: "store_step ob (ob\<lparr>ob_endpoints := snd (pool_allocate (ob_endpoints ob) v3)\<rparr>)"
| store_new_notification: "store_step ob (ob\<lparr>ob_notifications := snd (pool_allocate (ob_notifications ob) v4)\<rparr>)"
| store_new_reply: "store_step ob (ob\<lparr>ob_replies := snd (pool_allocate (ob_replies ob) v5)\<rparr>)"
| store_new_interrupt: "store_step ob (ob\<lparr>ob_interrupts := snd (pool_allocate (ob_interrupts ob) v6)\<rparr>)"
| store_new_ports: "store_step ob (ob\<lparr>ob_ports := snd (pool_allocate (ob_ports ob) v7)\<rparr>)"
| store_install: "install_handle ob p e = (r1, ob') \<Longrightarrow> store_step ob ob'"
| store_close: "close_handle ob p h = (r2, ob') \<Longrightarrow> store_step ob ob'"
| store_close_next: "close_next_handle ob p = (r3, ob') \<Longrightarrow> store_step ob ob'"
| store_retain: "objects_retain ob aid = (r4, ob') \<Longrightarrow> store_step ob ob'"
| store_destroy: "objects_destroy ob aid = (r5, ob') \<Longrightarrow>
    (\<And>p l. aid = any_of ProcessType p \<Longrightarrow> any_refs ob aid = 1 \<Longrightarrow> process_lists ob p = Some l \<Longrightarrow>
      handle_list_is_empty l) \<Longrightarrow> store_step ob ob'"
| store_kill: "(\<And>l. process_lists ob p = Some l \<Longrightarrow> handle_list_is_empty l) \<Longrightarrow>
    store_step ob (ob\<lparr>ob_processes := snd (pool_force_release (ob_processes ob) p)\<rparr>)"
| store_reap: "store_step ob (ob\<lparr>ob_threads := snd (pool_force_release (ob_threads ob) t)\<rparr>)"
| store_change: "with_process ob p f = (r6, ob') \<Longrightarrow> (\<And>v. pc_handles (f v) = pc_handles v) \<Longrightarrow> store_step ob ob'"
| store_thread: "with_thread ob t g = (r7, ob') \<Longrightarrow> store_step ob ob'"
| store_endpoint: "store_step ob (ob\<lparr>ob_endpoints := pool_modify (ob_endpoints ob) k g1\<rparr>)"
| store_notification: "store_step ob (ob\<lparr>ob_notifications := pool_modify (ob_notifications ob) k g2\<rparr>)"
| store_reply: "store_step ob (ob\<lparr>ob_replies := pool_modify (ob_replies ob) k g3\<rparr>)"
| store_interrupt: "store_step ob (ob\<lparr>ob_interrupts := pool_modify (ob_interrupts ob) k g4\<rparr>)"

lemma objects_inv_new:
  assumes "np < 2 ^ 32" "nt < 2 ^ 32" "nm < 2 ^ 32" "nh < 2 ^ 32"
  shows "objects_inv (objects_new np nt nm nh)"
proof -
  have "process_lists (objects_new np nt nm nh) = Map.empty"
    by (simp add: process_lists_def objects_new_def fun_eq_iff)
  with assms handle_inv_new show ?thesis
    by (simp add: objects_inv_def pools_inv_def objects_new_def pool_inv_new ENDPOINTS_def NOTIFICATIONS_def
        REPLIES_def INTERRUPTS_def IO_PORT_RANGES_def)
qed

lemma write_list_effect:
  assumes "pool_map (ob_processes ob) p = Some v"
  shows "process_lists (write_list ob p l) = (process_lists ob)(p \<mapsto> l)"
    "ob_handles (write_list ob p l) = ob_handles ob"
    "pools_inv ob \<Longrightarrow> pools_inv (write_list ob p l)"
  using assms by (auto simp: process_lists_def write_list_def pool_with_eq fun_eq_iff pools_inv_def pool_inv_modify)

lemma handles_update [simp]:
  "process_lists (ob\<lparr>ob_handles := a\<rparr>) = process_lists ob"
  "pools_inv (ob\<lparr>ob_handles := a\<rparr>) = pools_inv ob"
  by (simp_all add: process_lists_def fun_eq_iff pools_inv_def)

text \<open>Each handle operation of the machine is a step of the handle table on the lists of the processes.\<close>

lemma list_operation:
  fixes f :: "handle_list \<Rightarrow> (error + 'a) \<times> handle_list \<times> handle_arena"
  assumes "(case pool_get (ob_processes ob) p of
        Inl e \<Rightarrow> (Inl (error_of_pool_error e), ob)
      | Inr held \<Rightarrow> (case f (pc_handles held) of
             (Inl e, list, arena) \<Rightarrow> (Inl e, ob\<lparr>ob_handles := arena\<rparr>)
           | (Inr x, list, arena) \<Rightarrow> (Inr x, write_list (ob\<lparr>ob_handles := arena\<rparr>) p list))) = (r, ob')"
  obtains (gone) "r = Inl InvalidHandle" "ob' = ob" "pool_map (ob_processes ob) p = None"
  | (step) l l' where "process_lists ob p = Some l" "f l = (r, l', ob_handles ob')"
      "process_lists ob' = (case r of Inl _ \<Rightarrow> process_lists ob | Inr _ \<Rightarrow> (process_lists ob)(p \<mapsto> l'))"
      "pools_inv ob \<Longrightarrow> pools_inv ob'"
proof (cases "pool_map (ob_processes ob) p")
  case None
  with assms show thesis by (intro that(1)) (simp_all add: pool_get_map)
next
  case (Some v)
  obtain r2 l' a where run: "f (pc_handles v) = (r2, l', a)" by (metis surj_pair)
  have v: "pool_map (ob_processes (ob\<lparr>ob_handles := a\<rparr>)) p = Some v" using Some by simp
  have l: "process_lists ob p = Some (pc_handles v)" using Some by (simp add: process_lists_def)
  show thesis
  proof (cases r2)
    case (Inl x)
    with assms run Some have "r = Inl x" "ob' = ob\<lparr>ob_handles := a\<rparr>"
      by (simp_all add: pool_get_map)
    then show thesis using l run Inl by (intro that(2) [of "pc_handles v" l']) simp_all
  next
    case (Inr h)
    with assms run Some have "r = Inr h" "ob' = write_list (ob\<lparr>ob_handles := a\<rparr>) p l'"
      by (simp_all add: pool_get_map)
    then show thesis using l run Inr write_list_effect [OF v]
      by (intro that(2) [of "pc_handles v" l']) simp_all
  qed
qed

lemma close_next_handle_step:
  assumes "close_next_handle ob p = (r, ob')"
  obtains (gone) "r = None" "ob' = ob" "pool_map (ob_processes ob) p = None"
  | (step) l l' where "process_lists ob p = Some l" "arena_close_next (ob_handles ob) l = (r, l', ob_handles ob')"
      "process_lists ob' = (process_lists ob)(p \<mapsto> l')" "pools_inv ob \<Longrightarrow> pools_inv ob'"
proof (cases "pool_map (ob_processes ob) p")
  case None
  with assms show thesis by (intro that(1)) (simp_all add: close_next_handle_def pool_get_map)
next
  case (Some v)
  obtain r2 l' a where run: "arena_close_next (ob_handles ob) (pc_handles v) = (r2, l', a)" by (metis surj_pair)
  have v: "pool_map (ob_processes (ob\<lparr>ob_handles := a\<rparr>)) p = Some v" using Some by simp
  have l: "process_lists ob p = Some (pc_handles v)" using Some by (simp add: process_lists_def)
  from assms run Some have "r = r2" "ob' = write_list (ob\<lparr>ob_handles := a\<rparr>) p l'"
    by (simp_all add: close_next_handle_def pool_get_map)
  then show thesis using l run write_list_effect [OF v]
    by (intro that(2) [of "pc_handles v" l']) simp_all
qed

lemma handle_step_inv: "handle_inv s \<Longrightarrow> handle_step s lbl t \<Longrightarrow> handle_inv t"
  using handle_step_effect by (auto simp: step_effect_def)

lemma install_handle_inv:
  assumes inv: "objects_inv ob" and run: "install_handle ob p e = (r, ob')"
  shows "objects_inv ob'"
  using run unfolding install_handle_def
proof (cases rule: list_operation)
  case gone
  then show ?thesis using inv by simp
next
  case (step l l')
  have h: "handle_inv (ob_handles ob, process_lists ob)" using inv by (simp add: objects_inv_def)
  have "handle_inv (ob_handles ob', (process_lists ob)(p \<mapsto> l'))"
    using insert_step [OF h step(1,2)] by (simp add: step_effect_def)
  moreover have "l' = l" if "r = Inl x" for x
  proof -
    obtain xs where xs: "hl_holds (ob_handles ob) p l xs" using handle_invD(2) [OF h step(1)] by blast
    from handle_invD(1) [OF h] xs step(2) show ?thesis
      by (cases rule: insert_effect) (use that in simp_all)
  qed
  ultimately have "handle_inv (ob_handles ob', process_lists ob')"
    using step(1,3) by (cases r) (simp_all add: fun_upd_idem)
  then show ?thesis using inv step(4) by (simp add: objects_inv_def)
qed

lemma close_handle_inv:
  assumes inv: "objects_inv ob" and run: "close_handle ob p h = (r, ob')"
  shows "objects_inv ob'"
  using run unfolding close_handle_def
proof (cases rule: list_operation)
  case gone
  then show ?thesis using inv by simp
next
  case (step l l')
  have h: "handle_inv (ob_handles ob, process_lists ob)" using inv by (simp add: objects_inv_def)
  have "handle_inv (ob_handles ob', (process_lists ob)(p \<mapsto> l'))"
    using handle_step_inv [OF h handle_close [where ls = "process_lists ob", OF step(1,2)]] .
  moreover have "l' = l" if "r = Inl x" for x
  proof -
    obtain xs where xs: "hl_holds (ob_handles ob) p l xs" using handle_invD(2) [OF h step(1)] by blast
    from handle_invD(1) [OF h] xs step(2) show ?thesis
      by (cases rule: close_effect) (use that in simp_all)
  qed
  ultimately have "handle_inv (ob_handles ob', process_lists ob')"
    using step(1,3) by (cases r) (simp_all add: fun_upd_idem)
  then show ?thesis using inv step(4) by (simp add: objects_inv_def)
qed

lemma close_next_handle_inv:
  assumes inv: "objects_inv ob" and run: "close_next_handle ob p = (r, ob')"
  shows "objects_inv ob'"
  using run
proof (cases rule: close_next_handle_step)
  case gone
  then show ?thesis using inv by simp
next
  case (step l l')
  have h: "handle_inv (ob_handles ob, process_lists ob)" using inv by (simp add: objects_inv_def)
  show ?thesis
    using handle_step_inv [OF h handle_close_next [where ls = "process_lists ob", OF step(1,2)]] inv step
    by (simp add: objects_inv_def)
qed

lemma arena_lookup_pool:
  assumes "arena_pool a' = arena_pool a"
  shows "arena_lookup a' = arena_lookup a"
proof -
  have "arena_occupant_at a' i = arena_occupant_at a i" for i
    using assms by (metis pool_map_slot_id slot_id_def)
  then show ?thesis unfolding fun_eq_iff arena_lookup_eq assms by simp
qed

lemma install_lookup:
  assumes inv: "objects_inv ob" and run: "install_handle ob p e = (r, ob')"
  shows "case r of
      Inl _ \<Rightarrow> arena_lookup (ob_handles ob') = arena_lookup (ob_handles ob)
    | Inr h \<Rightarrow> (\<forall>q. arena_lookup (ob_handles ob) q h = Inl InvalidHandle) \<and>
        (\<forall>q k. arena_lookup (ob_handles ob') q k = (if q = p \<and> k = h then Inr e else arena_lookup (ob_handles ob) q k))"
  using run unfolding install_handle_def
proof (cases rule: list_operation)
  case gone
  then show ?thesis by simp
next
  case (step l l')
  have h: "handle_inv (ob_handles ob, process_lists ob)" using inv by (simp add: objects_inv_def)
  obtain xs where xs: "hl_holds (ob_handles ob) p l xs" using handle_invD(2) [OF h step(1)] by blast
  from handle_invD(1) [OF h] xs step(2) show ?thesis
  proof (cases rule: insert_effect)
    case full
    then show ?thesis by (simp add: arena_lookup_pool [OF full(4)])
  next
    case (slot h)
    then show ?thesis by (simp add: arena_lookup_eq)
  qed simp
qed

lemma close_lookup:
  assumes inv: "objects_inv ob" and run: "close_handle ob p h = (r, ob')"
  shows "arena_lookup (ob_handles ob') q k \<in> {Inl InvalidHandle, arena_lookup (ob_handles ob) q k}"
  using run unfolding close_handle_def
proof (cases rule: list_operation)
  case (step l l')
  have h: "handle_inv (ob_handles ob, process_lists ob)" using inv by (simp add: objects_inv_def)
  obtain xs where xs: "hl_holds (ob_handles ob) p l xs" using handle_invD(2) [OF h step(1)] by blast
  from handle_invD(1) [OF h] xs step(2) show ?thesis by (cases rule: close_effect) simp_all
qed simp

lemma close_next_lookup:
  assumes inv: "objects_inv ob" and run: "close_next_handle ob p = (r, ob')"
  shows "arena_lookup (ob_handles ob') q k \<in> {Inl InvalidHandle, arena_lookup (ob_handles ob) q k}"
  using run
proof (cases rule: close_next_handle_step)
  case (step l l')
  have h: "handle_inv (ob_handles ob, process_lists ob)" using inv by (simp add: objects_inv_def)
  obtain xs where xs: "hl_holds (ob_handles ob) p l xs" using handle_invD(2) [OF h step(1)] by blast
  from handle_invD(1) [OF h] xs step(2) show ?thesis by (cases rule: close_next_effect) simp_all
qed simp

lemma create_process_inv:
  assumes inv: "objects_inv ob" and run: "pool_allocate (ob_processes ob) v = (r, ps)"
    and v: "pc_handles v = handle_list_with_capacity n"
  shows "objects_inv (ob\<lparr>ob_processes := ps\<rparr>)"
proof -
  have h: "handle_inv (ob_handles ob, process_lists ob)" and pools: "pools_inv ob"
    using inv by (simp_all add: objects_inv_def)
  then obtain fl where wf: "pool_wf (ob_processes ob) fl" by (auto simp: pools_inv_def pool_inv_wf)
  have pools': "pools_inv (ob\<lparr>ob_processes := ps\<rparr>)"
    using pools pool_inv_allocate [of "ob_processes ob" v] run by (simp add: pools_inv_def)
  from wf show ?thesis
  proof (cases rule: pool_allocate_cases [where v = v])
    case full
    then show ?thesis using inv run by simp
  next
    case (slot i q)
    let ?p = "ObjectId i (next_generation (pool_generation (ob_processes ob) i))"
    have "process_lists ob ?p = None" using slot(5) by (simp add: process_lists_def)
    from handle_step_inv [OF h handle_start [where ls = "process_lists ob" and n = n, OF this]]
    have "handle_inv (ob_handles ob, (process_lists ob)(?p \<mapsto> handle_list_with_capacity n))" .
    moreover have "process_lists (ob\<lparr>ob_processes := ps\<rparr>) = (process_lists ob)(?p \<mapsto> handle_list_with_capacity n)"
      using slot run v by (simp add: process_lists_def fun_eq_iff)
    ultimately show ?thesis using pools' by (simp add: objects_inv_def)
  qed
qed

lemma destroy_processes:
  assumes "objects_destroy ob (any_of ty oid) = (r, ob')"
  shows "ob_processes ob' = (if ty = ProcessType then snd (pool_release (ob_processes ob) oid) else ob_processes ob)"
  using assms by (cases ty) (auto simp: objects_destroy_def quietly_def loudly_def on_pool_def split: prod.splits sum.splits)

lemma process_ends:
  assumes h: "handle_inv (ob_handles ob, process_lists ob)" and l: "process_lists ob p = Some l"
    and empty: "handle_list_is_empty l"
  shows "handle_inv (ob_handles ob, (process_lists ob)(p := None))"
proof -
  obtain xs where xs: "hl_holds (ob_handles ob) p l xs" using handle_invD(2) [OF h l] by blast
  then have "xs = []" using hl_holdsD(3) [OF xs] empty by (simp add: handle_list_is_empty_def)
  then have "link_index (hl_head l) = None" using queue_list_head [OF hl_holdsD(1) [OF xs]] by simp
  from handle_step_inv [OF h handle_end [where ls = "process_lists ob", OF l this]] show ?thesis .
qed

lemma destroy_inv:
  assumes inv: "objects_inv ob" and run: "objects_destroy ob aid = (r, ob')"
    and empty: "\<And>p l. aid = any_of ProcessType p \<Longrightarrow> any_refs ob aid = 1 \<Longrightarrow> process_lists ob p = Some l \<Longrightarrow>
      handle_list_is_empty l"
  shows "objects_inv ob'"
proof -
  have h: "handle_inv (ob_handles ob, process_lists ob)" and pools: "pools_inv ob"
    using inv by (simp_all add: objects_inv_def)
  have drop: "pools_inv ob'" "ob_handles ob' = ob_handles ob"
    using destroy_effect [OF pools run] by (simp_all add: drop_spec_def)
  obtain ty oid where aid: "aid = any_of ty oid" by (rule any_id_cases)
  note P = destroy_processes [OF run [unfolded aid]]
  have "handle_inv (ob_handles ob, process_lists ob')"
  proof (cases "ty = ProcessType")
    case False
    then have "process_lists ob' = process_lists ob" using P by (simp add: process_lists_def fun_eq_iff)
    then show ?thesis using h by simp
  next
    case True
    obtain fl where "pool_wf (ob_processes ob) fl" using pools by (auto simp: pools_inv_def pool_inv_wf)
    then show ?thesis
    proof (cases rule: pool_release_cases [where oid = oid])
      case stale
      then show ?thesis using h P True by (simp add: process_lists_def [abs_def])
    next
      case more
      then show ?thesis using h P True by (simp add: process_lists_def [abs_def])
    next
      case (last v p')
      then have l: "process_lists ob oid = Some (pc_handles v)" by (simp add: process_lists_def)
      have "any_refs ob aid = 1"
        using last pool_release_refs(2) [of "ob_processes ob" oid] pools aid True
        by (auto simp: pools_inv_def split: if_splits)
      then have "handle_list_is_empty (pc_handles v)" using empty l aid True by simp
      from process_ends [OF h l this] have "handle_inv (ob_handles ob, (process_lists ob)(oid := None))" .
      moreover have "process_lists ob' = (process_lists ob)(oid := None)"
        using P True last by (simp add: process_lists_def fun_eq_iff)
      ultimately show ?thesis by simp
    qed
  qed
  then show ?thesis using drop by (simp add: objects_inv_def)
qed

lemma kill_inv:
  assumes inv: "objects_inv ob" and empty: "\<And>l. process_lists ob p = Some l \<Longrightarrow> handle_list_is_empty l"
  shows "objects_inv (ob\<lparr>ob_processes := snd (pool_force_release (ob_processes ob) p)\<rparr>)"
proof (cases "pool_map (ob_processes ob) p")
  case None
  then show ?thesis using inv by (simp add: pool_force_release_stale)
next
  case (Some v)
  have h: "handle_inv (ob_handles ob, process_lists ob)" and pools: "pools_inv ob"
    using inv by (simp_all add: objects_inv_def)
  obtain fl where "pool_wf (ob_processes ob) fl" using pools by (auto simp: pools_inv_def pool_inv_wf)
  then have "pool_map (snd (pool_force_release (ob_processes ob) p)) = (pool_map (ob_processes ob))(p := None)"
    using pool_force_release_spec [OF _ Some] by (metis snd_conv)
  then have "process_lists (ob\<lparr>ob_processes := snd (pool_force_release (ob_processes ob) p)\<rparr>) = (process_lists ob)(p := None)"
    by (simp add: process_lists_def fun_eq_iff)
  moreover have l: "process_lists ob p = Some (pc_handles v)" using Some by (simp add: process_lists_def)
  ultimately show ?thesis
    using process_ends [OF h l empty [OF l]] pools by (simp add: objects_inv_def pools_inv_def pool_inv_force_release)
qed

lemma pool_update_inv:
  assumes "objects_inv ob"
  shows "pool_inv p1 \<Longrightarrow> objects_inv (ob\<lparr>ob_threads := p1\<rparr>)" "pool_inv p2 \<Longrightarrow> objects_inv (ob\<lparr>ob_memory := p2\<rparr>)"
    "pool_inv p3 \<Longrightarrow> objects_inv (ob\<lparr>ob_endpoints := p3\<rparr>)" "pool_inv p4 \<Longrightarrow> objects_inv (ob\<lparr>ob_notifications := p4\<rparr>)"
    "pool_inv p5 \<Longrightarrow> objects_inv (ob\<lparr>ob_replies := p5\<rparr>)" "pool_inv p6 \<Longrightarrow> objects_inv (ob\<lparr>ob_interrupts := p6\<rparr>)"
    "pool_inv p7 \<Longrightarrow> objects_inv (ob\<lparr>ob_ports := p7\<rparr>)"
  using assms by (simp_all add: objects_inv_def pools_inv_def process_lists_def [abs_def])

lemma objects_inv_pools:
  assumes "objects_inv ob"
  shows "pool_inv (ob_threads ob)" "pool_inv (ob_memory ob)" "pool_inv (ob_endpoints ob)" "pool_inv (ob_notifications ob)"
    "pool_inv (ob_replies ob)" "pool_inv (ob_interrupts ob)" "pool_inv (ob_ports ob)"
  using assms by (simp_all add: objects_inv_def pools_inv_def)

lemma retain_inv:
  assumes "objects_inv ob" and "objects_retain ob aid = (r, ob')"
  shows "objects_inv ob'"
proof -
  have "retain_spec ob aid r ob'"
    using assms by (intro retain_spec_holds) (simp_all add: objects_inv_def)
  then show ?thesis
    using assms(1) by (cases r) (auto simp: retain_spec_def objects_inv_def process_lists_def [abs_def])
qed

lemma with_process_eq:
  "with_process ob p f = (pool_map (ob_processes ob) p \<noteq> None, ob\<lparr>ob_processes := pool_modify (ob_processes ob) p f\<rparr>)"
  "with_thread ob t g = (pool_map (ob_threads ob) t \<noteq> None, ob\<lparr>ob_threads := pool_modify (ob_threads ob) t g\<rparr>)"
  by (simp_all add: with_process_def with_thread_def pool_get_mut_eq split: option.splits)

lemma with_process_inv:
  assumes "objects_inv ob" and "\<And>v. pc_handles (f v) = pc_handles v"
  shows "objects_inv (snd (with_process ob p f))"
proof -
  have "process_lists (snd (with_process ob p f)) = process_lists ob"
    using assms(2) by (auto simp: process_lists_def with_process_eq fun_eq_iff pool_map_modify split: option.splits)
  then show ?thesis
    using assms(1) by (simp add: objects_inv_def with_process_eq pools_inv_def pool_inv_modify)
qed

lemma with_thread_inv: "objects_inv ob \<Longrightarrow> objects_inv (snd (with_thread ob t g))"
  by (simp add: objects_inv_def with_process_eq pools_inv_def pool_inv_modify process_lists_def [abs_def])

lemma store_step_inv: "store_step ob ob' \<Longrightarrow> objects_inv ob \<Longrightarrow> objects_inv ob'"
proof (induction rule: store_step.induct)
  case (store_change ob p f r ob')
  then show ?case using with_process_inv [of ob f p] by simp
next
  case (store_thread ob t g r ob')
  then show ?case using with_thread_inv [of ob t g] by simp
qed (blast intro: create_process_inv install_handle_inv close_handle_inv close_next_handle_inv retain_inv
    destroy_inv kill_inv pool_update_inv pool_inv_allocate pool_inv_force_release pool_inv_modify objects_inv_pools)+

lemma step_lookup:
  assumes "store_step ob ob'" and "objects_inv ob" and "arena_lookup (ob_handles ob') q k = Inr e"
  shows "arena_lookup (ob_handles ob) q k = Inr e \<or> install_handle ob q e = (Inr k, ob')"
  using assms
proof (induction rule: store_step.induct)
  case (store_install ob p x r ob')
  from install_lookup [OF store_install(2,1)] store_install(1,3) show ?case by (cases r) (auto split: if_splits)
next
  case (store_close ob p h r ob')
  from close_lookup [OF store_close(2,1), of q k] store_close(3) show ?case by simp
next
  case (store_close_next ob p r ob')
  from close_next_lookup [OF store_close_next(2,1), of q k] store_close_next(3) show ?case by simp
next
  case (store_retain ob aid r ob')
  have "ob_handles ob' = ob_handles ob"
    using retain_spec_holds [OF _ store_retain(1)] store_retain(2)
    by (auto simp: retain_spec_def objects_inv_def split: sum.splits)
  then show ?case using store_retain(3) by simp
next
  case (store_destroy ob aid r ob')
  have "ob_handles ob' = ob_handles ob"
    using destroy_effect [OF _ store_destroy(1)] store_destroy(3) by (simp add: drop_spec_def objects_inv_def)
  then show ?case using store_destroy(4) by simp
qed (auto simp: with_process_eq)

lemma machine_new_inv: "objects_inv machine_objects_new"
  unfolding machine_objects_new_def
  by (rule objects_inv_new) (simp_all add: PROCESSES_def THREADS_def MEMORY_OBJECTS_def HANDLE_ENTRIES_def)

lemma store_steps_inv: "store_step\<^sup>*\<^sup>* machine_objects_new ob \<Longrightarrow> objects_inv ob"
  by (induction rule: rtranclp_induct) (auto intro: store_step_inv machine_new_inv)

lemma new_lookup: "arena_lookup (handle_arena_new n) p h = Inl InvalidHandle"
  by (simp add: arena_lookup_eq arena_occupant_at_def arena_slot_def array_get_def handle_arena_new_def handle_slot_FREE_def)

lemma lookup_history:
  assumes "store_step\<^sup>*\<^sup>* machine_objects_new ob" and "arena_lookup (ob_handles ob) p h = Inr e"
  shows "\<exists>ob1 ob2. store_step\<^sup>*\<^sup>* machine_objects_new ob1 \<and> install_handle ob1 p e = (Inr h, ob2) \<and> store_step\<^sup>*\<^sup>* ob2 ob"
  using assms
proof (induction rule: rtranclp_induct)
  case base
  then show ?case by (simp add: machine_objects_new_def objects_new_def new_lookup)
next
  case (step y z)
  from step_lookup [OF step(2) store_steps_inv [OF step(1)] step(4)] show ?case
  proof
    assume "arena_lookup (ob_handles y) p h = Inr e"
    with step.IH step(2) show ?thesis by (meson rtranclp.rtrancl_into_rtrancl)
  next
    assume "install_handle y p e = (Inr h, z)"
    with step(1) show ?thesis by blast
  qed
qed

section \<open>Properties\<close>

text \<open>
  C26: access comes from handles alone. Whenever a process can resolve a handle, in any state that the
  machine reaches, exactly this handle was installed for exactly this process before, for this object
  and with these rights, and the rights include what the operation needs. Neither the creation or the
  end of objects and processes, nor references taken and dropped, nor the handles of other processes
  give a process access to anything.
\<close>

theorem resolve_confined:
  assumes "store_step\<^sup>*\<^sup>* machine_objects_new ob" and "objects_resolve ty ob p h required = Inr (oid, rights)"
  shows "\<exists>ob1 ob2 e. store_step\<^sup>*\<^sup>* machine_objects_new ob1 \<and> install_handle ob1 p e = (Inr h, ob2) \<and> store_step\<^sup>*\<^sup>* ob2 ob \<and>
    en_object e = any_of ty oid \<and> en_rights e = rights \<and> (\<forall>n. bit required n \<longrightarrow> bit rights n)"
proof -
  obtain e where e: "arena_lookup (ob_handles ob) p h = Inr e" "any_typed ty (en_object e) = Inr oid"
      "rights_contains (en_rights e) required" "rights = en_rights e"
    using assms(2) unfolding objects_resolve_def objects_entry_def try_result_eq_Inr
    by (elim exE conjE) (simp split: if_split_asm)
  have "\<forall>n. bit required n \<longrightarrow> bit (en_rights e) n"
    using e(3) rights_subset_bits [of required "en_rights e"] bit_imp_le_length [of required]
    by (auto simp: rights_is_subset_of_def)
  moreover have "en_object e = any_of ty oid"
    using e(2) by (auto simp: any_typed_def any_of_def split: if_splits)
  moreover obtain ob1 ob2 where "store_step\<^sup>*\<^sup>* machine_objects_new ob1" "install_handle ob1 p e = (Inr h, ob2)"
      "store_step\<^sup>*\<^sup>* ob2 ob"
    using lookup_history [OF assms(1) e(1)] by blast
  ultimately show ?thesis using e(4) by (intro exI [of _ ob1] exI [of _ ob2] exI [of _ e]) simp
qed

text \<open>
  C25: reference counting of the machine. Taking a reference raises the count of the object that the id
  names and no other; it fails for an id that names nothing and at the largest count. Dropping one
  lowers that count, and the object is destroyed, and reported with its id, exactly when the count
  was one. No handle changes.
\<close>

theorem reference_counting:
  assumes "objects_inv ob" and "objects_retain ob aid = (r, ob1)" and "objects_destroy ob aid = (d, ob2)"
  shows "(case r of
        Inl e \<Rightarrow> ob1 = ob \<and>
          (e = InvalidHandle \<and> any_refs ob aid = 0 \<or> e = QuotaExceeded \<and> any_refs ob aid = 2 ^ 32 - 1)
      | Inr _ \<Rightarrow> ob_handles ob1 = ob_handles ob \<and>
          any_refs ob1 = (if ao_type aid = SystemControlType then any_refs ob
            else (any_refs ob)(aid := any_refs ob aid + 1))) \<and>
    (case d of None \<Rightarrow> any_refs ob aid \<noteq> 1 | Some g \<Rightarrow> any_refs ob aid = 1 \<and> destroyed_id g = aid) \<and>
    any_refs ob2 = (any_refs ob)(aid := any_refs ob aid - 1) \<and> ob_handles ob2 = ob_handles ob"
proof -
  have "pools_inv ob" using assms(1) by (simp add: objects_inv_def)
  from retain_spec_holds [OF this assms(2)] destroy_effect [OF this assms(3)] show ?thesis
    by (cases r) (auto simp: retain_spec_def drop_spec_def)
qed

definition one_endpoint :: objects where
  "one_endpoint = (objects_new 2 2 2 4)\<lparr>ob_endpoints := snd (pool_allocate (pool_new 1) endpoint_EMPTY)\<rparr>"

lemma one_endpoint_inv: "objects_inv one_endpoint"
proof -
  have "objects_inv (objects_new 2 2 2 4)" by (rule objects_inv_new) simp_all
  then show ?thesis
    by (simp add: one_endpoint_def objects_inv_def pools_inv_def process_lists_def [abs_def] pool_inv_allocate pool_inv_new)
qed

theorem reference_counting_witness:
  "\<exists>g. fst (objects_destroy one_endpoint (any_of EndpointType (ObjectId 0 1))) = Some g \<and>
     destroyed_id g = any_of EndpointType (ObjectId 0 1) \<and>
     any_refs (snd (objects_retain one_endpoint (any_of EndpointType (ObjectId 0 1))))
       (any_of EndpointType (ObjectId 0 1)) = 2"
proof -
  let ?aid = "any_of EndpointType (ObjectId 0 1)"
  obtain r ob1 where r: "objects_retain one_endpoint ?aid = (r, ob1)" by (metis surj_pair)
  obtain d ob2 where d: "objects_destroy one_endpoint ?aid = (d, ob2)" by (metis surj_pair)
  have "any_refs one_endpoint ?aid = 1"
    by (simp add: one_endpoint_def pool_refs_def pool_references_def pool_eval)
  then show ?thesis
    using reference_counting [OF one_endpoint_inv r d] by (cases r; cases d) (simp_all add: r d)
qed

text \<open>
  C24: the machine keeps its processes and their handles consistent. From the empty machine, however
  objects of every kind are created, handles installed and closed, references taken and dropped, threads
  and processes released and objects changed, every pool is well formed, the list inside every live process threads exactly the slots the
  process owns, and every handle belongs to a live process, so no process is left with the handles of
  one that is gone.
\<close>

theorem store_invariant:
  assumes "store_step\<^sup>*\<^sup>* machine_objects_new ob"
  shows "pools_inv ob \<and> arena_inv (ob_handles ob) \<and>
    (\<forall>p v. pool_map (ob_processes ob) p = Some v \<longrightarrow> (\<exists>xs. hl_holds (ob_handles ob) p (pc_handles v) xs)) \<and>
    (\<forall>p h e. arena_lookup (ob_handles ob) p h = Inr e \<longrightarrow> holds_process ob p)"
proof -
  have inv: "objects_inv ob" using assms by (rule store_steps_inv)
  then have h: "handle_inv (ob_handles ob, process_lists ob)" by (simp add: objects_inv_def)
  have "holds_process ob p" if "arena_lookup (ob_handles ob) p h = Inr e" for p h e
  proof -
    have "owned (ob_handles ob) p (handle_index h)"
      using that by (auto simp: arena_lookup_eq owned_def split: option.splits if_splits)
    from handle_invD(3) [OF \<open>handle_inv _\<close> this] show ?thesis
      by (auto simp: process_lists_def holds_process_def pool_get_map)
  qed
  with inv handle_invD(1,2) [OF h] show ?thesis
    by (auto simp: objects_inv_def process_lists_def)
qed

text \<open>A machine with an endpoint, of which a reference was taken and dropped, and a process.\<close>

definition example_process :: process where
  "example_process = process_new 0 (handle_list_with_capacity 4) (quota_new 1) (quota_new 1)"

definition example_endpoint :: any_object_id where
  "example_endpoint = any_of EndpointType (ObjectId 0 1)"

definition example_machine :: objects where
  "example_machine =
     (let ob = machine_objects_new\<lparr>ob_endpoints := snd (pool_allocate (ob_endpoints machine_objects_new) endpoint_EMPTY)\<rparr>;
          ob = snd (objects_destroy (snd (objects_retain ob example_endpoint)) example_endpoint)
      in ob\<lparr>ob_processes := snd (pool_allocate (ob_processes ob) example_process)\<rparr>)"

lemma example_machine_step: "store_step\<^sup>*\<^sup>* machine_objects_new example_machine"
proof -
  define ob where "ob = machine_objects_new\<lparr>ob_endpoints := snd (pool_allocate (ob_endpoints machine_objects_new) endpoint_EMPTY)\<rparr>"
  define ob1 where "ob1 = snd (objects_retain ob example_endpoint)"
  define ob2 where "ob2 = snd (objects_destroy ob1 example_endpoint)"
  have 1: "store_step machine_objects_new ob" unfolding ob_def by (rule store_new_endpoint)
  have 2: "store_step ob ob1" unfolding ob1_def by (rule store_retain) (rule prod.collapse [symmetric])
  have 3: "store_step ob1 ob2" unfolding ob2_def
    by (rule store_destroy [OF prod.collapse [symmetric]]) (simp add: example_endpoint_def any_of_def)
  have 4: "store_step ob2 example_machine" unfolding example_machine_def Let_def ob2_def ob1_def ob_def
    by (rule store_create [where n = 4, OF prod.collapse [symmetric]]) (simp add: example_process_def process_new_def)
  show ?thesis using 1 2 3 4 by (rule rtranclp.rtrancl_into_rtrancl [OF rtranclp.rtrancl_into_rtrancl
    [OF rtranclp.rtrancl_into_rtrancl [OF r_into_rtranclp]]])
qed

lemma example_machine_parts:
  "ob_handles example_machine = handle_arena_new HANDLE_ENTRIES"
  "pool_map (ob_processes example_machine) (ObjectId 0 1) = Some example_process"
proof -
  have same: "ob_processes (snd (objects_retain ob example_endpoint)) = ob_processes ob"
      "ob_handles (snd (objects_retain ob example_endpoint)) = ob_handles ob"
      "ob_processes (snd (objects_destroy ob example_endpoint)) = ob_processes ob"
      "ob_handles (snd (objects_destroy ob example_endpoint)) = ob_handles ob" for ob
    by (auto simp: example_endpoint_def objects_retain_def objects_destroy_def loudly_def on_pool_def split: sum.splits prod.splits)
  show "ob_handles example_machine = handle_arena_new HANDLE_ENTRIES"
    by (simp add: example_machine_def Let_def same machine_objects_new_def objects_new_def)
  show "pool_map (ob_processes example_machine) (ObjectId 0 1) = Some example_process"
    by (simp add: example_machine_def Let_def same machine_objects_new_def objects_new_def PROCESSES_def pool_eval)
qed

lemma example_installed:
  obtains ob h where "store_step\<^sup>*\<^sup>* machine_objects_new ob"
    "arena_lookup (ob_handles ob) (ObjectId 0 1) h = Inr (entry_new example_endpoint rights)"
proof -
  let ?p = "ObjectId 0 1" and ?e = "entry_new example_endpoint rights"
  obtain r l a where ins: "arena_insert (ob_handles example_machine) ?p (pc_handles example_process) ?e = (r, l, a)"
    by (metis surj_pair)
  have h: "handle_inv (ob_handles example_machine, process_lists example_machine)"
    using store_steps_inv [OF example_machine_step] by (simp add: objects_inv_def)
  obtain xs where xs: "hl_holds (ob_handles example_machine) ?p (pc_handles example_process) xs"
    using handle_invD(2) [OF h, of ?p] example_machine_parts(2) by (auto simp: process_lists_def)
  from handle_invD(1) [OF h] xs ins obtain h where h: "r = Inr h" "arena_lookup a ?p h = Inr ?e"
    by (cases rule: insert_effect)
      (auto simp: example_machine_parts example_process_def process_new_def handle_list_with_capacity_def
        handle_arena_new_def HANDLE_ENTRIES_def)
  obtain ob where ob: "install_handle example_machine ?p ?e = (Inr h, ob)" "ob_handles ob = a"
    using ins h(1) by (simp add: install_handle_def pool_get_map example_machine_parts(2) write_list_def)
  have "store_step\<^sup>*\<^sup>* machine_objects_new ob"
    using example_machine_step store_install [OF ob(1)] by (rule rtranclp.rtrancl_into_rtrancl)
  with that h(2) ob(2) show thesis by simp
qed

theorem store_invariant_witness:
  "\<exists>ob h. store_step\<^sup>*\<^sup>* machine_objects_new ob \<and>
     arena_lookup (ob_handles ob) (ObjectId 0 1) h = Inr (entry_new example_endpoint RIGHT_SEND) \<and>
     holds_process ob (ObjectId 0 1)"
  using example_installed [where rights = RIGHT_SEND] store_invariant by metis

theorem resolve_confined_witness:
  "\<exists>ob h ob1 ob2 e. objects_resolve EndpointType ob (ObjectId 0 1) h RIGHT_SEND = Inr (ObjectId 0 1, RIGHT_SEND) \<and>
     install_handle ob1 (ObjectId 0 1) e = (Inr h, ob2) \<and> en_object e = example_endpoint \<and> store_step\<^sup>*\<^sup>* ob2 ob"
proof -
  obtain ob h where ob: "store_step\<^sup>*\<^sup>* machine_objects_new ob"
    "arena_lookup (ob_handles ob) (ObjectId 0 1) h = Inr (entry_new example_endpoint RIGHT_SEND)"
    by (rule example_installed)
  have res: "objects_resolve EndpointType ob (ObjectId 0 1) h RIGHT_SEND = Inr (ObjectId 0 1, RIGHT_SEND)"
    using ob(2) by (simp add: objects_resolve_def objects_entry_def entry_new_def example_endpoint_def any_typed_def
        any_of_def rights_contains_def)
  from resolve_confined [OF ob(1) res] res show ?thesis unfolding example_endpoint_def by blast
qed

end
