(* ===== verification/Transition.thy ===== *)
theory Transition
  imports Abi
begin

text \<open>
  The state machine of a thread, \<open>src/crates/kernel/sched/src/transition.rs\<close>: the events, the rows of
  the legal transitions, the table that is built from the rows at compile time, and the look-up in it.
  The assertions of the table's construction are the value \<open>None\<close>: a table that trips one does not
  compile. The lemmas show that none does, that the look-up agrees with the rows, and what a thread can
  and cannot do along a sequence of events.
\<close>

datatype event =
    EvStart | EvSchedule | EvSliceExpired | EvDisplaced | EvYield | EvBlockSend | EvBlockRecv
  | EvBlockReply | EvBlockNotification | EvWake | EvSuspend | EvResume | EvFault | EvExit

definition event_ALL :: "event list" where
  "event_ALL = [EvStart, EvSchedule, EvSliceExpired, EvDisplaced, EvYield, EvBlockSend, EvBlockRecv,
     EvBlockReply, EvBlockNotification, EvWake, EvSuspend, EvResume, EvFault, EvExit]"

fun blocked_state :: "event \<Rightarrow> thread_state option" where
  "blocked_state EvBlockSend = Some BlockedSend"
| "blocked_state EvBlockRecv = Some BlockedRecv"
| "blocked_state EvBlockReply = Some BlockedReply"
| "blocked_state EvBlockNotification = Some BlockedNotification"
| "blocked_state _ = None"

definition TRANSITIONS :: "(thread_state \<times> event \<times> thread_state) list" where
  "TRANSITIONS =
     [(Inactive, EvStart, Ready),
      (Inactive, EvSuspend, Suspended),
      (Inactive, EvExit, Exited),
      (Ready, EvSchedule, Running),
      (Ready, EvSuspend, Suspended),
      (Ready, EvExit, Exited),
      (Running, EvSliceExpired, Ready),
      (Running, EvDisplaced, Ready),
      (Running, EvYield, Ready),
      (Running, EvBlockSend, BlockedSend),
      (Running, EvBlockRecv, BlockedRecv),
      (Running, EvBlockReply, BlockedReply),
      (Running, EvBlockNotification, BlockedNotification),
      (Running, EvSuspend, Suspended),
      (Running, EvFault, Faulted),
      (Running, EvExit, Exited),
      (BlockedSend, EvWake, Ready),
      (BlockedSend, EvSuspend, Suspended),
      (BlockedSend, EvExit, Exited),
      (BlockedSend, EvBlockReply, BlockedReply),
      (BlockedRecv, EvWake, Ready),
      (BlockedRecv, EvSuspend, Suspended),
      (BlockedRecv, EvExit, Exited),
      (BlockedReply, EvWake, Ready),
      (BlockedReply, EvSuspend, Suspended),
      (BlockedReply, EvExit, Exited),
      (BlockedNotification, EvWake, Ready),
      (BlockedNotification, EvSuspend, Suspended),
      (BlockedNotification, EvExit, Exited),
      (Suspended, EvResume, Ready),
      (Suspended, EvExit, Exited),
      (Faulted, EvResume, Ready),
      (Faulted, EvExit, Exited)]"

text \<open>The discriminants: codes from one for a state, positions from zero for an event.\<close>

definition state_index :: "thread_state \<Rightarrow> nat" where
  "state_index s = unat (thread_state_code s)"

fun event_index :: "event \<Rightarrow> nat" where
  "event_index EvStart = 0"
| "event_index EvSchedule = 1"
| "event_index EvSliceExpired = 2"
| "event_index EvDisplaced = 3"
| "event_index EvYield = 4"
| "event_index EvBlockSend = 5"
| "event_index EvBlockRecv = 6"
| "event_index EvBlockReply = 7"
| "event_index EvBlockNotification = 8"
| "event_index EvWake = 9"
| "event_index EvSuspend = 10"
| "event_index EvResume = 11"
| "event_index EvFault = 12"
| "event_index EvExit = 13"

definition STATES :: nat where "STATES = length thread_state_ALL + 1"

definition EVENTS :: nat where "EVENTS = length event_ALL"

text \<open>The constant evaluation of the table: an assertion or an index that fails stops it.\<close>

fun fill_rows ::
  "(thread_state \<times> event \<times> thread_state) list \<Rightarrow> thread_state option list list \<Rightarrow>
   thread_state option list list option" where
  "fill_rows [] table = Some table"
| "fill_rows ((from, event, to) # rows) table =
     (if state_index from < length table \<and> event_index event < length (table ! state_index from) \<and>
         table ! state_index from ! event_index event = None
      then fill_rows rows (table[state_index from := (table ! state_index from)[event_index event := Some to]])
      else None)"

definition LOOKUP :: "thread_state option list list option" where
  "LOOKUP =
     (if list_all (\<lambda>s. state_index s < STATES) thread_state_ALL \<and>
         list_all (\<lambda>i. event_index (event_ALL ! i) = i) [0..<EVENTS]
      then fill_rows TRANSITIONS (replicate STATES (replicate EVENTS None))
      else None)"

definition transition_next :: "thread_state \<Rightarrow> event \<Rightarrow> error + thread_state" where
  "transition_next state event =
     ok_or (Option.bind LOOKUP (\<lambda>table.
       Option.bind (array_get table (state_index state)) (\<lambda>row.
         Option.bind (array_get row (event_index event)) (\<lambda>cell. cell)))) InvalidState"

definition is_legal :: "thread_state \<Rightarrow> event \<Rightarrow> bool" where
  "is_legal state event = is_ok (transition_next state event)"

section \<open>The table and the rows\<close>

definition cell :: "thread_state option list list \<Rightarrow> thread_state \<Rightarrow> event \<Rightarrow> thread_state option" where
  "cell table s e = Option.bind (array_get table (state_index s)) (\<lambda>row.
     Option.bind (array_get row (event_index e)) (\<lambda>c. c))"

lemma state_index_inject [simp]: "state_index s = state_index t \<longleftrightarrow> s = t"
  by (metis state_index_def thread_state_from_code_code option.inject unat_inject)

lemma event_index_nth: "event_ALL ! event_index e = e"
  by (cases e) (simp_all add: event_ALL_def)

lemma event_index_inject [simp]: "event_index e = event_index f \<longleftrightarrow> e = f"
  by (metis event_index_nth)

lemma cell_update:
  assumes "state_index s < length table" and "event_index e < length (table ! state_index s)"
  shows "cell (table[state_index s := (table ! state_index s)[event_index e := c]]) s' e' =
    (if s' = s \<and> e' = e then c else cell table s' e')"
  using assms by (auto simp: cell_def array_get_def nth_list_update)

lemma fill_rows_cell:
  assumes "fill_rows rows table = Some table'"
  shows "cell table' s e = Some t \<longleftrightarrow> cell table s e = Some t \<or> (s, e, t) \<in> set rows"
  using assms
proof (induction rows table rule: fill_rows.induct)
  case (2 fr event to rows table)
  have ok: "state_index fr < length table" "event_index event < length (table ! state_index fr)"
    "table ! state_index fr ! event_index event = None"
    using "2.prems" by (auto split: if_splits)
  then have "cell table fr event = None" by (simp add: cell_def array_get_def)
  with 2 ok show ?case by (auto simp: cell_update)
qed simp

lemma LOOKUP_compiles: "LOOKUP \<noteq> None"
  by code_simp

lemma transition_next_iff: "transition_next s e = Inr t \<longleftrightarrow> (s, e, t) \<in> set TRANSITIONS"
proof -
  obtain table where table: "LOOKUP = Some table" using LOOKUP_compiles by auto
  then have "fill_rows TRANSITIONS (replicate STATES (replicate EVENTS None)) = Some table"
    by (simp add: LOOKUP_def split: if_splits)
  from fill_rows_cell [OF this, of s e t] have "cell table s e = Some t \<longleftrightarrow> (s, e, t) \<in> set TRANSITIONS"
    by (auto simp: cell_def array_get_def split: if_splits)
  moreover have "transition_next s e = ok_or (cell table s e) InvalidState"
    by (simp add: transition_next_def table cell_def)
  ultimately show ?thesis
    by (cases "cell table s e") (auto simp: ok_or_def)
qed

lemma transition_next_error: "transition_next s e = Inl x \<Longrightarrow> x = InvalidState"
  by (auto simp: transition_next_def ok_or_def split: option.splits)

text \<open>The rows as equations, for evaluation.\<close>

lemma transition_next_eval:
  "transition_next s e = (case map_of (map (\<lambda>(s, e, t). ((s, e), t)) TRANSITIONS) (s, e) of
     None \<Rightarrow> Inl InvalidState | Some t \<Rightarrow> Inr t)"
proof -
  have "distinct (map fst (map (\<lambda>(s, e, t). ((s, e), t)) TRANSITIONS))"
    by (simp add: TRANSITIONS_def)
  then have "map_of (map (\<lambda>(s, e, t). ((s, e), t)) TRANSITIONS) (s, e) = Some t \<longleftrightarrow>
      transition_next s e = Inr t" for t
    by (subst map_of_eq_Some_iff) (force simp: transition_next_iff)+
  then show ?thesis
    by (cases "transition_next s e")
      (auto dest: transition_next_error split: option.splits)
qed

section \<open>Properties\<close>

text \<open>
  C27: the table of transitions compiles, and the constant-time look-up in it is exactly the rows: an
  event leads from a state to another if and only if there is a row that says so, the row is unique,
  and every other pair is refused with \<open>InvalidState\<close>.
\<close>

theorem transition_lookup_exact:
  "LOOKUP \<noteq> None \<and> (transition_next s e = Inr t \<longleftrightarrow> (s, e, t) \<in> set TRANSITIONS) \<and>
   (is_legal s e \<longleftrightarrow> (\<exists>!t. (s, e, t) \<in> set TRANSITIONS)) \<and>
   (\<not> is_legal s e \<longleftrightarrow> transition_next s e = Inl InvalidState)"
proof -
  have "is_legal s e \<longleftrightarrow> (\<exists>!t. (s, e, t) \<in> set TRANSITIONS)"
    unfolding is_legal_def transition_next_iff [symmetric] by (cases "transition_next s e") auto
  moreover have "\<not> is_legal s e \<longleftrightarrow> transition_next s e = Inl InvalidState"
    by (cases "transition_next s e") (auto simp: is_legal_def dest: transition_next_error)
  ultimately show ?thesis
    by (simp add: LOOKUP_compiles transition_next_iff)
qed

text \<open>
  C28: the life of a thread. It gets on the processor only from \<open>Ready\<close> and only because the scheduler
  picked it; it waits exactly after the event that blocks it, so a blocked thread never runs before it
  is woken; it can be ended in every state, after which nothing happens to it; and as long as it has
  not ended, one event can make it ready again.
\<close>

theorem thread_life:
  "(transition_next s e = Inr Running \<longleftrightarrow> s = Ready \<and> e = EvSchedule) \<and>
   (\<forall>t. transition_next s e = Inr t \<longrightarrow> (is_blocked t \<longleftrightarrow> blocked_state e = Some t)) \<and>
   (is_dead s \<longleftrightarrow> (\<forall>f. \<not> is_legal s f)) \<and>
   (\<not> is_dead s \<longrightarrow> transition_next s EvExit = Inr Exited \<and>
      (s = Ready \<or> (\<exists>f. transition_next s f = Inr Ready)))"
proof -
  have "is_dead s \<longleftrightarrow> (\<forall>f. \<not> is_legal s f)"
  proof (cases s)
    case Exited
    then show ?thesis by (simp add: is_dead_def is_legal_def transition_next_eval TRANSITIONS_def)
  qed (force simp: is_dead_def is_legal_def transition_next_eval TRANSITIONS_def)+
  moreover have "\<forall>t. transition_next s e = Inr t \<longrightarrow> (is_blocked t \<longleftrightarrow> blocked_state e = Some t)"
    by (auto simp: transition_next_iff TRANSITIONS_def is_blocked_def)
  moreover have "transition_next s e = Inr Running \<longleftrightarrow> s = Ready \<and> e = EvSchedule"
    by (simp add: transition_next_iff TRANSITIONS_def)
  moreover have "\<not> is_dead s \<longrightarrow> transition_next s EvExit = Inr Exited \<and>
      (s = Ready \<or> (\<exists>f. transition_next s f = Inr Ready))"
    by (cases s) (auto simp: transition_next_iff TRANSITIONS_def is_dead_def)
  ultimately show ?thesis by blast
qed

theorem thread_life_witness:
  "transition_next BlockedSend EvExit = Inr Exited \<and> (\<exists>f. transition_next BlockedSend f = Inr Ready) \<and>
   transition_next BlockedSend EvWake \<noteq> Inr Running"
  using thread_life [of BlockedSend EvWake] by (simp add: is_dead_def)

end
