(* ===== verification/Deadline.thy ===== *)
theory Deadline
  imports WaitQueue "HOL-Library.Multiset"
begin

text \<open>
  The deadlines of blocked threads, \<open>src/crates/kernel/sched/src/deadline.rs\<close>: a binary min-heap in an
  array of fixed capacity, ordered by deadline and then by the order of insertion, where each thread
  records the index of its entry. \<open>Deadlines<CAPACITY>\<close> is \<open>deadlines\<close> with \<open>CAPACITY\<close> the length of
  the array. An index outside the array panics in the code; every index used here is below the number
  of occupied entries, which the invariant \<open>dl_inv\<close> keeps below the capacity, so the indices and their
  arithmetic are plain natural numbers. The comparison counter of the tests is left out.
\<close>

record dl_entry =
  de_deadline :: u64
  de_order :: u64
  de_id :: object_id

definition dl_entry_EMPTY :: dl_entry where
  "dl_entry_EMPTY = \<lparr>de_deadline = 0, de_order = 0, de_id = ObjectId 0 0\<rparr>"

record deadlines =
  dl_entries :: "dl_entry list"
  dl_len :: nat
  dl_order :: u64

definition deadlines_new :: "nat \<Rightarrow> deadlines" where
  "deadlines_new capacity = \<lparr>dl_entries = replicate capacity dl_entry_EMPTY, dl_len = 0, dl_order = 0\<rparr>"

definition dl_first :: "deadlines \<Rightarrow> object_id option" where
  "dl_first d = (if dl_len d = 0 then None else Some (de_id (dl_entries d ! 0)))"

definition dl_can_insert :: "deadlines \<Rightarrow> thread pool \<Rightarrow> object_id \<Rightarrow> error + unit" where
  "dl_can_insert d threads oid =
     (case pool_get threads oid of
        Inl _ \<Rightarrow> Inl InvalidHandle
      | Inr thread \<Rightarrow>
          if th_deadline_index thread \<noteq> None \<or> th_deadline thread \<noteq> None then Inl InvalidState
          else if dl_len d = length (dl_entries d) then Inl PoolExhausted
          else if dl_order d = - 1 then Inl QuotaExceeded
          else Inr ())"

definition dl_before :: "deadlines \<Rightarrow> nat \<Rightarrow> nat \<Rightarrow> bool" where
  "dl_before d left right =
     (let left = dl_entries d ! left; right = dl_entries d ! right
      in de_deadline left < de_deadline right \<or>
         de_deadline left = de_deadline right \<and> de_order left < de_order right)"

definition dl_record_index :: "deadlines \<Rightarrow> thread pool \<Rightarrow> nat \<Rightarrow> thread pool" where
  "dl_record_index d threads index =
     snd (pool_with threads (de_id (dl_entries d ! index)) (\<lambda>thread. thread\<lparr>th_deadline_index := Some index\<rparr>))"

definition dl_swap :: "deadlines \<Rightarrow> thread pool \<Rightarrow> nat \<Rightarrow> nat \<Rightarrow> deadlines \<times> thread pool" where
  "dl_swap d threads left right =
     (let d = d\<lparr>dl_entries := (dl_entries d)[left := dl_entries d ! right, right := dl_entries d ! left]\<rparr>;
          threads = dl_record_index d threads left;
          threads = dl_record_index d threads right
      in (d, threads))"

lemma dl_swap_len: "dl_swap d threads left right = (d', threads') \<Longrightarrow> dl_len d' = dl_len d"
  by (auto simp: dl_swap_def Let_def)

function dl_sift_up :: "deadlines \<Rightarrow> thread pool \<Rightarrow> nat \<Rightarrow> nat \<times> deadlines \<times> thread pool" where
  "dl_sift_up d threads at =
     (if at = 0 then (at, d, threads)
      else let parent = (at - 1) div 2
           in if \<not> dl_before d at parent then (at, d, threads)
              else case dl_swap d threads at parent of (d, threads) \<Rightarrow> dl_sift_up d threads parent)"
  by auto
termination
  by (relation "measure (\<lambda>(d, threads, at). at)") auto

text \<open>The smaller child of an entry.\<close>

definition dl_child :: "deadlines \<Rightarrow> nat \<Rightarrow> nat" where
  "dl_child d at =
     (let left = 2 * at + 1; right = left + 1
      in if right < dl_len d \<and> dl_before d right left then right else left)"

function dl_sift_down :: "deadlines \<Rightarrow> thread pool \<Rightarrow> nat \<Rightarrow> deadlines \<times> thread pool" where
  "dl_sift_down d threads at =
     (if at < dl_len d div 2 then
        let child = dl_child d at
        in if \<not> dl_before d child at then (d, threads)
           else case dl_swap d threads at child of (d, threads) \<Rightarrow> dl_sift_down d threads child
      else (d, threads))"
  by auto
termination
proof (relation "measure (\<lambda>(d, threads, at). dl_len d - at)")
  fix d threads at child d' threads'
  assume *: "at < dl_len d div 2" "child = dl_child d at" "\<not> \<not> dl_before d child at"
    "(d', threads') = dl_swap d threads at child"
  have "dl_len d' = dl_len d" using dl_swap_len [OF *(4) [symmetric]] .
  moreover have "at < child" using *(2) by (auto simp: dl_child_def Let_def)
  ultimately show "((d', threads', child), d, threads, at) \<in> measure (\<lambda>(d, threads, at). dl_len d - at)"
    using *(1) by auto
qed simp

declare dl_sift_up.simps [simp del] dl_sift_down.simps [simp del]

definition dl_insert :: "deadlines \<Rightarrow> thread pool \<Rightarrow> object_id \<Rightarrow> u64 \<Rightarrow> (error + unit) \<times> deadlines \<times> thread pool" where
  "dl_insert d threads oid deadline =
     (case dl_can_insert d threads oid of
        Inl e \<Rightarrow> (Inl e, d, threads)
      | Inr _ \<Rightarrow>
          let index = dl_len d;
              d = d\<lparr>dl_entries := (dl_entries d)[index := \<lparr>de_deadline = deadline, de_order = dl_order d, de_id = oid\<rparr>]\<rparr>;
              d = d\<lparr>dl_order := dl_order d + 1\<rparr>;
              d = d\<lparr>dl_len := dl_len d + 1\<rparr>;
              threads = snd (pool_with threads oid
                (\<lambda>thread. thread\<lparr>th_deadline := Some deadline, th_deadline_index := Some index\<rparr>))
          in case dl_sift_up d threads index of (_, d, threads) \<Rightarrow> (Inr (), d, threads))"

definition dl_remove_at :: "deadlines \<Rightarrow> thread pool \<Rightarrow> nat \<Rightarrow> deadlines \<times> thread pool" where
  "dl_remove_at d threads index =
     (let removed = dl_entries d ! index;
          threads = snd (pool_with threads (de_id removed)
            (\<lambda>thread. thread\<lparr>th_deadline := None, th_deadline_index := None\<rparr>));
          d = d\<lparr>dl_len := dl_len d - 1\<rparr>;
          (d, threads) =
            (if index \<noteq> dl_len d then
               let d = d\<lparr>dl_entries := (dl_entries d)[index := dl_entries d ! dl_len d]\<rparr>;
                   threads = dl_record_index d threads index
               in case dl_sift_up d threads index of (at, d, threads) \<Rightarrow> dl_sift_down d threads at
             else (d, threads));
          d = d\<lparr>dl_entries := (dl_entries d)[dl_len d := dl_entry_EMPTY]\<rparr>;
          d = (if dl_len d = 0 then d\<lparr>dl_order := 0\<rparr> else d)
      in (d, threads))"

lemma dl_sift_up_len: "dl_sift_up d threads at = (at', d', threads') \<Longrightarrow> dl_len d' = dl_len d"
proof (induction d threads at rule: dl_sift_up.induct)
  case (1 d threads at)
  show ?case
    using "1.prems" "1.IH" dl_swap_len [of d threads at "(at - 1) div 2"]
    by (subst (asm) dl_sift_up.simps) (auto simp: Let_def split: if_splits prod.splits)
qed

lemma dl_sift_down_len: "dl_sift_down d threads at = (d', threads') \<Longrightarrow> dl_len d' = dl_len d"
proof (induction d threads at rule: dl_sift_down.induct)
  case (1 d threads at)
  show ?case
    using "1.prems" "1.IH" dl_swap_len [of d threads at "dl_child d at"]
    by (subst (asm) dl_sift_down.simps) (auto simp: Let_def split: if_splits prod.splits)
qed

lemma dl_remove_at_len: "dl_remove_at d threads index = (d', threads') \<Longrightarrow> dl_len d' = dl_len d - 1"
  by (auto simp: dl_remove_at_def Let_def dest!: dl_sift_up_len dl_sift_down_len split: prod.splits if_splits)

function dl_expired :: "deadlines \<Rightarrow> thread pool \<Rightarrow> u64 \<Rightarrow> object_id option \<times> deadlines \<times> thread pool" where
  "dl_expired d threads now =
     (if dl_len d \<noteq> 0 then
        let entry = dl_entries d ! 0
        in if \<not> (case pool_get threads (de_id entry) of
                   Inl _ \<Rightarrow> False | Inr thread \<Rightarrow> th_deadline thread = Some (de_deadline entry))
           then case dl_remove_at d threads 0 of (d, threads) \<Rightarrow> dl_expired d threads now
           else if now < de_deadline entry then (None, d, threads)
           else case dl_remove_at d threads 0 of (d, threads) \<Rightarrow> (Some (de_id entry), d, threads)
      else (None, d, threads))"
  by auto
termination
  by (relation "measure (\<lambda>(d, threads, now). dl_len d)") (auto dest!: dl_remove_at_len [OF sym])

declare dl_expired.simps [simp del]

definition dl_remove :: "deadlines \<Rightarrow> thread pool \<Rightarrow> object_id \<Rightarrow> deadlines \<times> thread pool" where
  "dl_remove d threads oid =
     (case pool_get threads oid of
        Inl _ \<Rightarrow> (d, threads)
      | Inr thread \<Rightarrow>
          (case th_deadline_index thread of
             None \<Rightarrow> (d, threads)
           | Some index \<Rightarrow>
               if index < dl_len d \<and> de_id (dl_entries d ! index) = oid
               then dl_remove_at d threads index else (d, threads)))"

section \<open>Heaps in an array\<close>

text \<open>The keys of a heap as a function of the index: below \<open>n\<close>, no key is less than its parent's.\<close>

definition parent :: "nat \<Rightarrow> nat" where "parent i = (i - 1) div 2"

definition heap_on :: "(nat \<Rightarrow> nat) \<Rightarrow> nat \<Rightarrow> bool" where
  "heap_on k n \<longleftrightarrow> (\<forall>i. 0 < i \<and> i < n \<longrightarrow> k (parent i) \<le> k i)"

text \<open>A heap but for the key at \<open>j\<close>, which may be too small, too large, or either.\<close>

definition heap_but :: "(nat \<Rightarrow> nat) \<Rightarrow> nat \<Rightarrow> nat \<Rightarrow> bool" where
  "heap_but k n j \<longleftrightarrow> (\<forall>i. 0 < i \<and> i < n \<longrightarrow>
     (i \<noteq> j \<and> parent i \<noteq> j \<longrightarrow> k (parent i) \<le> k i) \<and> (parent i = j \<and> 0 < j \<longrightarrow> k (parent j) \<le> k i))"

definition heap_up :: "(nat \<Rightarrow> nat) \<Rightarrow> nat \<Rightarrow> nat \<Rightarrow> bool" where
  "heap_up k n j \<longleftrightarrow> heap_but k n j \<and> (\<forall>i. 0 < i \<and> i < n \<and> parent i = j \<longrightarrow> k j \<le> k i)"

definition heap_down :: "(nat \<Rightarrow> nat) \<Rightarrow> nat \<Rightarrow> nat \<Rightarrow> bool" where
  "heap_down k n j \<longleftrightarrow> heap_but k n j \<and> (0 < j \<and> j < n \<longrightarrow> k (parent j) \<le> k j)"

lemma heap_butD:
  assumes "heap_but k n j" and "0 < i" and "i < n"
  shows "i \<noteq> j \<Longrightarrow> parent i \<noteq> j \<Longrightarrow> k (parent i) \<le> k i" "parent i = j \<Longrightarrow> 0 < j \<Longrightarrow> k (parent j) \<le> k i"
  using assms by (auto simp: heap_but_def)

lemma parent_less: "0 < i \<Longrightarrow> parent i < i"
  by (auto simp: parent_def)

lemma heap_on_but: "heap_on k n \<Longrightarrow> heap_but k n j"
proof -
  assume h: "heap_on k n"
  have "k (parent j) \<le> k i" if "0 < i" "i < n" "parent i = j" "0 < j" for i
  proof -
    have "j < n" using that parent_less [of i] by simp
    then have "k (parent j) \<le> k j" using h that by (simp add: heap_on_def)
    also have "k j \<le> k i" using h that by (auto simp: heap_on_def)
    finally show ?thesis .
  qed
  with h show ?thesis by (auto simp: heap_but_def heap_on_def)
qed

lemma heap_on_down: "heap_on k n \<Longrightarrow> heap_down k n j"
  using heap_on_but by (auto simp: heap_down_def heap_on_def)

lemma heap_up_on: "heap_up k n j \<Longrightarrow> 0 < j \<Longrightarrow> k (parent j) \<le> k j \<Longrightarrow> heap_on k n"
  by (auto simp: heap_up_def heap_but_def heap_on_def)

lemma heap_up_root: "heap_up k n 0 \<Longrightarrow> heap_on k n"
  by (auto simp: heap_up_def heap_but_def heap_on_def)

lemma heap_up_step:
  assumes h: "heap_but k n j" and j: "0 < j" "j < n" and less: "k j < k (parent j)"
  shows "heap_up (k(j := k (parent j), parent j := k j)) n (parent j)"
proof -
  let ?p = "parent j" and ?k = "k(j := k (parent j), parent j := k j)"
  have pj: "?p < j" using j parent_less by blast
  have at_p: "k ?p \<le> k i" if "0 < i" "i < n" "parent i = ?p" "i \<noteq> j" for i
    using heap_butD(1) [OF h that(1,2)] that pj by auto
  have up: "k (parent ?p) \<le> k ?p" if "0 < ?p"
    using heap_butD(1) [OF h that] pj j parent_less [OF that] by auto
  show ?thesis
    unfolding heap_up_def heap_but_def
  proof (intro conjI allI impI)
    fix i assume i: "0 < i \<and> i < n" and ne: "i \<noteq> ?p \<and> parent i \<noteq> ?p"
    show "?k (parent i) \<le> ?k i"
      using heap_butD [OF h, of i] i ne j pj by (cases "parent i = j") auto
  next
    fix i assume i: "0 < i \<and> i < n" "parent i = ?p \<and> 0 < ?p"
    have "parent ?p \<noteq> j" "parent ?p \<noteq> ?p" using pj parent_less [of ?p] i by auto
    then show "?k (parent ?p) \<le> ?k i"
      using up at_p [of i] i pj parent_less [of i] by (cases "i = j") auto
  next
    fix i assume i: "0 < i \<and> i < n \<and> parent i = ?p"
    then have "i \<noteq> ?p" using parent_less [of i] by auto
    then show "?k ?p \<le> ?k i" using at_p [of i] i less by (cases "i = j") auto
  qed
qed

lemma heap_down_on:
  assumes "heap_down k n j" and "\<And>i. 0 < i \<Longrightarrow> i < n \<Longrightarrow> parent i = j \<Longrightarrow> k j \<le> k i"
  shows "heap_on k n"
  using assms by (auto simp: heap_down_def heap_but_def heap_on_def)

lemma heap_down_step:
  assumes h: "heap_down k n j" and c: "0 < c" "c < n" "parent c = j" and less: "k c < k j"
    and least: "\<And>i. 0 < i \<Longrightarrow> i < n \<Longrightarrow> parent i = j \<Longrightarrow> k c \<le> k i"
  shows "heap_down (k(j := k c, c := k j)) n c"
proof -
  let ?k = "k(j := k c, c := k j)"
  have jc: "j < c" using c parent_less by blast
  have b: "heap_but k n j" using h by (simp add: heap_down_def)
  have "heap_but ?k n c"
    unfolding heap_but_def
  proof (intro conjI allI impI)
    fix i assume i: "0 < i \<and> i < n" and ne: "i \<noteq> c \<and> parent i \<noteq> c"
    have "k (parent j) \<le> k c" if "0 < j" using heap_butD(2) [OF b c] that by simp
    then show "?k (parent i) \<le> ?k i"
      using heap_butD(1) [OF b, of i] least [of i] i ne jc parent_less [of i] by (cases "i = j"; cases "parent i = j") auto
  next
    fix i assume i: "0 < i \<and> i < n" "parent i = c \<and> 0 < c"
    then have "c < i" using parent_less [of i] by auto
    with i show "?k (parent c) \<le> ?k i"
      using heap_butD(1) [OF b, of i] c jc by auto
  qed
  then show ?thesis
    using c jc less by (auto simp: heap_down_def)
qed

lemma heap_min: "heap_on k n \<Longrightarrow> i < n \<Longrightarrow> k 0 \<le> k i"
proof (induction i rule: less_induct)
  case (less i)
  show ?case
  proof (cases "i = 0")
    case False
    then have "k 0 \<le> k (parent i)" "k (parent i) \<le> k i"
      using less parent_less [of i] by (auto simp: heap_on_def)
    then show ?thesis by simp
  qed simp
qed

section \<open>The heap and the threads\<close>

definition de_key :: "dl_entry \<Rightarrow> nat" where
  "de_key e = unat (de_deadline e) * 2 ^ 64 + unat (de_order e)"

abbreviation dl_keys :: "deadlines \<Rightarrow> nat \<Rightarrow> nat" where
  "dl_keys d \<equiv> \<lambda>i. de_key (dl_entries d ! i)"

lemma lex_less: "o1 < c \<Longrightarrow> o2 < c \<Longrightarrow> x * c + o1 < y * c + o2 \<longleftrightarrow> x < y \<or> x = y \<and> o1 < (o2::nat)"
  using mult_le_mono1 [of "Suc x" y c] mult_le_mono1 [of "Suc y" x c] by (cases x y rule: linorder_cases) simp_all

lemma dl_before_key: "dl_before d i j \<longleftrightarrow> dl_keys d i < dl_keys d j"
proof -
  have "unat (de_order e) < 2 ^ 64" for e
    using unat_less_size [of "de_order e"] by simp
  note lex = lex_less [OF this this]
  show ?thesis
    unfolding dl_before_def Let_def de_key_def lex word_less_nat_alt word_unat_eq_iff ..
qed

text \<open>
  The index and the deadline that each live thread records are those of its entry; a thread of this
  processor, one of \<open>M\<close>, that has no entry records none.
\<close>

definition dl_sync :: "object_id set \<Rightarrow> deadlines \<Rightarrow> thread pool \<Rightarrow> bool" where
  "dl_sync M d ts \<longleftrightarrow> (\<forall>oid t. pool_map ts oid = Some t \<longrightarrow>
     (\<forall>i < dl_len d. de_id (dl_entries d ! i) = oid \<longrightarrow>
        th_deadline_index t = Some i \<and> th_deadline t = Some (de_deadline (dl_entries d ! i))) \<and>
     (oid \<in> M \<and> (\<forall>i < dl_len d. de_id (dl_entries d ! i) \<noteq> oid) \<longrightarrow>
        th_deadline_index t = None \<and> th_deadline t = None))"

abbreviation dl_live :: "deadlines \<Rightarrow> dl_entry list" where
  "dl_live d \<equiv> take (dl_len d) (dl_entries d)"

definition dl_ok :: "object_id set \<Rightarrow> deadlines \<Rightarrow> thread pool \<Rightarrow> bool" where
  "dl_ok M d ts \<longleftrightarrow> dl_len d \<le> length (dl_entries d) \<and> distinct (map de_id (dl_live d)) \<and> dl_sync M d ts"

abbreviation dl_ids :: "deadlines \<Rightarrow> object_id set" where
  "dl_ids d \<equiv> de_id ` set (dl_live d)"

lemma dl_okD:
  assumes "dl_ok M d ts"
  shows "dl_len d \<le> length (dl_entries d)" "distinct (map de_id (dl_live d))" "dl_sync M d ts"
  using assms by (simp_all add: dl_ok_def)

lemma dl_live_nth: "i < dl_len d \<Longrightarrow> dl_len d \<le> length (dl_entries d) \<Longrightarrow> dl_live d ! i = dl_entries d ! i"
  by simp

lemma in_dl_live:
  assumes "dl_len d \<le> length (dl_entries d)"
  shows "e \<in> set (dl_live d) \<longleftrightarrow> (\<exists>i < dl_len d. e = dl_entries d ! i)"
  using assms by (auto simp: in_set_conv_nth)

text \<open>The record of a thread, from whether it has an entry.\<close>

lemma dl_id_in: "i < dl_len d \<Longrightarrow> dl_len d \<le> length (dl_entries d) \<Longrightarrow> de_id (dl_entries d ! i) \<in> dl_ids d"
  using in_dl_live [of d "dl_entries d ! i"] by blast

lemma dl_syncD:
  assumes "dl_sync M d ts" and "pool_map ts oid = Some t"
  shows "\<And>i. i < dl_len d \<Longrightarrow> de_id (dl_entries d ! i) = oid \<Longrightarrow>
      th_deadline_index t = Some i \<and> th_deadline t = Some (de_deadline (dl_entries d ! i))"
    "oid \<in> M \<Longrightarrow> (\<And>i. i < dl_len d \<Longrightarrow> de_id (dl_entries d ! i) \<noteq> oid) \<Longrightarrow>
      th_deadline_index t = None \<and> th_deadline t = None"
  using assms unfolding dl_sync_def by blast+

lemma dl_syncI:
  assumes "\<And>oid t i. pool_map ts oid = Some t \<Longrightarrow> i < dl_len d \<Longrightarrow> de_id (dl_entries d ! i) = oid \<Longrightarrow>
      th_deadline_index t = Some i \<and> th_deadline t = Some (de_deadline (dl_entries d ! i))"
    and "\<And>oid t. pool_map ts oid = Some t \<Longrightarrow> oid \<in> M \<Longrightarrow> (\<And>i. i < dl_len d \<Longrightarrow> de_id (dl_entries d ! i) \<noteq> oid) \<Longrightarrow>
      th_deadline_index t = None \<and> th_deadline t = None"
  shows "dl_sync M d ts"
  using assms unfolding dl_sync_def by blast

lemma dl_live_inj:
  assumes "dl_ok M d ts" and "i < dl_len d" "j < dl_len d" "de_id (dl_entries d ! i) = de_id (dl_entries d ! j)"
  shows "i = j"
  using assms nth_eq_iff_index_eq [of "map de_id (dl_live d)" i j] by (simp add: dl_ok_def)

text \<open>Changes of the threads in \<open>K\<close> that touch nothing but their deadlines.\<close>

definition strip_deadline :: "thread \<Rightarrow> thread" where
  "strip_deadline t = t\<lparr>th_deadline := None, th_deadline_index := None\<rparr>"

inductive retimed :: "object_id set \<Rightarrow> thread pool \<Rightarrow> thread pool \<Rightarrow> bool" for K where
  retimed_refl: "retimed K ts ts"
| retimed_step: "retimed K ts ts' \<Longrightarrow> oid \<in> K \<Longrightarrow> (\<And>t. strip_deadline (f t) = strip_deadline t) \<Longrightarrow>
    retimed K ts (pool_modify ts' oid f)"

lemma retimed_trans: "retimed K b c \<Longrightarrow> retimed K a b \<Longrightarrow> retimed K a c"
  by (induction rule: retimed.induct) (auto intro: retimed.intros)

lemma retimed_mono: "retimed K ts ts' \<Longrightarrow> K \<subseteq> L \<Longrightarrow> retimed L ts ts'"
  by (induction rule: retimed.induct) (auto intro: retimed.intros)

lemma retimed_one:
  "oid \<in> K \<Longrightarrow> (\<And>t. strip_deadline (f t) = strip_deadline t) \<Longrightarrow> retimed K ts (pool_modify ts oid f)"
  by (rule retimed_step [OF retimed_refl])

lemma retimed_other: "retimed K ts ts' \<Longrightarrow> oid \<notin> K \<Longrightarrow> pool_map ts' oid = pool_map ts oid"
proof (induction rule: retimed.induct)
  case (retimed_step ts ts' k f)
  then show ?case by (auto simp: pool_map_modify split: option.splits)
qed simp

lemma retimed_map:
  "retimed K ts ts' \<Longrightarrow> map_option strip_deadline (pool_map ts' oid) = map_option strip_deadline (pool_map ts oid)"
proof (induction rule: retimed.induct)
  case (retimed_step ts ts' i f)
  then show ?case by (auto simp: pool_map_modify split: option.splits)
qed simp

lemma retimed_inv: "retimed K ts ts' \<Longrightarrow> pool_inv ts \<Longrightarrow> pool_inv ts'"
  by (induction rule: retimed.induct) (auto intro: pool_inv_modify)

text \<open>A rearrangement of the heap: the same entries at other indices, recorded by the threads.\<close>

definition shuffled :: "object_id set \<Rightarrow> deadlines \<Rightarrow> thread pool \<Rightarrow> deadlines \<Rightarrow> thread pool \<Rightarrow> bool" where
  "shuffled M d ts d' ts' \<longleftrightarrow> dl_ok M d' ts' \<and> dl_len d' = dl_len d \<and> length (dl_entries d') = length (dl_entries d) \<and>
     dl_order d' = dl_order d \<and> mset (dl_live d') = mset (dl_live d) \<and> retimed (dl_ids d) ts ts'"

lemma shuffled_refl: "dl_ok M d ts \<Longrightarrow> shuffled M d ts d ts"
  by (simp add: shuffled_def retimed_refl)

lemma shuffled_trans: "shuffled M a s b t \<Longrightarrow> shuffled M b t c u \<Longrightarrow> shuffled M a s c u"
  using mset_eq_setD by (fastforce simp: shuffled_def intro: retimed_trans)

lemma pool_map_modify_apply:
  "pool_map (pool_modify p k f) oid = (if oid = k then map_option f (pool_map p k) else pool_map p oid)"
  by (simp add: pool_map_modify split: option.splits)

lemma take_swap:
  assumes "l < n" "r < n" "n \<le> length xs"
  shows "take n (xs[l := xs ! r, r := xs ! l]) = (take n xs)[l := take n xs ! r, r := take n xs ! l]"
  using assms by (simp add: take_update_swap)

lemma nth_swap:
  "l < length xs \<Longrightarrow> r < length xs \<Longrightarrow>
   xs[l := xs ! r, r := xs ! l] ! i = (if i = r then xs ! l else if i = l then xs ! r else xs ! i)"
  by (simp add: nth_list_update)

lemma dl_swap_eq:
  "dl_swap d ts l r =
    (let es = (dl_entries d)[l := dl_entries d ! r, r := dl_entries d ! l]
     in (d\<lparr>dl_entries := es\<rparr>,
         pool_modify (pool_modify ts (de_id (es ! l)) (th_deadline_index_update (\<lambda>_. Some l)))
           (de_id (es ! r)) (th_deadline_index_update (\<lambda>_. Some r))))"
  by (simp add: dl_swap_def Let_def dl_record_index_def pool_with_eq)

lemma dl_swap_run:
  assumes ok: "dl_ok M d ts" and lr: "l < dl_len d" "r < dl_len d" "l \<noteq> r"
    and run: "dl_swap d ts l r = (d', ts')"
  shows "d' = d\<lparr>dl_entries := (dl_entries d)[l := dl_entries d ! r, r := dl_entries d ! l]\<rparr>"
    "ts' = pool_modify (pool_modify ts (de_id (dl_entries d ! r)) (th_deadline_index_update (\<lambda>_. Some l)))
      (de_id (dl_entries d ! l)) (th_deadline_index_update (\<lambda>_. Some r))"
    "dl_entries d' ! i = (if i = r then dl_entries d ! l else if i = l then dl_entries d ! r else dl_entries d ! i)"
proof -
  have len: "l < length (dl_entries d)" "r < length (dl_entries d)" using lr dl_okD(1) [OF ok] by simp_all
  show d': "d' = d\<lparr>dl_entries := (dl_entries d)[l := dl_entries d ! r, r := dl_entries d ! l]\<rparr>"
    "ts' = pool_modify (pool_modify ts (de_id (dl_entries d ! r)) (th_deadline_index_update (\<lambda>_. Some l)))
      (de_id (dl_entries d ! l)) (th_deadline_index_update (\<lambda>_. Some r))"
    using run lr(3) by (auto simp: dl_swap_eq Let_def nth_swap [OF len])
  show "dl_entries d' ! i = (if i = r then dl_entries d ! l else if i = l then dl_entries d ! r else dl_entries d ! i)"
    by (simp add: d' nth_swap [OF len])
qed

lemma dl_swap_sync:
  assumes ok: "dl_ok M d ts" and lr: "l < dl_len d" "r < dl_len d" "l \<noteq> r"
    and run: "dl_swap d ts l r = (d', ts')"
  shows "dl_sync M d' ts'"
proof -
  let ?a = "de_id (dl_entries d ! l)" and ?b = "de_id (dl_entries d ! r)"
  note S = dl_swap_run [OF ok lr run]
  note old = dl_syncD [OF dl_okD(3) [OF ok]]
  have n: "dl_len d' = dl_len d" by (simp add: S(1))
  have ab: "?a \<noteq> ?b" using dl_live_inj [OF ok] lr by blast
  have was: "\<exists>t. pool_map ts oid = Some t \<and> t' = (if oid = ?a then t\<lparr>th_deadline_index := Some r\<rparr>
      else if oid = ?b then t\<lparr>th_deadline_index := Some l\<rparr> else t)" if "pool_map ts' oid = Some t'" for oid t'
    using that ab unfolding S(2) pool_map_modify_apply by (auto split: if_splits)
  show ?thesis
  proof (rule dl_syncI)
    fix oid t' i assume t': "pool_map ts' oid = Some t'" and i: "i < dl_len d'" "de_id (dl_entries d' ! i) = oid"
    obtain t where t: "pool_map ts oid = Some t" "t' = (if oid = ?a then t\<lparr>th_deadline_index := Some r\<rparr>
      else if oid = ?b then t\<lparr>th_deadline_index := Some l\<rparr> else t)" using was [OF t'] by blast
    consider (r) "i = r" "oid = ?a" | (l) "i = l" "i \<noteq> r" "oid = ?b"
      | (other) "i \<noteq> l" "i \<noteq> r" "oid = de_id (dl_entries d ! i)"
      using i(2) lr(3) by (auto simp: S(3) split: if_splits)
    then show "th_deadline_index t' = Some i \<and> th_deadline t' = Some (de_deadline (dl_entries d' ! i))"
    proof cases
      case r
      then show ?thesis using old(1) [OF t(1) lr(1)] t(2) by (simp add: S(3))
    next
      case l
      then show ?thesis using old(1) [OF t(1) lr(2)] t(2) ab by (simp add: S(3))
    next
      case other
      have "i < dl_len d" using i(1) by (simp add: n)
      with other dl_live_inj [OF ok] lr have "oid \<noteq> ?a" "oid \<noteq> ?b" by blast+
      with other old(1) [OF t(1) \<open>i < dl_len d\<close>] t(2) show ?thesis by (simp add: S(3))
    qed
  next
    fix oid t' assume t': "pool_map ts' oid = Some t'" "oid \<in> M"
      and none: "\<And>i. i < dl_len d' \<Longrightarrow> de_id (dl_entries d' ! i) \<noteq> oid"
    have ne: "de_id (dl_entries d ! i) \<noteq> oid" if "i < dl_len d" for i
      using none [of l] none [of r] none [of i] that lr n by (auto simp: S(3) split: if_splits)
    then show "th_deadline_index t' = None \<and> th_deadline t' = None"
      using was [OF t'(1)] old(2) [OF _ t'(2)] ne [OF lr(1)] ne [OF lr(2)] by auto
  qed
qed

lemma dl_swap_shuffled:
  assumes ok: "dl_ok M d ts" and lr: "l < dl_len d" "r < dl_len d" "l \<noteq> r"
    and run: "dl_swap d ts l r = (d', ts')"
  shows "shuffled M d ts d' ts'" "dl_keys d' = (dl_keys d)(l := dl_keys d r, r := dl_keys d l)"
proof -
  note n = dl_okD [OF ok]
  note S = dl_swap_run [OF ok lr run]
  have "mset (dl_live d') = mset (dl_live d)"
    using mset_swap [of r "dl_live d" l] lr n(1) by (simp add: S(1) take_swap [OF lr(1,2) n(1)] del: mset_swap)
  moreover have "distinct (map de_id (dl_live d'))"
    using n(2) calculation by (metis mset_eq_imp_distinct_iff mset_map)
  moreover have "dl_sync M d' ts'" by (rule dl_swap_sync [OF ok lr run])
  moreover have "retimed (dl_ids d) ts ts'"
    unfolding S(2) using dl_id_in [OF lr(1) n(1)] dl_id_in [OF lr(2) n(1)]
    by (intro retimed_step retimed_refl) (auto simp: strip_deadline_def)
  ultimately show "shuffled M d ts d' ts'"
    using n(1) by (simp add: shuffled_def dl_ok_def S(1))
  show "dl_keys d' = (dl_keys d)(l := dl_keys d r, r := dl_keys d l)"
    by (simp add: S(3) fun_eq_iff)
qed

lemma sift_up_stop: "at = 0 \<or> \<not> dl_before d at (parent at) \<Longrightarrow> dl_sift_up d ts at = (at, d, ts)"
  by (subst dl_sift_up.simps) (auto simp: parent_def)

lemma sift_up_move:
  "at \<noteq> 0 \<Longrightarrow> dl_before d at (parent at) \<Longrightarrow> dl_swap d ts at (parent at) = (d1, ts1) \<Longrightarrow>
   dl_sift_up d ts at = dl_sift_up d1 ts1 (parent at)"
  by (subst dl_sift_up.simps) (simp add: parent_def Let_def)

lemma sift_down_stop: "\<not> (at < dl_len d div 2 \<and> dl_before d (dl_child d at) at) \<Longrightarrow> dl_sift_down d ts at = (d, ts)"
  by (subst dl_sift_down.simps) (auto simp: Let_def)

lemma sift_down_move:
  "at < dl_len d div 2 \<Longrightarrow> dl_before d (dl_child d at) at \<Longrightarrow> dl_swap d ts at (dl_child d at) = (d1, ts1) \<Longrightarrow>
   dl_sift_down d ts at = dl_sift_down d1 ts1 (dl_child d at)"
  by (subst dl_sift_down.simps) (simp add: Let_def)

lemma sift_up_effect:
  assumes "dl_ok M d ts" and "at < dl_len d" and "dl_sift_up d ts at = (at', d', ts')"
  shows "shuffled M d ts d' ts' \<and> at' < dl_len d \<and>
    (heap_but (dl_keys d) (dl_len d) at \<longrightarrow> heap_down (dl_keys d') (dl_len d) at') \<and>
    (heap_up (dl_keys d) (dl_len d) at \<longrightarrow> heap_on (dl_keys d') (dl_len d))"
  using assms
proof (induction at arbitrary: d ts rule: less_induct)
  case (less at)
  let ?n = "dl_len d" and ?p = "parent at"
  show ?case
  proof (cases "at = 0 \<or> \<not> dl_before d at ?p")
    case True
    then have r: "at' = at" "d' = d" "ts' = ts"
      using less.prems(3) sift_up_stop [OF True] by auto
    show ?thesis
    proof (cases "at = 0")
      case True
      then show ?thesis
        using r less.prems heap_up_root by (auto simp: shuffled_refl heap_down_def)
    next
      case False
      then have "dl_keys d ?p \<le> dl_keys d at" using True by (simp add: dl_before_key)
      then show ?thesis
        using False r less.prems heap_up_on [of "dl_keys d" ?n at] by (simp add: shuffled_refl heap_down_def)
    qed
  next
    case False
    then have at: "0 < at" "dl_before d at ?p" by simp_all
    obtain d1 ts1 where s: "dl_swap d ts at ?p = (d1, ts1)" by (metis surj_pair)
    have p: "?p < at" using parent_less [OF at(1)] .
    note S = dl_swap_shuffled [OF less.prems(1,2) _ _ s]
    have sh: "shuffled M d ts d1 ts1" and keys: "dl_keys d1 = (dl_keys d)(at := dl_keys d ?p, ?p := dl_keys d at)"
      using S p less.prems(2) by simp_all
    have n: "dl_len d1 = ?n" "dl_ok M d1 ts1" using sh by (simp_all add: shuffled_def)
    have rec: "dl_sift_up d1 ts1 ?p = (at', d', ts')"
      using less.prems(3) sift_up_move [OF _ at(2) s] at(1) by simp
    have "shuffled M d1 ts1 d' ts' \<and> at' < dl_len d1 \<and>
      (heap_but (dl_keys d1) (dl_len d1) ?p \<longrightarrow> heap_down (dl_keys d') (dl_len d1) at') \<and>
      (heap_up (dl_keys d1) (dl_len d1) ?p \<longrightarrow> heap_on (dl_keys d') (dl_len d1))"
      using less.IH [OF p n(2)] n(1) p less.prems(2) rec by simp
    moreover have "heap_up (dl_keys d1) ?n ?p" if "heap_but (dl_keys d) ?n at"
      unfolding keys using heap_up_step [OF that at(1) less.prems(2)] at(2) by (simp add: dl_before_key)
    ultimately show ?thesis
      using n sh heap_on_down [of "dl_keys d'" ?n at'] by (auto simp: heap_up_def intro: shuffled_trans)
  qed
qed

lemma dl_child_least:
  assumes "at < dl_len d div 2"
  shows "0 < dl_child d at" "dl_child d at < dl_len d" "parent (dl_child d at) = at"
    "0 < i \<Longrightarrow> i < dl_len d \<Longrightarrow> parent i = at \<Longrightarrow> dl_keys d (dl_child d at) \<le> dl_keys d i"
proof -
  show "0 < dl_child d at" "dl_child d at < dl_len d" "parent (dl_child d at) = at"
    using assms by (auto simp: dl_child_def Let_def parent_def)
  assume i: "0 < i" "i < dl_len d" "parent i = at"
  then consider "i = 2 * at + 1" | "i = 2 * at + 2"
    unfolding parent_def by linarith
  then show "dl_keys d (dl_child d at) \<le> dl_keys d i"
    using i(2) by cases (auto simp: dl_child_def Let_def dl_before_key)
qed

lemma sift_down_effect:
  assumes "dl_ok M d ts" and "at < dl_len d" and "dl_sift_down d ts at = (d', ts')"
  shows "shuffled M d ts d' ts' \<and> (heap_down (dl_keys d) (dl_len d) at \<longrightarrow> heap_on (dl_keys d') (dl_len d))"
  using assms
proof (induction "dl_len d - at" arbitrary: d ts at rule: less_induct)
  case less
  let ?n = "dl_len d" and ?c = "dl_child d at"
  show ?case
  proof (cases "at < ?n div 2 \<and> dl_before d ?c at")
    case False
    then have r: "d' = d" "ts' = ts"
      using less.prems(3) sift_down_stop [OF False] by auto
    have "dl_keys d at \<le> dl_keys d i" if "0 < i" "i < ?n" "parent i = at" for i
    proof -
      have half: "at < ?n div 2" using that by (auto simp: parent_def)
      with False have "dl_keys d at \<le> dl_keys d ?c" by (simp add: dl_before_key)
      also have "\<dots> \<le> dl_keys d i" using dl_child_least(4) [OF half that] .
      finally show ?thesis .
    qed
    then show ?thesis
      using r less.prems(1) heap_down_on [of "dl_keys d" ?n at] by (auto simp: shuffled_refl)
  next
    case True
    note C = dl_child_least [OF True [THEN conjunct1]]
    obtain d1 ts1 where s: "dl_swap d ts at ?c = (d1, ts1)" by (metis surj_pair)
    have "at < ?c" using C(3) parent_less [OF C(1)] by simp
    then have ne: "at \<noteq> ?c" by simp
    have sh: "shuffled M d ts d1 ts1" and keys: "dl_keys d1 = (dl_keys d)(at := dl_keys d ?c, ?c := dl_keys d at)"
      using dl_swap_shuffled [OF less.prems(1,2) C(2) ne s] by simp_all
    have n: "dl_len d1 = ?n" "dl_ok M d1 ts1" using sh by (simp_all add: shuffled_def)
    have key: "dl_keys d ?c < dl_keys d at" using True by (simp add: dl_before_key)
    have rec: "dl_sift_down d1 ts1 ?c = (d', ts')"
      using less.prems(3) sift_down_move [OF _ _ s] True by simp
    have "shuffled M d1 ts1 d' ts' \<and> (heap_down (dl_keys d1) (dl_len d1) ?c \<longrightarrow> heap_on (dl_keys d') (dl_len d1))"
      using less.hyps [of d1 ?c ts1] n C(2) rec \<open>at < ?c\<close> less.prems(2) by simp
    moreover have "heap_down (dl_keys d1) ?n ?c" if "heap_down (dl_keys d) ?n at"
      unfolding keys by (rule heap_down_step [OF that C(1-3) key C(4)])
    ultimately show ?thesis
      using n sh by (auto intro: shuffled_trans)
  qed
qed

section \<open>Insertion and removal\<close>

definition dl_inv :: "object_id set \<Rightarrow> deadlines \<Rightarrow> thread pool \<Rightarrow> bool" where
  "dl_inv M d ts \<longleftrightarrow> dl_ok M d ts \<and> heap_on (dl_keys d) (dl_len d) \<and>
     (\<forall>e \<in> set (dl_live d). de_order e < dl_order d) \<and> distinct (map de_order (dl_live d))"

lemma heap_on_cong: "(\<And>i. i < n \<Longrightarrow> k i = k' i) \<Longrightarrow> heap_on k n = heap_on k' n"
  unfolding heap_on_def using parent_less order.strict_trans by metis

lemma heap_but_cong:
  assumes h: "heap_but k n j" and same: "\<And>i. i \<noteq> j \<Longrightarrow> k' i = k i"
  shows "heap_but k' n j"
  unfolding heap_but_def
proof (intro allI impI conjI)
  fix i assume i: "0 < i \<and> i < n" "i \<noteq> j \<and> parent i \<noteq> j"
  then show "k' (parent i) \<le> k' i" using heap_butD(1) [OF h, of i] same [of i] same [of "parent i"] by simp
next
  fix i assume i: "0 < i \<and> i < n" "parent i = j \<and> 0 < j"
  then have "i \<noteq> j" "parent j \<noteq> j" using parent_less [of i] parent_less [of j] by auto
  with i show "k' (parent j) \<le> k' i" using heap_butD(2) [OF h, of i] same [of i] same [of "parent j"] by simp
qed

lemma shuffledD:
  assumes "shuffled M d ts d' ts'"
  shows "dl_ok M d' ts'" "dl_len d' = dl_len d" "length (dl_entries d') = length (dl_entries d)"
    "dl_order d' = dl_order d" "mset (dl_live d') = mset (dl_live d)" "retimed (dl_ids d) ts ts'"
  using assms unfolding shuffled_def by blast+

lemma heap_on_less: "heap_on k n \<Longrightarrow> m \<le> n \<Longrightarrow> heap_on k m"
  by (simp add: heap_on_def)

lemma heap_up_last: "heap_on k n \<Longrightarrow> heap_up (k(n := x)) (Suc n) n"
proof -
  assume h: "heap_on k n"
  have "parent i \<noteq> n" if "0 < i" "i < Suc n" for i
    using parent_less [OF that(1)] that(2) by simp
  with h show ?thesis
    by (auto simp: heap_up_def heap_but_def heap_on_def less_Suc_eq)
qed

lemma dl_can_insert_iff:
  "dl_can_insert d ts oid = Inr u \<longleftrightarrow> (\<exists>t. pool_map ts oid = Some t \<and> th_deadline_index t = None \<and> th_deadline t = None) \<and>
     dl_len d \<noteq> length (dl_entries d) \<and> dl_order d \<noteq> - 1"
  by (auto simp: dl_can_insert_def pool_get_map split: option.splits)

text \<open>The heap with the new entry at its end, before it is sifted up.\<close>

definition dl_appended :: "deadlines \<Rightarrow> object_id \<Rightarrow> u64 \<Rightarrow> deadlines" where
  "dl_appended d oid deadline = d\<lparr>dl_entries := (dl_entries d)[dl_len d := \<lparr>de_deadline = deadline, de_order = dl_order d, de_id = oid\<rparr>],
     dl_order := dl_order d + 1, dl_len := dl_len d + 1\<rparr>"

lemma dl_appended_ok:
  assumes ok: "dl_ok M d ts" and free: "pool_map ts oid = Some t" "th_deadline_index t = None" "dl_len d < length (dl_entries d)"
  shows "dl_ok M (dl_appended d oid deadline)
      (pool_modify ts oid (\<lambda>t. t\<lparr>th_deadline := Some deadline, th_deadline_index := Some (dl_len d)\<rparr>))"
    and "dl_live (dl_appended d oid deadline) = dl_live d @ [\<lparr>de_deadline = deadline, de_order = dl_order d, de_id = oid\<rparr>]"
proof -
  let ?d = "dl_appended d oid deadline" and ?f = "\<lambda>t. t\<lparr>th_deadline := Some deadline, th_deadline_index := Some (dl_len d)\<rparr>"
  show live: "dl_live ?d = dl_live d @ [\<lparr>de_deadline = deadline, de_order = dl_order d, de_id = oid\<rparr>]"
    using free(3) by (simp add: dl_appended_def take_Suc_conv_app_nth)
  have new: "de_id (dl_entries d ! i) \<noteq> oid" if "i < dl_len d" for i
    using dl_syncD(1) [OF dl_okD(3) [OF ok] free(1) that] free(2) by auto
  have "oid \<notin> set (map de_id (dl_live d))"
    using new free(3) by (fastforce simp: in_set_conv_nth)
  moreover have "dl_sync M ?d (pool_modify ts oid ?f)"
  proof (rule dl_syncI)
    fix o2 t2 i
    assume m: "pool_map (pool_modify ts oid ?f) o2 = Some t2" and i: "i < dl_len ?d" "de_id (dl_entries ?d ! i) = o2"
    show "th_deadline_index t2 = Some i \<and> th_deadline t2 = Some (de_deadline (dl_entries ?d ! i))"
    proof (cases "i = dl_len d")
      case True
      then show ?thesis using m i free by (auto simp: pool_map_modify_apply dl_appended_def)
    next
      case False
      then have "i < dl_len d" "de_id (dl_entries d ! i) = o2" "o2 \<noteq> oid" using i new [of i] by (auto simp: dl_appended_def)
      then show ?thesis
        using m dl_syncD(1) [OF dl_okD(3) [OF ok]] False by (simp add: pool_map_modify_apply dl_appended_def)
    qed
  next
    fix o2 t2
    assume m: "pool_map (pool_modify ts oid ?f) o2 = Some t2" "o2 \<in> M" and none: "\<And>i. i < dl_len ?d \<Longrightarrow> de_id (dl_entries ?d ! i) \<noteq> o2"
    have "o2 \<noteq> oid" using none [of "dl_len d"] free(3) by (simp add: dl_appended_def)
    moreover have "de_id (dl_entries d ! i) \<noteq> o2" if "i < dl_len d" for i
      using none [of i] that by (simp add: dl_appended_def)
    ultimately show "th_deadline_index t2 = None \<and> th_deadline t2 = None"
      using m dl_syncD(2) [OF dl_okD(3) [OF ok]] by (simp add: pool_map_modify_apply)
  qed
  ultimately show "dl_ok M ?d
      (pool_modify ts oid (\<lambda>t. t\<lparr>th_deadline := Some deadline, th_deadline_index := Some (dl_len d)\<rparr>))"
    unfolding dl_ok_def live using dl_okD(2) [OF ok] free(3) by (simp add: dl_appended_def)
qed

lemma dl_insert_effect:
  assumes inv: "dl_inv M d ts" and can: "dl_can_insert d ts oid = Inr u" and run: "dl_insert d ts oid deadline = (r, d', ts')"
  shows "r = Inr ()" "dl_inv M d' ts'" "retimed (insert oid (dl_ids d)) ts ts'" "length (dl_entries d') = length (dl_entries d)"
    "mset (dl_live d') = add_mset \<lparr>de_deadline = deadline, de_order = dl_order d, de_id = oid\<rparr> (mset (dl_live d))"
proof -
  let ?f = "\<lambda>t. t\<lparr>th_deadline := Some deadline, th_deadline_index := Some (dl_len d)\<rparr>"
  let ?d = "dl_appended d oid deadline" and ?ts = "pool_modify ts oid ?f"
  let ?new = "\<lparr>de_deadline = deadline, de_order = dl_order d, de_id = oid\<rparr>"
  have ok: "dl_ok M d ts" using inv by (simp add: dl_inv_def)
  obtain t where t: "pool_map ts oid = Some t" "th_deadline_index t = None" "dl_len d < length (dl_entries d)" "dl_order d \<noteq> - 1"
    using can dl_okD(1) [OF ok] by (auto simp: dl_can_insert_iff)
  note A = dl_appended_ok [OF ok t(1-3), of deadline]
  obtain at where s: "dl_sift_up ?d ?ts (dl_len d) = (at, d', ts')" and r: "r = Inr ()"
    using run can by (auto simp: dl_insert_def Let_def pool_with_eq dl_appended_def split: prod.splits)
  have n: "dl_len ?d = Suc (dl_len d)" by (simp add: dl_appended_def)
  have keys: "heap_up (dl_keys ?d) (dl_len ?d) (dl_len d)"
  proof -
    have "dl_keys ?d = (dl_keys d)(dl_len d := de_key ?new)"
      using t(3) by (auto simp: dl_appended_def fun_eq_iff nth_list_update)
    then show ?thesis using inv heap_up_last by (simp add: n dl_inv_def)
  qed
  note U = sift_up_effect [OF A(1) _ s]
  have sh: "shuffled M ?d ?ts d' ts'" and heap: "heap_on (dl_keys d') (dl_len ?d)" using U n keys by auto
  show "r = Inr ()" by (rule r)
  show m: "mset (dl_live d') = add_mset ?new (mset (dl_live d))"
    unfolding shuffledD(5) [OF sh] A(2) by simp
  have "retimed (insert oid (dl_ids d)) ?ts ts'"
    using shuffledD(6) [OF sh] unfolding A(2) by (rule retimed_mono) auto
  then show "retimed (insert oid (dl_ids d)) ts ts'"
    by (rule retimed_trans) (simp add: retimed_one strip_deadline_def)
  show "length (dl_entries d') = length (dl_entries d)"
    using shuffledD(3) [OF sh] by (simp add: dl_appended_def)
  have up: "dl_order d < dl_order d + 1"
  proof -
    have "unat (dl_order d) \<noteq> 2 ^ 64 - 1"
      using t(4) by (auto simp: word_unat_eq_iff unsigned_minus_1_eq_mask mask_eq_exp_minus_1)
    then show ?thesis
      using unat_less_size [of "dl_order d"] by (simp add: word_less_nat_alt unat_add_fits)
  qed
  have "distinct (map de_order (dl_live ?d))"
    using inv unfolding A(2) dl_inv_def by auto
  then have "distinct (map de_order (dl_live d'))"
    using shuffledD(5) [OF sh] by (metis mset_eq_imp_distinct_iff mset_map)
  moreover have "\<forall>e \<in> set (dl_live d'). de_order e < dl_order d'"
  proof -
    have "set (dl_live d') = insert ?new (set (dl_live d))"
      using arg_cong [OF m, of set_mset] by simp
    moreover have "dl_order d' = dl_order d + 1" using shuffledD(4) [OF sh] by (simp add: dl_appended_def)
    ultimately show ?thesis using inv up by (auto simp: dl_inv_def intro: order.strict_trans)
  qed
  ultimately show "dl_inv M d' ts'"
    using shuffledD(1,2) [OF sh] heap unfolding dl_inv_def by simp
qed

text \<open>The heap with an entry replaced by the last one, before it is sifted.\<close>

definition dl_replaced :: "deadlines \<Rightarrow> nat \<Rightarrow> deadlines" where
  "dl_replaced d index = d\<lparr>dl_len := dl_len d - 1, dl_entries := (dl_entries d)[index := dl_entries d ! (dl_len d - 1)]\<rparr>"

abbreviation clear_deadline :: "thread \<Rightarrow> thread" where
  "clear_deadline t \<equiv> t\<lparr>th_deadline := None, th_deadline_index := None\<rparr>"

definition dl_cleared :: "deadlines \<Rightarrow> thread pool \<Rightarrow> nat \<Rightarrow> thread pool" where
  "dl_cleared d ts index = pool_modify ts (de_id (dl_entries d ! index)) clear_deadline"

lemma mset_take_less:
  assumes "n \<le> length xs" and "0 < n"
  shows "mset (take n xs) = add_mset (xs ! (n - 1)) (mset (take (n - 1) xs))"
  using assms by (cases n) (simp_all add: take_Suc_conv_app_nth)

lemma dl_last_ok:
  assumes ok: "dl_ok M d ts" and n: "0 < dl_len d"
  shows "dl_ok M (d\<lparr>dl_len := dl_len d - 1\<rparr>) (dl_cleared d ts (dl_len d - 1))"
proof -
  let ?l = "dl_len d - 1" and ?d = "d\<lparr>dl_len := dl_len d - 1\<rparr>"
  have "distinct (map de_id (dl_live ?d))"
    using dl_okD(2) [OF ok] distinct_take [of "map de_id (dl_live d)" ?l] by (simp add: take_map)
  moreover have "dl_sync M ?d (dl_cleared d ts ?l)"
  proof (rule dl_syncI)
    fix o2 t2 i
    assume m: "pool_map (dl_cleared d ts ?l) o2 = Some t2" and i: "i < dl_len ?d" "de_id (dl_entries ?d ! i) = o2"
    have "i < dl_len d" "?l < dl_len d" "i \<noteq> ?l" using i(1) n by auto
    then have "o2 \<noteq> de_id (dl_entries d ! ?l)" using dl_live_inj [OF ok, of i ?l] i(2) by auto
    then show "th_deadline_index t2 = Some i \<and> th_deadline t2 = Some (de_deadline (dl_entries ?d ! i))"
      using m i \<open>i < dl_len d\<close> dl_syncD(1) [OF dl_okD(3) [OF ok]] by (simp add: dl_cleared_def pool_map_modify_apply)
  next
    fix o2 t2
    assume m: "pool_map (dl_cleared d ts ?l) o2 = Some t2" "o2 \<in> M" and none: "\<And>i. i < dl_len ?d \<Longrightarrow> de_id (dl_entries ?d ! i) \<noteq> o2"
    show "th_deadline_index t2 = None \<and> th_deadline t2 = None"
    proof (cases "o2 = de_id (dl_entries d ! ?l)")
      case True
      then show ?thesis using m by (auto simp: dl_cleared_def pool_map_modify_apply)
    next
      case False
      have "de_id (dl_entries d ! i) \<noteq> o2" if "i < dl_len d" for i
        using none [of i] that False by (cases "i = ?l") auto
      then show ?thesis
        using m False dl_syncD(2) [OF dl_okD(3) [OF ok]] by (simp add: dl_cleared_def pool_map_modify_apply)
    qed
  qed
  ultimately show ?thesis
    using dl_okD(1) [OF ok] by (simp add: dl_ok_def)
qed

lemma dl_replaced_ok:
  assumes ok: "dl_ok M d ts" and index: "index < dl_len d - 1"
  shows "dl_ok M (dl_replaced d index) (dl_record_index (dl_replaced d index) (dl_cleared d ts index) index)"
    and "mset (dl_live (dl_replaced d index)) = mset (dl_live d) - {#dl_entries d ! index#}"
proof -
  let ?l = "dl_len d - 1" and ?d = "dl_replaced d index"
  let ?ts = "dl_record_index ?d (dl_cleared d ts index) index"
  let ?a = "de_id (dl_entries d ! index)" and ?b = "de_id (dl_entries d ! ?l)"
  have len: "dl_len d \<le> length (dl_entries d)" using dl_okD(1) [OF ok] .
  have es: "dl_entries ?d ! i = (if i = index then dl_entries d ! ?l else dl_entries d ! i)" for i
    using index len by (simp add: dl_replaced_def nth_list_update)
  have live: "dl_live ?d = (take ?l (dl_entries d))[index := dl_entries d ! ?l]"
    by (simp add: dl_replaced_def take_update_swap)
  show m: "mset (dl_live ?d) = mset (dl_live d) - {#dl_entries d ! index#}"
  proof -
    have "dl_entries d ! index \<in># mset (take ?l (dl_entries d))" using index len by (auto simp: in_set_conv_nth)
    then have "add_mset (dl_entries d ! ?l) (mset (take ?l (dl_entries d)) - {#dl_entries d ! index#}) =
        add_mset (dl_entries d ! ?l) (mset (take ?l (dl_entries d))) - {#dl_entries d ! index#}"
      using diff_union_single_conv [of "dl_entries d ! index" _ "{#dl_entries d ! ?l#}"] by simp
    then show ?thesis
      unfolding live using index len mset_take_less [OF len] by (simp add: mset_update)
  qed
  have "dl_entries d ! index \<in># mset (dl_live d)"
    using index len by (auto simp: in_set_conv_nth intro!: exI [of _ index])
  then have "mset (map de_id (dl_live d)) = add_mset ?a (mset (map de_id (dl_live ?d)))"
    unfolding mset_map m by (simp add: image_mset_Diff)
  then have dist: "distinct (map de_id (dl_live ?d))" and gone: "?a \<notin> set (map de_id (dl_live ?d))"
    using dl_okD(2) [OF ok] by (metis distinct.simps(2) mset.simps(2) mset_eq_imp_distinct_iff)+
  have ab: "?a \<noteq> ?b" using dl_live_inj [OF ok, of index ?l] index by auto
  have ts: "pool_map ?ts o2 = (if o2 = ?b then map_option (th_deadline_index_update (\<lambda>_. Some index)) (pool_map ts ?b)
      else if o2 = ?a then map_option clear_deadline (pool_map ts ?a) else pool_map ts o2)" for o2
    using ab by (simp add: dl_record_index_def pool_with_eq es dl_cleared_def pool_map_modify_apply)
  note old = dl_syncD [OF dl_okD(3) [OF ok]]
  have "dl_sync M ?d ?ts"
  proof (rule dl_syncI)
    fix o2 t2 i
    assume m2: "pool_map ?ts o2 = Some t2" and i: "i < dl_len ?d" "de_id (dl_entries ?d ! i) = o2"
    have il: "i < ?l" using i(1) by (simp add: dl_replaced_def)
    show "th_deadline_index t2 = Some i \<and> th_deadline t2 = Some (de_deadline (dl_entries ?d ! i))"
    proof (cases "i = index")
      case True
      then have "o2 = ?b" using i es by simp
      with m2 obtain t where t: "pool_map ts ?b = Some t" "t2 = t\<lparr>th_deadline_index := Some index\<rparr>" by (auto simp: ts)
      show ?thesis using old(1) [OF t(1), of ?l] index t(2) True es by simp
    next
      case False
      have o2: "o2 = de_id (dl_entries d ! i)" using i(2) False es by simp
      have bounds: "i < dl_len d" "index < dl_len d" "?l < dl_len d" "i \<noteq> ?l" using il index by auto
      have "o2 \<noteq> ?a" "o2 \<noteq> ?b"
        using dl_live_inj [OF ok bounds(1,2)] dl_live_inj [OF ok bounds(1,3)] bounds(4) False o2 by auto
      with m2 have "pool_map ts o2 = Some t2" unfolding ts by simp
      from old(1) [OF this bounds(1)] show ?thesis using o2 False es by simp
    qed
  next
    fix o2 t2
    assume m2: "pool_map ?ts o2 = Some t2" "o2 \<in> M" and none: "\<And>i. i < dl_len ?d \<Longrightarrow> de_id (dl_entries ?d ! i) \<noteq> o2"
    have nb: "o2 \<noteq> ?b" using none [of index] index es by (auto simp: dl_replaced_def)
    show "th_deadline_index t2 = None \<and> th_deadline t2 = None"
    proof (cases "o2 = ?a")
      case True
      then show ?thesis using m2 nb by (auto simp: ts)
    next
      case False
      have "de_id (dl_entries d ! i) \<noteq> o2" if "i < dl_len d" for i
        using none [of i] that False nb es by (cases "i = ?l"; cases "i = index") (auto simp: dl_replaced_def)
      then show ?thesis using m2 False nb old(2) [of o2 t2] by (simp add: ts)
    qed
  qed
  then show "dl_ok M ?d ?ts"
    using dist len by (simp add: dl_ok_def dl_replaced_def)
qed

lemma distinct_map_submset:
  assumes "mset ys \<subseteq># mset xs" and "distinct (map f xs)"
  shows "distinct (map f ys)"
proof -
  obtain zs where "mset xs = mset (ys @ zs)"
    using assms(1) ex_mset by (metis mset_append mset_subset_eq_exists_conv)
  then have "distinct (map f (ys @ zs))"
    using assms(2) by (metis mset_eq_imp_distinct_iff mset_map)
  then show ?thesis by simp
qed

lemma dl_ok_pad:
  assumes "dl_ok M d ts"
  shows "dl_ok M (d\<lparr>dl_entries := (dl_entries d)[dl_len d := e]\<rparr>) ts" "dl_ok M (d\<lparr>dl_order := n\<rparr>) ts"
    "dl_live (d\<lparr>dl_entries := (dl_entries d)[dl_len d := e]\<rparr>) = dl_live d"
  using assms by (simp_all add: dl_ok_def dl_sync_def)

text \<open>The heap after the sifting of a removal: what is left, still in heap order.\<close>

lemma remove_sifted:
  assumes inv: "dl_inv M d ts" and index: "index < dl_len d"
  shows "\<exists>d1 ts1. dl_ok M d1 ts1 \<and> heap_on (dl_keys d1) (dl_len d1) \<and> dl_len d1 = dl_len d - 1 \<and>
    length (dl_entries d1) = length (dl_entries d) \<and> dl_order d1 = dl_order d \<and>
    mset (dl_live d1) = mset (dl_live d) - {#dl_entries d ! index#} \<and> retimed (dl_ids d) ts ts1 \<and>
    dl_remove_at d ts index = ((let d = d1\<lparr>dl_entries := (dl_entries d1)[dl_len d1 := dl_entry_EMPTY]\<rparr>
       in if dl_len d = 0 then d\<lparr>dl_order := 0\<rparr> else d), ts1)"
proof -
  have ok: "dl_ok M d ts" and heap: "heap_on (dl_keys d) (dl_len d)" using inv by (simp_all add: dl_inv_def)
  have len: "dl_len d \<le> length (dl_entries d)" using dl_okD(1) [OF ok] .
  have ids: "de_id (dl_entries d ! i) \<in> dl_ids d" if "i < dl_len d" for i
    using that len by (rule dl_id_in)
  have clear: "retimed (dl_ids d) ts (dl_cleared d ts index)"
    unfolding dl_cleared_def by (rule retimed_one) (simp_all add: ids index strip_deadline_def)
  show ?thesis
  proof (cases "index = dl_len d - 1")
    case True
    let ?d = "d\<lparr>dl_len := dl_len d - 1\<rparr>"
    have "mset (dl_live ?d) = mset (dl_live d) - {#dl_entries d ! index#}"
      using mset_take_less [OF len] index True by simp
    moreover have "dl_remove_at d ts index = ((let d = ?d\<lparr>dl_entries := (dl_entries ?d)[dl_len ?d := dl_entry_EMPTY]\<rparr>
       in if dl_len d = 0 then d\<lparr>dl_order := 0\<rparr> else d), dl_cleared d ts index)"
      using True by (simp add: dl_remove_at_def Let_def pool_with_eq dl_cleared_def)
    ultimately show ?thesis
      using dl_last_ok [OF ok] index heap_on_less [OF heap] clear True
      by (intro exI [of _ ?d] exI [of _ "dl_cleared d ts index"]) simp
  next
    case False
    then have less: "index < dl_len d - 1" using index by simp
    let ?d = "dl_replaced d index"
    let ?ts = "dl_record_index ?d (dl_cleared d ts index) index"
    note R = dl_replaced_ok [OF ok less]
    have n: "dl_len ?d = dl_len d - 1" "length (dl_entries ?d) = length (dl_entries d)" "dl_order ?d = dl_order d"
      by (simp_all add: dl_replaced_def)
    obtain at d1 ts1 where up: "dl_sift_up ?d ?ts index = (at, d1, ts1)" by (metis surj_pair)
    obtain d2 ts2 where down: "dl_sift_down d1 ts1 at = (d2, ts2)" by (metis surj_pair)
    have but: "heap_but (dl_keys ?d) (dl_len ?d) index"
    proof (rule heap_but_cong)
      show "heap_but (dl_keys d) (dl_len ?d) index"
        using heap_on_but [OF heap_on_less [OF heap]] n(1) by simp
      show "dl_keys ?d i = dl_keys d i" if "i \<noteq> index" for i using that by (simp add: dl_replaced_def)
    qed
    have U: "shuffled M ?d ?ts d1 ts1" "at < dl_len ?d" "heap_down (dl_keys d1) (dl_len ?d) at"
      using sift_up_effect [OF R(1) _ up] less n(1) but by auto
    have D: "shuffled M d1 ts1 d2 ts2" "heap_on (dl_keys d2) (dl_len ?d)"
      using sift_down_effect [OF shuffledD(1) [OF U(1)] _ down] U(2,3) shuffledD(2) [OF U(1)] by auto
    have sh: "shuffled M ?d ?ts d2 ts2" using shuffled_trans [OF U(1) D(1)] .
    have "retimed (dl_ids d) (dl_cleared d ts index) ?ts"
      unfolding dl_record_index_def pool_with_eq snd_conv
      by (rule retimed_one) (use index len in \<open>simp_all add: dl_replaced_def ids strip_deadline_def\<close>)
    moreover have "dl_ids ?d \<subseteq> dl_ids d"
      using arg_cong [OF R(2), of set_mset] by (auto dest: in_diffD)
    ultimately have "retimed (dl_ids d) ts ts2"
      using clear shuffledD(6) [OF sh] retimed_trans retimed_mono by meson
    moreover have "dl_remove_at d ts index = ((let d = d2\<lparr>dl_entries := (dl_entries d2)[dl_len d2 := dl_entry_EMPTY]\<rparr>
       in if dl_len d = 0 then d\<lparr>dl_order := 0\<rparr> else d), ts2)"
      using False up down by (simp add: dl_remove_at_def Let_def pool_with_eq dl_cleared_def dl_replaced_def)
    ultimately show ?thesis
      using sh R(2) D(2) n shuffledD(1-5) [OF sh] by (intro exI [of _ d2] exI [of _ ts2]) simp
  qed
qed

lemma remove_at_effect:
  assumes inv: "dl_inv M d ts" and index: "index < dl_len d" and run: "dl_remove_at d ts index = (d', ts')"
  shows "dl_inv M d' ts'" "mset (dl_live d') = mset (dl_live d) - {#dl_entries d ! index#}" "retimed (dl_ids d) ts ts'"
    "length (dl_entries d') = length (dl_entries d)" "dl_len d' = dl_len d - 1"
proof -
  obtain d1 where d1: "dl_ok M d1 ts'" "heap_on (dl_keys d1) (dl_len d1)" "dl_len d1 = dl_len d - 1"
    "length (dl_entries d1) = length (dl_entries d)" "dl_order d1 = dl_order d"
    "mset (dl_live d1) = mset (dl_live d) - {#dl_entries d ! index#}" "retimed (dl_ids d) ts ts'"
    "d' = (let d = d1\<lparr>dl_entries := (dl_entries d1)[dl_len d1 := dl_entry_EMPTY]\<rparr>
       in if dl_len d = 0 then d\<lparr>dl_order := 0\<rparr> else d)"
    using remove_sifted [OF inv index] run by auto
  let ?d = "d1\<lparr>dl_entries := (dl_entries d1)[dl_len d1 := dl_entry_EMPTY]\<rparr>"
  have live: "dl_live d' = dl_live d1" "dl_len d' = dl_len d1"
    by (simp_all add: d1(8) Let_def)
  show "retimed (dl_ids d) ts ts'" "dl_len d' = dl_len d - 1" using d1(3,7) live by simp_all
  show m: "mset (dl_live d') = mset (dl_live d) - {#dl_entries d ! index#}" unfolding live(1) by (rule d1(6))
  show "length (dl_entries d') = length (dl_entries d)" using d1(4) by (simp add: d1(8) Let_def)
  have ok: "dl_ok M d' ts'"
    unfolding d1(8) Let_def using dl_ok_pad(1) [OF d1(1)] dl_ok_pad(2) [OF dl_ok_pad(1) [OF d1(1)]] by presburger
  have "dl_keys d' i = dl_keys d1 i" if "i < dl_len d1" for i
    using that by (simp add: d1(8) Let_def)
  then have heap: "heap_on (dl_keys d') (dl_len d')"
    using d1(2) heap_on_cong [of "dl_len d1" "dl_keys d'" "dl_keys d1"] live(2) by simp
  have sub: "mset (dl_live d') \<subseteq># mset (dl_live d)" unfolding m by simp
  then have "set (dl_live d') \<subseteq> set (dl_live d)" using set_mset_mono by fastforce
  moreover have "dl_order d' = dl_order d" if "dl_len d' \<noteq> 0" using that live(2) by (simp add: d1(5,8) Let_def)
  ultimately have orders: "\<forall>e \<in> set (dl_live d'). de_order e < dl_order d'"
    using inv by (cases "dl_len d' = 0") (auto simp: dl_inv_def)
  have "distinct (map de_order (dl_live d'))"
    by (rule distinct_map_submset [OF sub]) (use inv in \<open>simp add: dl_inv_def\<close>)
  then show "dl_inv M d' ts'" using ok heap orders by (simp add: dl_inv_def)
qed

section \<open>Expiry\<close>

text \<open>The entries whose threads are alive, and what taking the next expired one does to them.\<close>

definition dl_alive :: "deadlines \<Rightarrow> thread pool \<Rightarrow> dl_entry multiset" where
  "dl_alive d ts = {#e \<in># mset (dl_live d). pool_map ts (de_id e) \<noteq> None#}"

definition de_earlier :: "dl_entry \<Rightarrow> dl_entry \<Rightarrow> bool" where
  "de_earlier e f \<longleftrightarrow> de_deadline e < de_deadline f \<or> de_deadline e = de_deadline f \<and> de_order e < de_order f"

definition expired_spec :: "deadlines \<Rightarrow> thread pool \<Rightarrow> u64 \<Rightarrow> object_id option \<Rightarrow> deadlines \<Rightarrow> thread pool \<Rightarrow> bool" where
  "expired_spec d ts now r d' ts' \<longleftrightarrow> (case r of
      None \<Rightarrow> dl_alive d' ts' = dl_alive d ts \<and> (\<forall>e \<in># dl_alive d ts. now < de_deadline e)
    | Some oid \<Rightarrow> \<exists>e \<in># dl_alive d ts. de_id e = oid \<and> de_deadline e \<le> now \<and>
        (\<forall>f \<in># dl_alive d ts. f = e \<or> de_earlier e f) \<and> dl_alive d' ts' = dl_alive d ts - {#e#})"

lemma retimed_alive: "retimed K ts ts' \<Longrightarrow> pool_map ts' oid = None \<longleftrightarrow> pool_map ts oid = None"
  using retimed_map [of K ts ts' oid] by (cases "pool_map ts oid") auto

lemma de_key_less: "de_key e < de_key f \<longleftrightarrow> de_earlier e f"
proof -
  have "unat (de_order e) < 2 ^ 64" for e
    using unat_less_size [of "de_order e"] by simp
  note lex = lex_less [OF this this]
  show ?thesis
    unfolding de_earlier_def de_key_def lex word_less_nat_alt word_unat_eq_iff ..
qed

lemma dl_first_least:
  assumes inv: "dl_inv M d ts" and n: "0 < dl_len d" and f: "f \<in> set (dl_live d)"
  shows "f = dl_entries d ! 0 \<or> de_earlier (dl_entries d ! 0) f"
proof -
  have len: "dl_len d \<le> length (dl_entries d)" using inv by (simp add: dl_inv_def dl_ok_def)
  obtain i where i: "i < dl_len d" "f = dl_entries d ! i" using f by (auto simp: in_dl_live [OF len])
  have le: "de_key (dl_entries d ! 0) \<le> de_key f"
    using heap_min [of "dl_keys d" "dl_len d" i] inv i by (simp add: dl_inv_def)
  show ?thesis
  proof (cases "i = 0")
    case False
    have "de_order (dl_live d ! i) \<noteq> de_order (dl_live d ! 0)"
      using inv i(1) n False len nth_eq_iff_index_eq [of "map de_order (dl_live d)" i 0] by (simp add: dl_inv_def)
    then have "de_order f \<noteq> de_order (dl_entries d ! 0)" using i n by simp
    then have "de_key f \<noteq> de_key (dl_entries d ! 0)"
      using de_key_less [of f "dl_entries d ! 0"] de_key_less [of "dl_entries d ! 0" f]
      by (auto simp: de_earlier_def)
    with le show ?thesis using de_key_less by force
  qed (use i in simp)
qed

lemma dl_expired_effect:
  assumes "dl_inv M d ts" and "dl_expired d ts now = (r, d', ts')"
  shows "dl_inv M d' ts' \<and> retimed (dl_ids d) ts ts' \<and> dl_ids d' \<subseteq> dl_ids d \<and> length (dl_entries d') = length (dl_entries d) \<and> expired_spec d ts now r d' ts'"
  using assms
proof (induction "dl_len d" arbitrary: d ts rule: less_induct)
  case less
  note inv = less.prems(1)
  have len: "dl_len d \<le> length (dl_entries d)" using inv by (simp add: dl_inv_def dl_ok_def)
  show ?case
  proof (cases "dl_len d = 0")
    case True
    then have "r = None" "d' = d" "ts' = ts" using less.prems(2) by (simp_all add: dl_expired.simps [of d ts now])
    then show ?thesis using inv True by (simp add: retimed_refl expired_spec_def dl_alive_def)
  next
    case False
    let ?e = "dl_entries d ! 0"
    have mem: "?e \<in># mset (dl_live d)" using False len by (auto simp: in_dl_live)
    have rec: "th_deadline t = Some (de_deadline ?e)" if "pool_map ts (de_id ?e) = Some t" for t
      using dl_syncD(1) [OF _ that, of M d 0] inv False by (simp add: dl_inv_def dl_ok_def)
    obtain d1 ts1 where rm: "dl_remove_at d ts 0 = (d1, ts1)" by (metis surj_pair)
    note R = remove_at_effect [OF inv _ rm]
    have al: "dl_alive d1 ts1 = dl_alive d ts - (if pool_map ts (de_id ?e) = None then {#} else {#?e#})"
      using R False mem retimed_alive [of _ ts ts1] by (simp add: dl_alive_def)
    have sub: "dl_ids d1 \<subseteq> dl_ids d"
      using R(2) False by (metis image_mono gr0I set_mset_mono set_mset_mset diff_subset_eq_self)
    show ?thesis
    proof (cases "pool_map ts (de_id ?e)")
      case None
      have "dl_expired d1 ts1 now = (r, d', ts')"
        using less.prems(2) False None rm by (simp add: dl_expired.simps [of d ts now] pool_get_map)
      moreover have "dl_len d1 < dl_len d" using R False by simp
      ultimately have IH: "dl_inv M d' ts' \<and> retimed (dl_ids d1) ts1 ts' \<and> dl_ids d' \<subseteq> dl_ids d1 \<and> length (dl_entries d') = length (dl_entries d1) \<and>
          expired_spec d1 ts1 now r d' ts'"
        using less.hyps [of d1 ts1] R(1) False by simp
      have same: "dl_alive d1 ts1 = dl_alive d ts" using al None by simp
      have "expired_spec d ts now r d' ts'" using IH by (simp only: expired_spec_def same)
      then show ?thesis
        using IH R(3,4) False sub subset_trans [OF _ sub, of "dl_ids d'"]
          retimed_trans [OF retimed_mono [of "dl_ids d1" ts1 ts' "dl_ids d"]] by simp
    next
      case (Some t)
      have in_alive: "?e \<in># dl_alive d ts" using mem Some by (simp add: dl_alive_def)
      have first: "f = ?e \<or> de_earlier ?e f" if "f \<in># dl_alive d ts" for f
        using dl_first_least [OF inv _ ] False that by (simp add: dl_alive_def)
      show ?thesis
      proof (cases "now < de_deadline ?e")
        case True
        then have "r = None" "d' = d" "ts' = ts"
          using less.prems(2) False Some rec [OF Some] by (simp_all add: dl_expired.simps [of d ts now] pool_get_map)
        moreover have "now < de_deadline f" if "f \<in># dl_alive d ts" for f
          using first [OF that] True by (auto simp: de_earlier_def)
        ultimately show ?thesis using inv by (simp add: retimed_refl expired_spec_def)
      next
        case late: False
        then have "r = Some (de_id ?e)" "d' = d1" "ts' = ts1"
          using less.prems(2) False Some rec [OF Some] rm by (simp_all add: dl_expired.simps [of d ts now] pool_get_map)
        then show ?thesis
          using R(1,3,4) False sub al Some in_alive first late by (auto simp: expired_spec_def intro!: bexI [of _ ?e])
      qed
    qed
  qed
qed

text \<open>Removal by name.\<close>

lemma dl_remove_effect:
  assumes "dl_inv M d ts" and "dl_remove d ts oid = (d', ts')" and "oid \<in> M"
  shows "dl_inv M d' ts' \<and> retimed (dl_ids d) ts ts' \<and> dl_ids d' \<subseteq> dl_ids d \<and> length (dl_entries d') = length (dl_entries d) \<and>
    dl_alive d' ts' = {#e \<in># dl_alive d ts. de_id e \<noteq> oid#} \<and>
    (\<forall>t. pool_map ts' oid = Some t \<longrightarrow> th_deadline t = None \<and> th_deadline_index t = None)"
proof -
  have sync: "dl_sync M d ts" and len: "dl_len d \<le> length (dl_entries d)" and ok: "dl_ok M d ts"
    using assms(1) by (simp_all add: dl_inv_def dl_ok_def)
  show ?thesis
  proof (cases "\<exists>t i. pool_map ts oid = Some t \<and> i < dl_len d \<and> de_id (dl_entries d ! i) = oid")
    case False
    have t: "th_deadline t = None \<and> th_deadline_index t = None" if "pool_map ts oid = Some t" for t
      using dl_syncD(2) [OF sync that assms(3)] False that by blast
    then have "d' = d" "ts' = ts"
      using assms(2) by (auto simp: dl_remove_def pool_get_map split: option.splits)
    moreover have "de_id e \<noteq> oid" if "e \<in># dl_alive d ts" for e
      using that False by (auto simp: dl_alive_def in_dl_live [OF len])
    then have "{#e \<in># dl_alive d ts. de_id e \<noteq> oid#} = dl_alive d ts"
      by (simp add: filter_mset_eq_conv)
    ultimately show ?thesis using assms(1) t by (simp add: retimed_refl)
  next
    case True
    then obtain t i where t: "pool_map ts oid = Some t" "i < dl_len d" "de_id (dl_entries d ! i) = oid" by blast
    let ?e = "dl_entries d ! i"
    have run: "dl_remove_at d ts i = (d', ts')"
      using assms(2) t dl_syncD(1) [OF sync t] by (simp add: dl_remove_def pool_get_map)
    note R = remove_at_effect [OF assms(1) t(2) run]
    have "?e \<in># mset (dl_live d)" using t(2) len by (auto simp: in_dl_live)
    then have m: "mset (dl_live d) = add_mset ?e (mset (dl_live d'))" using R(2) by simp
    then have "distinct (map de_id (?e # dl_live d'))"
      using dl_okD(2) [OF ok] by (metis list.simps(9) mset.simps(2) mset_eq_imp_distinct_iff mset_map)
    then have out: "oid \<notin> set (map de_id (dl_live d'))" using t(3) by simp
    have "dl_alive d' ts' = {#e \<in># mset (dl_live d'). pool_map ts (de_id e) \<noteq> None#}"
      using retimed_alive [OF R(3)] by (simp add: dl_alive_def)
    moreover have "{#e \<in># dl_alive d ts. de_id e \<noteq> oid#} = {#e \<in># mset (dl_live d'). pool_map ts (de_id e) \<noteq> None#}"
    proof -
      have "de_id e \<noteq> oid" if "e \<in> set (dl_live d')" for e using that out by force
      then show ?thesis
        using t(3) by (auto simp: dl_alive_def m filter_filter_mset intro!: filter_mset_cong)
    qed
    moreover have "th_deadline t' = None \<and> th_deadline_index t' = None" if "pool_map ts' oid = Some t'" for t'
    proof -
      have "de_id (dl_entries d' ! j) \<noteq> oid" if "j < dl_len d'" for j
        using out that R(1) in_dl_live [of d'] by (auto simp: dl_inv_def dl_ok_def)
      moreover have "dl_sync M d' ts'" using R(1) by (simp add: dl_inv_def dl_ok_def)
      ultimately show ?thesis using dl_syncD(2) [OF _ that assms(3)] by blast
    qed
    moreover have "dl_ids d' \<subseteq> dl_ids d" using arg_cong [OF m, of set_mset] by auto
    ultimately show ?thesis using R(1,3,4) by simp
  qed
qed

section \<open>Properties\<close>

text \<open>
  C30: giving a thread a deadline. It is refused, and nothing changes, exactly when the thread is gone,
  has a deadline already, the heap is full, or the order counter is used up. Otherwise the heap gains
  the one entry, keeps its invariant, and the thread records its deadline; no thread changes in
  anything but its deadline.
\<close>

theorem deadline_insert_correct:
  assumes "dl_inv M d ts" and "dl_insert d ts oid deadline = (r, d', ts')"
  shows "case r of
      Inl e \<Rightarrow> d' = d \<and> ts' = ts \<and>
        (e = InvalidHandle \<and> pool_map ts oid = None \<or>
         e = InvalidState \<and> (\<exists>t. pool_map ts oid = Some t \<and> (th_deadline t \<noteq> None \<or> th_deadline_index t \<noteq> None)) \<or>
         e = PoolExhausted \<and> dl_len d = length (dl_entries d) \<or>
         e = QuotaExceeded \<and> dl_order d = - 1)
    | Inr _ \<Rightarrow> dl_inv M d' ts' \<and>
        mset (dl_live d') = add_mset \<lparr>de_deadline = deadline, de_order = dl_order d, de_id = oid\<rparr> (mset (dl_live d)) \<and>
        (\<exists>t. pool_map ts' oid = Some t \<and> th_deadline t = Some deadline) \<and>
        (\<forall>k. map_option strip_deadline (pool_map ts' k) = map_option strip_deadline (pool_map ts k))"
proof (cases "dl_can_insert d ts oid")
  case (Inl e)
  then have r: "r = Inl e" "d' = d" "ts' = ts" using assms(2) by (simp_all add: dl_insert_def)
  show ?thesis
    using Inl unfolding r by (auto simp: dl_can_insert_def pool_get_map split: option.splits if_splits)
next
  case (Inr u)
  note E = dl_insert_effect [OF assms(1) Inr assms(2)]
  have "\<lparr>de_deadline = deadline, de_order = dl_order d, de_id = oid\<rparr> \<in> set (dl_live d')"
    using E(5) by (metis set_mset_mset union_single_eq_member add_mset_add_single union_commute)
  then obtain i where i: "i < dl_len d'" "dl_entries d' ! i = \<lparr>de_deadline = deadline, de_order = dl_order d, de_id = oid\<rparr>"
    using E(2) in_dl_live [of d'] by (auto simp: dl_inv_def dl_ok_def)
  obtain t where "pool_map ts oid = Some t" using Inr by (auto simp: dl_can_insert_iff)
  then obtain t' where t': "pool_map ts' oid = Some t'" using retimed_alive [OF E(3), of oid] by auto
  have "th_deadline t' = Some deadline"
    using dl_syncD(1) [OF _ t' i(1), of M] i(2) E(2) by (simp add: dl_inv_def dl_ok_def)
  then show ?thesis
    using E t' retimed_map [OF E(3)] by simp
qed

text \<open>
  C29: the next expired thread. Asking for it ends, and the answer is the living thread whose deadline
  comes first, the first to have set it among equal deadlines, provided that deadline has passed; it is
  taken out of the heap and every other living thread keeps its place. There is no answer exactly when no
  living thread is due. Entries of threads that are gone are never reported.
\<close>

theorem deadline_expired_correct:
  assumes "dl_inv M d ts" and "dl_expired d ts now = (r, d', ts')"
  shows "dl_inv M d' ts' \<and> (case r of
      None \<Rightarrow> dl_alive d' ts' = dl_alive d ts \<and> (\<forall>e \<in># dl_alive d ts. now < de_deadline e)
    | Some oid \<Rightarrow> \<exists>e \<in># dl_alive d ts. de_id e = oid \<and> de_deadline e \<le> now \<and>
        (\<forall>f \<in># dl_alive d ts. f = e \<or> de_earlier e f) \<and> dl_alive d' ts' = dl_alive d ts - {#e#})"
  using dl_expired_effect [OF assms] by (simp only: expired_spec_def simp_thms)

text \<open>
  C31: cancelling the deadline of a thread takes exactly its entry out of the heap, if it has one, and
  leaves the thread without a deadline; the invariant of the heap stays.
\<close>

theorem deadline_remove_correct:
  assumes "dl_inv M d ts" and "dl_remove d ts oid = (d', ts')" and "oid \<in> M"
  shows "dl_inv M d' ts' \<and>
    dl_alive d' ts' = {#e \<in># dl_alive d ts. de_id e \<noteq> oid#} \<and>
    (\<forall>t. pool_map ts' oid = Some t \<longrightarrow> th_deadline t = None \<and> th_deadline_index t = None)"
  using dl_remove_effect [OF assms] by blast

lemma example_threads_only:
  assumes "pool_map example_threads oid = Some t"
  shows "t = example_thread 5"
proof -
  obtain fl where "pool_wf (pool_new 2 :: thread pool) fl" using pool_inv_new [of 2] by (auto simp: pool_inv_wf)
  then show ?thesis
    using assms unfolding example_threads_def
    by (cases rule: pool_allocate_cases [where v = "example_thread 5"]) (auto split: if_splits)
qed

lemma example_threads_no_deadline:
  assumes "pool_map example_threads oid = Some t"
  shows "th_deadline t = None" "th_deadline_index t = None"
  using example_threads_only [OF assms] by (simp_all add: example_thread_def thread_new_def PRIORITY_COUNT_def)

lemma example_deadlines_inv: "dl_inv UNIV (deadlines_new 2) example_threads"
  using example_threads_no_deadline
  by (auto simp: dl_inv_def dl_ok_def dl_sync_def deadlines_new_def heap_on_def)

lemma example_insert_run:
  obtains d ts where "dl_insert (deadlines_new 2) example_threads (ObjectId 0 1) 7 = (Inr (), d, ts)"
    "dl_inv UNIV d ts" "dl_alive d ts = {#\<lparr>de_deadline = 7, de_order = 0, de_id = ObjectId 0 1\<rparr>#}"
proof -
  obtain r d ts where run: "dl_insert (deadlines_new 2) example_threads (ObjectId 0 1) 7 = (r, d, ts)" by (metis surj_pair)
  have can: "dl_can_insert (deadlines_new 2) example_threads (ObjectId 0 1) = Inr ()"
    using example_threads_no_deadline example_threads_pool(2)
    by (auto simp: dl_can_insert_iff deadlines_new_def)
  note E = dl_insert_effect [OF example_deadlines_inv can run]
  have "pool_map ts (ObjectId 0 1) \<noteq> None"
    using retimed_alive [OF E(3), of "ObjectId 0 1"] example_threads_pool(2) by simp
  with E run that show thesis by (simp add: dl_alive_def deadlines_new_def)
qed

theorem deadline_insert_correct_witness:
  "\<exists>d ts t. dl_insert (deadlines_new 2) example_threads (ObjectId 0 1) 7 = (Inr (), d, ts) \<and>
     dl_inv UNIV d ts \<and> pool_map ts (ObjectId 0 1) = Some t \<and> th_deadline t = Some 7"
proof -
  obtain d ts where run: "dl_insert (deadlines_new 2) example_threads (ObjectId 0 1) 7 = (Inr (), d, ts)"
    by (rule example_insert_run)
  from deadline_insert_correct [OF example_deadlines_inv run] run show ?thesis by auto
qed

theorem deadline_expired_correct_witness:
  "\<exists>d ts d' ts'. dl_insert (deadlines_new 2) example_threads (ObjectId 0 1) 7 = (Inr (), d, ts) \<and>
     dl_expired d ts 7 = (Some (ObjectId 0 1), d', ts') \<and> dl_alive d' ts' = {#}"
proof -
  obtain d ts where run: "dl_insert (deadlines_new 2) example_threads (ObjectId 0 1) 7 = (Inr (), d, ts)"
    "dl_inv UNIV d ts" "dl_alive d ts = {#\<lparr>de_deadline = 7, de_order = 0, de_id = ObjectId 0 1\<rparr>#}"
    by (rule example_insert_run)
  obtain r d' ts' where e: "dl_expired d ts 7 = (r, d', ts')" by (metis surj_pair)
  from deadline_expired_correct [OF run(2) e] run e show ?thesis by (cases r) auto
qed

theorem deadline_remove_correct_witness:
  "\<exists>d ts d' ts'. dl_insert (deadlines_new 2) example_threads (ObjectId 0 1) 7 = (Inr (), d, ts) \<and>
     dl_remove d ts (ObjectId 0 1) = (d', ts') \<and> dl_alive d' ts' = {#}"
proof -
  obtain d ts where run: "dl_insert (deadlines_new 2) example_threads (ObjectId 0 1) 7 = (Inr (), d, ts)"
    "dl_inv UNIV d ts" "dl_alive d ts = {#\<lparr>de_deadline = 7, de_order = 0, de_id = ObjectId 0 1\<rparr>#}"
    by (rule example_insert_run)
  obtain d' ts' where e: "dl_remove d ts (ObjectId 0 1) = (d', ts')" by (metis surj_pair)
  from deadline_remove_correct [OF run(2) e UNIV_I] run e show ?thesis by auto
qed

end
