(* ===== verification/Scheduler.thy ===== *)
theory Scheduler
  imports Deadline Transition
begin

text \<open>
  The scheduler of one processor, \<open>src/crates/kernel/sched/src/scheduler.rs\<close>: one run queue per priority,
  threaded through the \<open>queue_links\<close> of the threads, a bitmap of the priorities that hold someone, the
  thread on the processor, the idle thread, the count of the threads that have ended, and the deadlines
  of the blocked ones. Every operation takes the scheduler and the thread pool and returns both;
  \<open>and_then\<close> is the operator \<open>?\<close> of the code, which passes the state on whether or not it returns early.

  \<open>runq\<close> relates the queues and the bitmap to a list of threads for each priority; \<open>sched_inv\<close> is the
  invariant the head of the file states, for the threads \<open>M\<close> that belong to this processor, together
  with that of the deadlines.
\<close>

section \<open>Operations\<close>

definition and_then :: "('e + 'a) \<times> 's \<Rightarrow> ('a \<Rightarrow> 's \<Rightarrow> ('e + 'b) \<times> 's) \<Rightarrow> ('e + 'b) \<times> 's" where
  "and_then m f = (case m of (Inl e, s) \<Rightarrow> (Inl e, s) | (Inr x, s) \<Rightarrow> f x s)"

definition PRIORITIES :: nat where "PRIORITIES = unat PRIORITY_COUNT"

record run_queue =
  rq_head :: "object_id option"
  rq_tail :: "object_id option"

definition run_queue_EMPTY :: run_queue where
  "run_queue_EMPTY = \<lparr>rq_head = None, rq_tail = None\<rparr>"

definition rq_is_empty :: "run_queue \<Rightarrow> bool" where
  "rq_is_empty q = (rq_head q = None)"

datatype placement = PlaceTail | PlaceHead

record outcome =
  oc_reschedule :: bool

definition outcome_NOTHING :: outcome where "outcome_NOTHING = \<lparr>oc_reschedule = False\<rparr>"

definition outcome_RESCHEDULE :: outcome where "outcome_RESCHEDULE = \<lparr>oc_reschedule = True\<rparr>"

record scheduler =
  sc_queues :: "run_queue list"
  sc_ready :: u32
  sc_current :: "object_id option"
  sc_idle :: "object_id option"
  sc_ended :: u32
  sc_deadlines :: deadlines

definition scheduler_new :: scheduler where
  "scheduler_new = \<lparr>sc_queues = replicate PRIORITIES run_queue_EMPTY, sc_ready = 0, sc_current = None,
     sc_idle = None, sc_ended = 0, sc_deadlines = deadlines_new THREADS\<rparr>"

definition sc_cleared :: "scheduler \<Rightarrow> scheduler" where
  "sc_cleared s = s\<lparr>sc_ended := saturating_sub (sc_ended s) 1\<rparr>"

definition sc_set_idle :: "scheduler \<Rightarrow> object_id \<Rightarrow> scheduler" where
  "sc_set_idle s idle = s\<lparr>sc_idle := Some idle\<rparr>"

definition sc_adopt :: "scheduler \<Rightarrow> object_id \<Rightarrow> scheduler" where
  "sc_adopt s thread = s\<lparr>sc_current := Some thread\<rparr>"

definition sc_is_idle :: "scheduler \<Rightarrow> bool" where
  "sc_is_idle s = (sc_ready s = 0)"

definition leading_zeros :: "u32 \<Rightarrow> u32" where
  "leading_zeros w = of_nat (length (takeWhile (\<lambda>i. \<not> bit w (31 - i)) [0..<32]))"

definition sc_highest_ready :: "scheduler \<Rightarrow> u8 option" where
  "sc_highest_ready s =
     (if sc_ready s = 0 then None
      else let leading = leading_zeros (sc_ready s)
           in Some (ucast (31 - leading)))"

definition sc_queue :: "scheduler \<Rightarrow> u8 \<Rightarrow> run_queue option" where
  "sc_queue s priority = array_get (sc_queues s) (unat priority)"

definition sc_queue_mut :: "scheduler \<Rightarrow> u8 \<Rightarrow> (run_queue \<Rightarrow> run_queue) \<Rightarrow> scheduler" where
  "sc_queue_mut s priority f =
     (case sc_queue s priority of
        None \<Rightarrow> s
      | Some queue \<Rightarrow> s\<lparr>sc_queues := (sc_queues s)[unat priority := f queue]\<rparr>)"

definition sc_mark_ready :: "scheduler \<Rightarrow> u8 \<Rightarrow> bool \<Rightarrow> scheduler" where
  "sc_mark_ready s priority ready =
     (if PRIORITIES \<le> unat priority then s
      else let bit = push_bit (unat priority) 1
           in if ready then s\<lparr>sc_ready := or (sc_ready s) bit\<rparr>
              else s\<lparr>sc_ready := and (sc_ready s) (not bit)\<rparr>)"

definition set_queue_links :: "links \<Rightarrow> thread \<Rightarrow> thread" where
  "set_queue_links l t = t\<lparr>th_queue_links := l\<rparr>"

definition set_queue_next :: "object_id option \<Rightarrow> thread \<Rightarrow> thread" where
  "set_queue_next n t = t\<lparr>th_queue_links := (th_queue_links t)\<lparr>ln_next := n\<rparr>\<rparr>"

definition set_queue_previous :: "object_id option \<Rightarrow> thread \<Rightarrow> thread" where
  "set_queue_previous n t = t\<lparr>th_queue_links := (th_queue_links t)\<lparr>ln_previous := n\<rparr>\<rparr>"

text \<open>\<open>link\<close>: the guards, then the links of the thread, its neighbour and the ends of the queue.\<close>

definition sc_link ::
  "scheduler \<Rightarrow> thread pool \<Rightarrow> object_id \<Rightarrow> placement \<Rightarrow> (error + unit) \<times> scheduler \<times> thread pool" where
  "sc_link s threads oid placement =
     (if sc_idle s = Some oid then (Inl InvalidArgument, s, threads)
      else case pool_get threads oid of
        Inl _ \<Rightarrow> (Inl InvalidHandle, s, threads)
      | Inr thread \<Rightarrow>
          let priority = th_priority thread
          in if PRIORITIES \<le> unat priority then (Inl InvalidArgument, s, threads)
             else if \<not> is_unlinked (th_queue_links thread) then (Inl InvalidState, s, threads)
             else
               let head = Option.bind (sc_queue s priority) rq_head;
                   tail = Option.bind (sc_queue s priority) rq_tail
               in if head = Some oid then (Inl InvalidState, s, threads)
                  else
                    let neighbour = (case placement of PlaceTail \<Rightarrow> tail | PlaceHead \<Rightarrow> head)
                    in if (case neighbour of Some n \<Rightarrow> \<not> is_ok (pool_get threads n) | None \<Rightarrow> False)
                       then (Inl InvalidHandle, s, threads)
                       else
                         case pool_get_mut threads oid (set_queue_links (case placement of
                             PlaceTail \<Rightarrow> \<lparr>ln_next = None, ln_previous = tail\<rparr>
                           | PlaceHead \<Rightarrow> \<lparr>ln_next = head, ln_previous = None\<rparr>)) of
                           (Inl _, threads) \<Rightarrow> (Inl InvalidHandle, s, threads)
                         | (Inr _, threads) \<Rightarrow>
                             and_then
                               (case neighbour of
                                  Some n \<Rightarrow>
                                    (case pool_get_mut threads n (case placement of
                                         PlaceTail \<Rightarrow> set_queue_next (Some oid)
                                       | PlaceHead \<Rightarrow> set_queue_previous (Some oid)) of
                                       (Inl _, threads) \<Rightarrow> (Inl InvalidHandle, s, threads)
                                     | (Inr _, threads) \<Rightarrow> (Inr (), s, threads))
                                | None \<Rightarrow>
                                    (Inr (), sc_queue_mut s priority (\<lambda>queue. case placement of
                                         PlaceTail \<Rightarrow> queue\<lparr>rq_head := Some oid\<rparr>
                                       | PlaceHead \<Rightarrow> queue\<lparr>rq_tail := Some oid\<rparr>), threads))
                               (\<lambda>_ (s, threads).
                                  (Inr (), sc_mark_ready (sc_queue_mut s priority (\<lambda>queue. case placement of
                                       PlaceTail \<Rightarrow> queue\<lparr>rq_tail := Some oid\<rparr>
                                     | PlaceHead \<Rightarrow> queue\<lparr>rq_head := Some oid\<rparr>)) priority True, threads)))"

definition sc_enqueue ::
  "scheduler \<Rightarrow> thread pool \<Rightarrow> object_id \<Rightarrow> (error + unit) \<times> scheduler \<times> thread pool" where
  "sc_enqueue s threads oid = sc_link s threads oid PlaceTail"

definition sc_dequeue ::
  "scheduler \<Rightarrow> thread pool \<Rightarrow> object_id \<Rightarrow> (error + unit) \<times> scheduler \<times> thread pool" where
  "sc_dequeue s threads oid =
     (case pool_get threads oid of
        Inl _ \<Rightarrow> (Inl InvalidHandle, s, threads)
      | Inr thread \<Rightarrow>
          let priority = th_priority thread;
              links = th_queue_links thread;
              head = Option.bind (sc_queue s priority) rq_head
          in if is_unlinked links \<and> head \<noteq> Some oid then (Inr (), s, threads)
             else and_then
               (case ln_previous links of
                  None \<Rightarrow> (Inr (), s, threads)
                | Some previous \<Rightarrow>
                    (case pool_get_mut threads previous (set_queue_next (ln_next links)) of
                       (Inl _, threads) \<Rightarrow> (Inl InvalidHandle, s, threads)
                     | (Inr _, threads) \<Rightarrow> (Inr (), s, threads)))
               (\<lambda>_ (s, threads). and_then
                 (case ln_next links of
                    None \<Rightarrow> (Inr (), s, threads)
                  | Some nxt \<Rightarrow>
                      (case pool_get_mut threads nxt (set_queue_previous (ln_previous links)) of
                         (Inl _, threads) \<Rightarrow> (Inl InvalidHandle, s, threads)
                       | (Inr _, threads) \<Rightarrow> (Inr (), s, threads)))
                 (\<lambda>_ (s, threads).
                    let s = (case sc_queue s priority of
                               None \<Rightarrow> s
                             | Some queue \<Rightarrow>
                                 let queue = (if rq_head queue = Some oid then queue\<lparr>rq_head := ln_next links\<rparr> else queue);
                                     queue = (if rq_tail queue = Some oid then queue\<lparr>rq_tail := ln_previous links\<rparr> else queue)
                                 in sc_mark_ready (sc_queue_mut s priority (\<lambda>_. queue)) priority (\<not> rq_is_empty queue))
                    in case pool_get_mut threads oid (set_queue_links links_UNLINKED) of
                         (Inl _, threads) \<Rightarrow> (Inl InvalidHandle, s, threads)
                       | (Inr _, threads) \<Rightarrow> (Inr (), s, threads))))"

definition sc_spend_slice :: "thread pool \<Rightarrow> object_id \<Rightarrow> thread pool" where
  "sc_spend_slice threads oid = snd (pool_get_mut threads oid (\<lambda>thread. thread\<lparr>th_time_slice := 0\<rparr>))"

definition sc_apply ::
  "scheduler \<Rightarrow> thread pool \<Rightarrow> object_id \<Rightarrow> event \<Rightarrow> (error + thread_state) \<times> scheduler \<times> thread pool" where
  "sc_apply s threads oid event =
     (case pool_get threads oid of
        Inl _ \<Rightarrow> (Inl InvalidHandle, s, threads)
      | Inr thread \<Rightarrow>
          (case transition_next (th_state thread) event of
             Inl e \<Rightarrow> (Inl e, s, threads)
           | Inr state \<Rightarrow>
               let was = th_state thread;
                   threads = snd (pool_get_mut threads oid (\<lambda>thread. thread\<lparr>th_state := state\<rparr>));
                   s = (if state = Exited \<and> was \<noteq> Exited
                        then s\<lparr>sc_ended := saturating_add (sc_ended s) 1\<rparr> else s)
               in if state \<noteq> BlockedNotification
                  then case dl_remove (sc_deadlines s) threads oid of
                         (deadlines, threads) \<Rightarrow> (Inr state, s\<lparr>sc_deadlines := deadlines\<rparr>, threads)
                  else (Inr state, s, threads)))"

text \<open>The first half of \<open>pick_next\<close>: the thread on the processor goes back into its queue.\<close>

definition sc_put_back :: "scheduler \<Rightarrow> thread pool \<Rightarrow> (error + unit) \<times> scheduler \<times> thread pool" where
  "sc_put_back s threads =
     (case sc_current s of
        None \<Rightarrow> (Inr (), s, threads)
      | Some current \<Rightarrow>
          (case pool_get threads current of
             Inl _ \<Rightarrow> (Inr (), s, threads)
           | Inr thread \<Rightarrow>
               if th_state thread = Running \<and> Some current \<noteq> sc_idle s
               then
                 let ticks = th_time_slice thread;
                     priority = th_priority thread;
                     displaced = (0 < ticks \<and>
                       (case sc_highest_ready s of Some highest \<Rightarrow> priority < highest | None \<Rightarrow> False));
                     (event, placement) =
                       (if displaced then (EvDisplaced, PlaceHead) else (EvSliceExpired, PlaceTail))
                 in case sc_apply s threads current event of
                      (Inl _, s, threads) \<Rightarrow> (Inr (), s, threads)
                    | (Inr _, s, threads) \<Rightarrow>
                        sc_link s (if displaced then threads else sc_spend_slice threads current)
                          current placement
               else (Inr (), s, threads)))"

definition sc_pick_next ::
  "scheduler \<Rightarrow> thread pool \<Rightarrow> (error + object_id) \<times> scheduler \<times> thread pool" where
  "sc_pick_next s threads = and_then (sc_put_back s threads) (\<lambda>_ (s, threads).
     case sc_highest_ready s of
       None \<Rightarrow>
         (case sc_idle s of
            None \<Rightarrow> (Inl NotRunnable, s, threads)
          | Some idle \<Rightarrow> (Inr idle, s\<lparr>sc_current := Some idle\<rparr>, threads))
     | Some priority \<Rightarrow>
         (case Option.bind (sc_queue s priority) rq_head of
            None \<Rightarrow> (Inl InvalidState, s, threads)
          | Some oid \<Rightarrow>
              and_then (sc_dequeue s threads oid) (\<lambda>_ (s, threads).
                case pool_get threads oid of
                  Inl _ \<Rightarrow> (Inl InvalidHandle, s, threads)
                | Inr thread \<Rightarrow>
                    (case transition_next (th_state thread) EvSchedule of
                       Inl e \<Rightarrow> (Inl e, s, threads)
                     | Inr state \<Rightarrow>
                         (Inr oid, s\<lparr>sc_current := Some oid\<rparr>,
                          snd (pool_get_mut threads oid (\<lambda>thread. thread\<lparr>th_state := state,
                            th_time_slice := (if th_time_slice thread = 0 then DEFAULT_TIME_SLICE_TICKS
                                              else th_time_slice thread)\<rparr>)))))))"

definition sc_waiting_until :: "scheduler \<Rightarrow> u32" where
  "sc_waiting_until s = (let len = dl_len (sc_deadlines s) in if len < 2 ^ 32 then of_nat len else - 1)"

definition sc_next_deadline :: "scheduler \<Rightarrow> object_id option" where
  "sc_next_deadline s = dl_first (sc_deadlines s)"

definition sc_expired ::
  "scheduler \<Rightarrow> thread pool \<Rightarrow> u64 \<Rightarrow> object_id option \<times> scheduler \<times> thread pool" where
  "sc_expired s threads now =
     (case dl_expired (sc_deadlines s) threads now of
        (r, deadlines, threads) \<Rightarrow> (r, s\<lparr>sc_deadlines := deadlines\<rparr>, threads))"

definition sc_wake_from_idle :: "scheduler \<Rightarrow> outcome" where
  "sc_wake_from_idle s = (if sc_ready s = 0 then outcome_NOTHING else outcome_RESCHEDULE)"

definition sc_preempts_current :: "scheduler \<Rightarrow> thread pool \<Rightarrow> object_id \<Rightarrow> outcome" where
  "sc_preempts_current s threads oid =
     (case pool_get threads oid of
        Inl _ \<Rightarrow> outcome_NOTHING
      | Inr thread \<Rightarrow>
          (case sc_current s of
             None \<Rightarrow> outcome_RESCHEDULE
           | Some current \<Rightarrow>
               if Some current = sc_idle s then outcome_RESCHEDULE
               else (case pool_get threads current of
                       Inl _ \<Rightarrow> outcome_RESCHEDULE
                     | Inr running \<Rightarrow>
                         if th_priority running < th_priority thread then outcome_RESCHEDULE
                         else outcome_NOTHING)))"

definition sc_higher_waits :: "scheduler \<Rightarrow> u8 \<Rightarrow> outcome" where
  "sc_higher_waits s priority =
     (case sc_highest_ready s of
        Some highest \<Rightarrow> if priority < highest then outcome_RESCHEDULE else outcome_NOTHING
      | None \<Rightarrow> outcome_NOTHING)"

definition sc_left_the_processor :: "scheduler \<Rightarrow> object_id \<Rightarrow> outcome \<times> scheduler" where
  "sc_left_the_processor s oid =
     (if sc_current s = Some oid then (outcome_RESCHEDULE, s\<lparr>sc_current := None\<rparr>)
      else (outcome_NOTHING, s))"

definition sc_start ::
  "scheduler \<Rightarrow> thread pool \<Rightarrow> object_id \<Rightarrow> (error + outcome) \<times> scheduler \<times> thread pool" where
  "sc_start s threads oid =
     and_then (sc_apply s threads oid EvStart) (\<lambda>_ (s, threads).
       and_then (sc_enqueue s threads oid) (\<lambda>_ (s, threads).
         (Inr (sc_preempts_current s threads oid), s, threads)))"

definition sc_on_wake ::
  "scheduler \<Rightarrow> thread pool \<Rightarrow> object_id \<Rightarrow> (error + outcome) \<times> scheduler \<times> thread pool" where
  "sc_on_wake s threads oid =
     (case pool_get threads oid of
        Inl _ \<Rightarrow> (Inl InvalidHandle, s, threads)
      | Inr thread \<Rightarrow>
          if th_state thread = Ready then (Inr outcome_NOTHING, s, threads)
          else and_then (sc_apply s threads oid EvWake) (\<lambda>_ (s, threads).
            and_then (sc_enqueue s threads oid) (\<lambda>_ (s, threads).
              (Inr (sc_preempts_current s threads oid), s, threads))))"

definition sc_leaves_the_processor ::
  "scheduler \<Rightarrow> thread pool \<Rightarrow> object_id \<Rightarrow> event \<Rightarrow> (error + outcome) \<times> scheduler \<times> thread pool" where
  "sc_leaves_the_processor s threads oid event =
     and_then (sc_apply s threads oid event) (\<lambda>_ (s, threads).
       and_then (sc_dequeue s threads oid) (\<lambda>_ (s, threads).
         let threads = sc_spend_slice threads oid
         in case sc_left_the_processor s oid of (outcome, s) \<Rightarrow> (Inr outcome, s, threads)))"

definition sc_on_block ::
  "scheduler \<Rightarrow> thread pool \<Rightarrow> object_id \<Rightarrow> event \<Rightarrow> (error + outcome) \<times> scheduler \<times> thread pool" where
  "sc_on_block s threads oid event =
     (if blocked_state event = None then (Inl InvalidArgument, s, threads)
      else sc_leaves_the_processor s threads oid event)"

definition sc_on_block_until ::
  "scheduler \<Rightarrow> thread pool \<Rightarrow> object_id \<Rightarrow> event \<Rightarrow> u64 \<Rightarrow>
   (error + outcome) \<times> scheduler \<times> thread pool" where
  "sc_on_block_until s threads oid event deadline =
     (if event \<noteq> EvBlockNotification then (Inl InvalidArgument, s, threads)
      else case dl_can_insert (sc_deadlines s) threads oid of
        Inl e \<Rightarrow> (Inl e, s, threads)
      | Inr _ \<Rightarrow>
          and_then (sc_on_block s threads oid event) (\<lambda>outcome (s, threads).
            case dl_insert (sc_deadlines s) threads oid deadline of
              (Inl e, deadlines, threads) \<Rightarrow> (Inl e, s\<lparr>sc_deadlines := deadlines\<rparr>, threads)
            | (Inr _, deadlines, threads) \<Rightarrow> (Inr outcome, s\<lparr>sc_deadlines := deadlines\<rparr>, threads)))"

definition sc_suspend ::
  "scheduler \<Rightarrow> thread pool \<Rightarrow> object_id \<Rightarrow> (error + outcome) \<times> scheduler \<times> thread pool" where
  "sc_suspend s threads oid = sc_leaves_the_processor s threads oid EvSuspend"

definition sc_resume ::
  "scheduler \<Rightarrow> thread pool \<Rightarrow> object_id \<Rightarrow> (error + outcome) \<times> scheduler \<times> thread pool" where
  "sc_resume s threads oid =
     and_then (sc_apply s threads oid EvResume) (\<lambda>_ (s, threads).
       and_then (sc_enqueue s threads oid) (\<lambda>_ (s, threads).
         (Inr (sc_preempts_current s threads oid), s, threads)))"

definition sc_fault ::
  "scheduler \<Rightarrow> thread pool \<Rightarrow> object_id \<Rightarrow> (error + outcome) \<times> scheduler \<times> thread pool" where
  "sc_fault s threads oid = sc_leaves_the_processor s threads oid EvFault"

definition sc_exit ::
  "scheduler \<Rightarrow> thread pool \<Rightarrow> object_id \<Rightarrow> (error + outcome) \<times> scheduler \<times> thread pool" where
  "sc_exit s threads oid =
     (case pool_get threads oid of
        Inl _ \<Rightarrow> (Inl InvalidHandle, s, threads)
      | Inr thread \<Rightarrow>
          if th_state thread = Exited then (Inr outcome_NOTHING, s, threads)
          else sc_leaves_the_processor s threads oid EvExit)"

definition sc_yield_now ::
  "scheduler \<Rightarrow> thread pool \<Rightarrow> object_id \<Rightarrow> (error + outcome) \<times> scheduler \<times> thread pool" where
  "sc_yield_now s threads oid =
     and_then (sc_apply s threads oid EvYield) (\<lambda>_ (s, threads).
       case pool_get_mut threads oid (\<lambda>thread. thread\<lparr>th_time_slice := 0\<rparr>) of
         (Inl _, threads) \<Rightarrow> (Inl InvalidHandle, s, threads)
       | (Inr _, threads) \<Rightarrow>
           and_then (sc_enqueue s threads oid) (\<lambda>_ (s, threads). (Inr outcome_RESCHEDULE, s, threads)))"

definition sc_set_priority ::
  "scheduler \<Rightarrow> thread pool \<Rightarrow> object_id \<Rightarrow> u8 \<Rightarrow> (error + outcome) \<times> scheduler \<times> thread pool" where
  "sc_set_priority s threads oid priority =
     (case pool_get threads oid of
        Inl _ \<Rightarrow> (Inl InvalidHandle, s, threads)
      | Inr thread \<Rightarrow>
          if PRIORITIES \<le> unat priority \<or> th_max_priority thread < priority
          then (Inl InvalidArgument, s, threads)
          else
            let queued = (th_state thread = Ready);
                moves = (th_priority thread \<noteq> priority)
            in and_then (if queued then sc_dequeue s threads oid else (Inr (), s, threads))
              (\<lambda>_ (s, threads).
                 case pool_get_mut threads oid (\<lambda>thread. thread\<lparr>th_priority := priority\<rparr>) of
                   (Inl _, threads) \<Rightarrow> (Inl InvalidHandle, s, threads)
                 | (Inr _, threads) \<Rightarrow>
                     let threads = (if moves then sc_spend_slice threads oid else threads)
                     in if queued
                        then and_then (sc_enqueue s threads oid) (\<lambda>_ (s, threads).
                               (Inr (sc_preempts_current s threads oid), s, threads))
                        else if sc_current s = Some oid then (Inr (sc_higher_waits s priority), s, threads)
                        else (Inr outcome_NOTHING, s, threads)))"

definition sc_tick :: "scheduler \<Rightarrow> thread pool \<Rightarrow> outcome \<times> thread pool" where
  "sc_tick s threads =
     (case sc_current s of
        None \<Rightarrow> (sc_wake_from_idle s, threads)
      | Some current \<Rightarrow>
          if Some current = sc_idle s then (sc_wake_from_idle s, threads)
          else (case pool_get_mut threads current
                    (\<lambda>thread. thread\<lparr>th_time_slice := saturating_sub (th_time_slice thread) 1\<rparr>) of
                  (Inl _, threads) \<Rightarrow> (outcome_RESCHEDULE, threads)
                | (Inr _, threads) \<Rightarrow>
                    (case pool_get threads current of
                       Inr thread \<Rightarrow>
                         (if th_time_slice thread = 0 then outcome_RESCHEDULE else outcome_NOTHING, threads)
                     | Inl _ \<Rightarrow> (outcome_NOTHING, threads))))"

section \<open>The bitmap\<close>

lemma and_then_simps [simp]:
  "and_then (Inl e, st) f = (Inl e, st)"
  "and_then (Inr x, st) f = f x st"
  by (simp_all add: and_then_def)

lemma PRIORITIES_32: "PRIORITIES = 32"
  by (simp add: PRIORITIES_def PRIORITY_COUNT_def)

lemma takeWhile_upt:
  fixes P :: "nat \<Rightarrow> bool"
  assumes "n = length (takeWhile P [0..<m])"
  shows "\<And>i. i < n \<Longrightarrow> P i" "n < m \<Longrightarrow> \<not> P n" "n \<le> m"
proof -
  have le: "n \<le> m" using assms length_takeWhile_le [of P "[0..<m]"] by simp
  show "P i" if "i < n" for i
  proof -
    have "takeWhile P [0..<m] ! i = i" using that le assms takeWhile_nth [of i P "[0..<m]"] by simp
    then show ?thesis using nth_mem [of i "takeWhile P [0..<m]"] that assms set_takeWhileD by metis
  qed
  show "\<not> P n" if "n < m" using nth_length_takeWhile [of P "[0..<m]"] that assms by simp
  show "n \<le> m" by (rule le)
qed

lemma highest_ready_bit:
  assumes "sc_highest_ready s = Some p"
  shows "bit (sc_ready s) (unat p)" "\<And>i. unat p < i \<Longrightarrow> \<not> bit (sc_ready s) i" "unat p < 32"
proof -
  let ?w = "sc_ready s" and ?n = "length (takeWhile (\<lambda>i. \<not> bit (sc_ready s) (31 - i)) [0..<32])"
  have w: "?w \<noteq> 0" and p: "p = ucast (31 - leading_zeros ?w)"
    using assms by (auto simp: sc_highest_ready_def Let_def split: if_splits)
  note T = takeWhile_upt [of ?n "\<lambda>i. \<not> bit (sc_ready s) (31 - i)" 32, OF refl]
  have n: "?n < 32"
  proof (rule ccontr)
    assume "\<not> ?n < 32"
    have "\<not> bit ?w i" if "i < 32" for i
    proof -
      have "31 - i < ?n" "31 - (31 - i) = i" using \<open>\<not> ?n < 32\<close> that by auto
      then show ?thesis using T(1) by metis
    qed
    then show False using w bit_imp_le_length [of ?w] by (auto simp: bit_eq_iff)
  qed
  have "unat (leading_zeros ?w) = ?n"
    using n by (simp add: leading_zeros_def unat_of_nat)
  then have "unat (31 - leading_zeros ?w) = 31 - ?n"
    using n by (simp add: unat_sub word_le_nat_alt)
  then have up: "unat p = 31 - ?n"
    using n by (simp add: p unsigned_ucast_eq take_bit_eq_mod)
  show "bit ?w (unat p)" using T(2) n by (simp add: up)
  show "unat p < 32" by (simp add: up)
  show "\<not> bit ?w i" if "unat p < i" for i
  proof (cases "i < 32")
    case True
    then have "31 - i < ?n" "31 - (31 - i) = i" using that n by (auto simp: up)
    then show ?thesis using T(1) by metis
  qed (auto dest: bit_imp_le_length)
qed

lemma highest_ready_None: "sc_highest_ready s = None \<longleftrightarrow> (\<forall>i. \<not> bit (sc_ready s) i)"
  using bit_imp_le_length [of "sc_ready s"] by (auto simp: sc_highest_ready_def Let_def bit_eq_iff)

lemma mark_ready_bit:
  assumes "unat p < 32"
  shows "bit (sc_ready (sc_mark_ready s p b)) i \<longleftrightarrow> (if i = unat p then b else bit (sc_ready s) i)"
  using assms bit_imp_le_length [of "sc_ready s" i]
  by (auto simp: sc_mark_ready_def PRIORITIES_32 Let_def bit_or_iff bit_and_iff bit_not_iff bit_exp_iff)

lemma mark_ready_fields [simp]:
  "sc_queues (sc_mark_ready s p b) = sc_queues s" "sc_current (sc_mark_ready s p b) = sc_current s"
  "sc_idle (sc_mark_ready s p b) = sc_idle s" "sc_ended (sc_mark_ready s p b) = sc_ended s"
  "sc_deadlines (sc_mark_ready s p b) = sc_deadlines s"
  by (simp_all add: sc_mark_ready_def Let_def)

lemma queue_mut_fields [simp]:
  "sc_ready (sc_queue_mut s p f) = sc_ready s" "sc_current (sc_queue_mut s p f) = sc_current s"
  "sc_idle (sc_queue_mut s p f) = sc_idle s" "sc_ended (sc_queue_mut s p f) = sc_ended s"
  "sc_deadlines (sc_queue_mut s p f) = sc_deadlines s"
  by (simp_all add: sc_queue_mut_def split: option.splits)

section \<open>Changes of the pool\<close>

text \<open>
  The pools \<open>ts\<close> and \<open>ts'\<close> hold the same threads, equal up to what \<open>strip\<close> forgets and equal outside \<open>K\<close>.
\<close>

definition altered :: "(thread \<Rightarrow> thread) \<Rightarrow> object_id set \<Rightarrow> thread pool \<Rightarrow> thread pool \<Rightarrow> bool" where
  "altered strip K ts ts' \<longleftrightarrow>
     (\<forall>k. map_option strip (pool_map ts' k) = map_option strip (pool_map ts k)) \<and>
     (\<forall>k. k \<notin> K \<longrightarrow> pool_map ts' k = pool_map ts k) \<and> (pool_inv ts \<longrightarrow> pool_inv ts')"

lemma altered_refl [simp]: "altered strip K ts ts"
  by (simp add: altered_def)

lemma altered_trans: "altered strip K a b \<Longrightarrow> altered strip K b c \<Longrightarrow> altered strip K a c"
  by (simp add: altered_def)

lemma altered_mono: "altered strip K a b \<Longrightarrow> K \<subseteq> L \<Longrightarrow> altered strip L a b"
  by (auto simp: altered_def)

lemma altered_weaken:
  assumes "altered strip K a b" and "\<And>t. strip' t = strip' (strip t)"
  shows "altered strip' K a b"
proof -
  have "map_option strip' (pool_map b k) = map_option strip' (pool_map a k)" for k
  proof -
    have "map_option strip (pool_map b k) = map_option strip (pool_map a k)"
      using assms(1) by (simp add: altered_def)
    from arg_cong [OF this, of "map_option strip'"] show ?thesis
      using assms(2) by (simp add: option.map_comp comp_def)
  qed
  then show ?thesis using assms(1) by (simp add: altered_def)
qed

lemma altered_modify:
  "k \<in> K \<Longrightarrow> (\<And>t. strip (f t) = strip t) \<Longrightarrow> altered strip K ts (pool_modify ts k f)"
  by (auto simp: altered_def pool_map_modify pool_inv_modify split: option.splits)

lemma altered_modify_then:
  "altered strip K ts ts' \<Longrightarrow> k \<in> K \<Longrightarrow> (\<And>t. strip (f t) = strip t) \<Longrightarrow> altered strip K ts (pool_modify ts' k f)"
  by (blast intro: altered_trans altered_modify)

lemma altered_inv: "altered strip K ts ts' \<Longrightarrow> pool_inv ts \<Longrightarrow> pool_inv ts'"
  by (simp add: altered_def)

lemma altered_live: "altered strip K ts ts' \<Longrightarrow> pool_map ts' k = None \<longleftrightarrow> pool_map ts k = None"
  unfolding altered_def by (metis map_option_is_None)

lemma altered_other: "altered strip K ts ts' \<Longrightarrow> k \<notin> K \<Longrightarrow> pool_map ts' k = pool_map ts k"
  by (simp add: altered_def)

lemma altered_some:
  assumes "altered strip K ts ts'" and "pool_map ts' k = Some t'"
  obtains t where "pool_map ts k = Some t" "strip t' = strip t"
proof -
  have "map_option strip (pool_map ts' k) = map_option strip (pool_map ts k)"
    using assms(1) by (simp add: altered_def)
  with assms(2) that show ?thesis by (cases "pool_map ts k") auto
qed

lemma altered_some_fwd:
  assumes "altered strip K ts ts'" and "pool_map ts k = Some t"
  obtains t' where "pool_map ts' k = Some t'" "strip t' = strip t"
proof -
  have "map_option strip (pool_map ts' k) = map_option strip (pool_map ts k)"
    using assms(1) by (simp add: altered_def)
  with assms(2) that show ?thesis by (cases "pool_map ts' k") auto
qed

lemma retimed_altered: "retimed K ts ts' \<Longrightarrow> altered strip_deadline K ts ts'"
  unfolding altered_def using retimed_map retimed_other retimed_inv by blast

section \<open>Queues as lists\<close>

interpretation queue_links: thread_links th_queue_links set_queue_links
  by unfold_locales (simp add: set_queue_links_def)

definition strip_queue :: "thread \<Rightarrow> thread" where
  "strip_queue t = t\<lparr>th_queue_links := links_UNLINKED\<rparr>"

abbreviation queued :: "(nat \<Rightarrow> object_id list) \<Rightarrow> object_id \<Rightarrow> bool" where
  "queued qs k \<equiv> \<exists>p. k \<in> set (qs p)"

text \<open>
  The run queues of the threads \<open>M\<close> are the lists \<open>qs\<close>: the queue of priority \<open>p\<close> threads \<open>qs p\<close>, which
  are threads of \<open>M\<close> of that priority; the bitmap names the priorities that hold someone; a thread of
  \<open>M\<close> in no list is unlinked.
\<close>

definition runq :: "object_id set \<Rightarrow> scheduler \<Rightarrow> thread pool \<Rightarrow> (nat \<Rightarrow> object_id list) \<Rightarrow> bool" where
  "runq M s ts qs \<longleftrightarrow> length (sc_queues s) = 32 \<and>
     (\<forall>p < 32. queue_links.store.queue ts (rq_head (sc_queues s ! p)) (rq_tail (sc_queues s ! p)) (qs p)) \<and>
     (\<forall>p. bit (sc_ready s) p \<longleftrightarrow> qs p \<noteq> []) \<and>
     (\<forall>p k. k \<in> set (qs p) \<longrightarrow> k \<in> M \<and> p < 32 \<and> (\<exists>t. pool_map ts k = Some t \<and> unat (th_priority t) = p)) \<and>
     (\<forall>k t. k \<in> M \<longrightarrow> pool_map ts k = Some t \<longrightarrow> \<not> queued qs k \<longrightarrow> th_queue_links t = links_UNLINKED)"

lemma runqD:
  assumes "runq M s ts qs"
  shows "length (sc_queues s) = 32"
    "\<And>p. p < 32 \<Longrightarrow> queue_links.store.queue ts (rq_head (sc_queues s ! p)) (rq_tail (sc_queues s ! p)) (qs p)"
    "\<And>p. bit (sc_ready s) p \<longleftrightarrow> qs p \<noteq> []"
    "\<And>p k. k \<in> set (qs p) \<Longrightarrow> k \<in> M \<and> p < 32 \<and> (\<exists>t. pool_map ts k = Some t \<and> unat (th_priority t) = p)"
    "\<And>k t. k \<in> M \<Longrightarrow> pool_map ts k = Some t \<Longrightarrow> \<not> queued qs k \<Longrightarrow> th_queue_links t = links_UNLINKED"
  using assms unfolding runq_def by blast+

lemma runq_one_queue:
  assumes "runq M s ts qs" and "k \<in> set (qs p)" and "k \<in> set (qs p')"
  shows "p' = p"
  using runqD(4) [OF assms(1,2)] runqD(4) [OF assms(1,3)] by auto

lemma runq_own_queue:
  assumes "runq M s ts qs" and "pool_map ts k = Some t"
  shows "queued qs k \<longleftrightarrow> k \<in> set (qs (unat (th_priority t)))"
  using runqD(4) [OF assms(1)] assms(2) by fastforce

lemma runq_frame:
  assumes r: "runq M s ts qs" and same: "sc_queues s' = sc_queues s" "sc_ready s' = sc_ready s"
    and live: "\<And>k. map_option (\<lambda>t. (th_queue_links t, th_priority t)) (pool_map ts' k) =
      map_option (\<lambda>t. (th_queue_links t, th_priority t)) (pool_map ts k)"
  shows "runq M s' ts' qs"
proof -
  have links: "Option.bind (pool_map ts' k) (\<lambda>t. f (th_queue_links t)) = Option.bind (pool_map ts k) (\<lambda>t. f (th_queue_links t))"
    for k and f :: "links \<Rightarrow> object_id option"
    using live [of k] by (cases "pool_map ts k"; cases "pool_map ts' k") auto
  have thread: "\<exists>u. pool_map ts k = Some u \<and> th_queue_links u = th_queue_links t \<and> th_priority u = th_priority t"
    if "pool_map ts' k = Some t" for k t
    using live [of k] that by (cases "pool_map ts k") auto
  have thread': "\<exists>u. pool_map ts' k = Some u \<and> th_priority u = th_priority t"
    if "pool_map ts k = Some t" for k t
    using live [of k] that by (cases "pool_map ts' k") auto
  show ?thesis
    unfolding runq_def same
  proof (intro conjI allI impI)
    fix p :: nat assume "p < 32"
    then show "queue_links.store.queue ts' (rq_head (sc_queues s ! p)) (rq_tail (sc_queues s ! p)) (qs p)"
      unfolding links using runqD(2) [OF r] by blast
  next
    fix p k assume k: "k \<in> set (qs p)"
    show "\<exists>t. pool_map ts' k = Some t \<and> unat (th_priority t) = p"
      using runqD(4) [OF r k] thread' by metis
  next
    fix k t assume "k \<in> M" "pool_map ts' k = Some t" "\<not> queued qs k"
    then show "th_queue_links t = links_UNLINKED"
      using thread runqD(5) [OF r] by metis
  qed (use runqD(1,3,4) [OF r] in blast)+
qed

text \<open>A change of one queue, which concerns the thread \<open>k\<close>.\<close>

lemma runq_update:
  assumes r: "runq M s ts qs" and t: "k \<in> M" "pool_map ts k = Some t" "unat (th_priority t) = p" "p < 32"
    and alt: "altered strip_queue (insert k (set (qs p))) ts ts'"
    and q: "queue_links.store.queue ts' h e xs" "sc_queues s' = (sc_queues s)[p := \<lparr>rq_head = h, rq_tail = e\<rparr>]"
    and bits: "\<And>i. bit (sc_ready s') i \<longleftrightarrow> (if i = p then xs \<noteq> [] else bit (sc_ready s) i)"
    and xs: "set (qs p) - {k} \<subseteq> set xs" "set xs \<subseteq> insert k (set (qs p))"
    and out: "\<And>u. pool_map ts' k = Some u \<Longrightarrow> k \<notin> set xs \<Longrightarrow> th_queue_links u = links_UNLINKED"
  shows "runq M s' ts' (qs(p := xs))"
proof -
  have own: "k \<notin> set (qs p')" if "p' \<noteq> p" for p' using runqD(4) [OF r] that t by fastforce
  have apart: "k' \<notin> insert k (set (qs p))" if "k' \<in> set (qs p')" "p' \<noteq> p" for k' p'
    using that own runq_one_queue [OF r] by blast
  have prio: "\<exists>u. pool_map ts' k' = Some u \<and> th_priority u = th_priority v" if "pool_map ts k' = Some v" for k' v
    using altered_some_fwd [OF alt that] by (metis strip_queue_def thread.select_convs(4) thread.surjective thread.update_convs(14))
  show ?thesis
    unfolding runq_def
  proof (intro conjI allI impI)
    show "length (sc_queues s') = 32" using runqD(1) [OF r] by (simp add: q)
    show "bit (sc_ready s') i \<longleftrightarrow> (qs(p := xs)) i \<noteq> []" for i using runqD(3) [OF r] by (simp add: bits)
  next
    fix p' :: nat assume p': "p' < 32"
    show "queue_links.store.queue ts' (rq_head (sc_queues s' ! p')) (rq_tail (sc_queues s' ! p')) ((qs(p := xs)) p')"
    proof (cases "p' = p")
      case True
      then show ?thesis using q runqD(1) [OF r] t(4) by simp
    next
      case False
      have "pool_map ts' k' = pool_map ts k'" if "k' \<in> set (qs p')" for k'
        using altered_other [OF alt apart [OF that False]] .
      then show ?thesis
        using False queue_list_cong [OF runqD(2) [OF r p']] by (simp add: q)
    qed
  next
    fix p' k' assume k': "k' \<in> set ((qs(p := xs)) p')"
    have "k' \<in> M \<and> p' < 32 \<and> (\<exists>v. pool_map ts k' = Some v \<and> unat (th_priority v) = p')"
    proof (cases "p' = p \<and> k' = k")
      case False
      then have "k' \<in> set (qs p')" using k' xs(2) by (auto split: if_splits)
      then show ?thesis using runqD(4) [OF r] by blast
    qed (use t in auto)
    then show "k' \<in> M" "p' < 32" "\<exists>u. pool_map ts' k' = Some u \<and> unat (th_priority u) = p'"
      using prio by metis+
  next
    fix k' u assume k': "k' \<in> M" "pool_map ts' k' = Some u" "\<not> queued (qs(p := xs)) k'"
    have nx: "k' \<notin> set xs" using k'(3) by (metis fun_upd_same)
    show "th_queue_links u = links_UNLINKED"
    proof (cases "k' = k")
      case False
      then have "k' \<notin> set (qs p')" for p' using k'(3) nx xs(1) by (cases "p' = p") (auto dest: spec [of _ p'])
      then show ?thesis
        using k' False altered_other [OF alt] runqD(5) [OF r k'(1)] by auto
    qed (use out k' nx in auto)
  qed
qed

lemma set_queue_eq:
  "set_queue_next v = (\<lambda>t. set_queue_links ((th_queue_links t)\<lparr>ln_next := v\<rparr>) t)"
  "set_queue_previous v = (\<lambda>t. set_queue_links ((th_queue_links t)\<lparr>ln_previous := v\<rparr>) t)"
  by (simp_all add: fun_eq_iff set_queue_next_def set_queue_previous_def set_queue_links_def)

lemma strip_set_queue [simp]: "strip_queue (set_queue_links l t) = strip_queue t"
  by (simp add: strip_queue_def set_queue_links_def)

text \<open>The parts of the scheduler that linking and unlinking leave alone.\<close>

definition same_rest :: "scheduler \<Rightarrow> scheduler \<Rightarrow> bool" where
  "same_rest s s' \<longleftrightarrow> sc_current s' = sc_current s \<and> sc_idle s' = sc_idle s \<and> sc_ended s' = sc_ended s \<and>
     sc_deadlines s' = sc_deadlines s"

definition placed :: "placement \<Rightarrow> object_id \<Rightarrow> object_id list \<Rightarrow> object_id list" where
  "placed pl k xs = (case pl of PlaceTail \<Rightarrow> xs @ [k] | PlaceHead \<Rightarrow> k # xs)"

lemma set_placed [simp]: "set (placed pl k xs) = insert k (set xs)" "placed pl k xs \<noteq> []"
  by (simp_all add: placed_def split: placement.splits)

text \<open>The pool with \<open>k\<close> linked at one end of a queue whose ends are \<open>h\<close> and \<open>e\<close>.\<close>

definition attach :: "placement \<Rightarrow> object_id \<Rightarrow> object_id option \<Rightarrow> object_id option \<Rightarrow> thread pool \<Rightarrow> thread pool" where
  "attach pl k h e ts = (case pl of
       PlaceTail \<Rightarrow> on_some e (\<lambda>n s. pool_modify s n (set_queue_next (Some k)))
         (pool_modify ts k (set_queue_links \<lparr>ln_next = None, ln_previous = e\<rparr>))
     | PlaceHead \<Rightarrow> on_some h (\<lambda>n s. pool_modify s n (set_queue_previous (Some k)))
         (pool_modify ts k (set_queue_links \<lparr>ln_next = h, ln_previous = None\<rparr>)))"

lemma attach_queue:
  assumes q: "queue_links.store.queue ts h e xs" and k: "k \<notin> set xs" "pool_map ts k \<noteq> None"
    and live: "\<And>n. n \<in> set xs \<Longrightarrow> pool_map ts n \<noteq> None"
  shows "queue_links.store.queue (attach pl k h e ts)
      (case pl of PlaceTail \<Rightarrow> if e = None then Some k else h | PlaceHead \<Rightarrow> Some k)
      (case pl of PlaceTail \<Rightarrow> Some k | PlaceHead \<Rightarrow> if h = None then Some k else e) (placed pl k xs)"
    "altered strip_queue (insert k (set xs)) ts (attach pl k h e ts)"
proof -
  have ends: "h = opt_head xs" "e = opt_last xs" using queue_listD [OF q] by auto
  then have mem: "n \<in> set xs" if "h = Some n \<or> e = Some n" for n using that opt_head_in opt_last_in by metis
  have "altered strip_queue (insert k (set xs)) ts (attach pl k h e ts)" for pl
    using mem by (cases pl; cases h; cases e)
      (auto simp: attach_def on_some_def set_queue_eq intro!: altered_modify_then)
  then show "altered strip_queue (insert k (set xs)) ts (attach pl k h e ts)" .
  show "queue_links.store.queue (attach pl k h e ts)
      (case pl of PlaceTail \<Rightarrow> if e = None then Some k else h | PlaceHead \<Rightarrow> Some k)
      (case pl of PlaceTail \<Rightarrow> Some k | PlaceHead \<Rightarrow> if h = None then Some k else e) (placed pl k xs)"
  proof (cases pl)
    case PlaceTail
    then show ?thesis
      using queue_links.store.append_queue(1) [OF q k(1)] k live
      by (simp add: attach_def placed_def set_queue_eq del: not_None_eq)
  next
    case PlaceHead
    show ?thesis
    proof (cases xs)
      case Nil
      then show ?thesis
        using PlaceHead ends k q queue_links.store.append_queue(1) [of ts None None "[]" k]
        by (simp add: attach_def placed_def on_some_def set_queue_eq del: not_None_eq)
    next
      case (Cons y ys)
      have q': "queue_links.store.queue ts h e ([] @ y # ys)" using q Cons by simp
      have "queue_links.tprev ts y = None" using queue_list_neighbours(1) [OF q'] by simp
      then show ?thesis
        using PlaceHead Cons ends k live queue_links.store.insert_before_queue(1) [OF q', of k]
        by (simp add: attach_def placed_def on_some_def set_queue_eq del: not_None_eq)
    qed
  qed
qed

lemma rq_eta:
  "q\<lparr>rq_head := x\<rparr> = \<lparr>rq_head = x, rq_tail = rq_tail q\<rparr>" "q\<lparr>rq_tail := x\<rparr> = \<lparr>rq_head = rq_head q, rq_tail = x\<rparr>"
  for q :: run_queue
  by (cases q; simp)+

lemma link_run:
  assumes r: "runq M s ts qs" and t: "k \<in> M" "pool_map ts k = Some t" "unat (th_priority t) < 32"
    and out: "\<not> queued qs k" "sc_idle s \<noteq> Some k"
  defines "q \<equiv> sc_queues s ! unat (th_priority t)"
  shows "sc_link s ts k pl = (Inr (), sc_mark_ready (s\<lparr>sc_queues := (sc_queues s)[unat (th_priority t) :=
      \<lparr>rq_head = (case pl of PlaceTail \<Rightarrow> if rq_tail q = None then Some k else rq_head q | PlaceHead \<Rightarrow> Some k),
       rq_tail = (case pl of PlaceTail \<Rightarrow> Some k | PlaceHead \<Rightarrow> if rq_head q = None then Some k else rq_tail q)\<rparr>]\<rparr>)
      (th_priority t) True, attach pl k (rq_head q) (rq_tail q) ts)"
proof -
  let ?p = "unat (th_priority t)"
  have Q: "queue_links.store.queue ts (rq_head q) (rq_tail q) (qs ?p)" using runqD(2) [OF r t(3)] by (simp add: q_def)
  have len: "?p < length (sc_queues s)" using runqD(1) [OF r] t(3) by simp
  have un: "is_unlinked (th_queue_links t)" using runqD(5) [OF r t(1,2) out(1)] by (simp add: is_unlinked_iff)
  have ends: "rq_head q = opt_head (qs ?p)" "rq_tail q = opt_last (qs ?p)" using queue_listD [OF Q] by auto
  have nh: "rq_head q \<noteq> Some k" using ends out by (metis opt_head_in)
  have live: "pool_map ts n \<noteq> None \<and> n \<noteq> k" if "rq_head q = Some n \<or> rq_tail q = Some n" for n
  proof -
    have "n \<in> set (qs ?p)" using that ends opt_head_in opt_last_in by metis
    then show ?thesis using runqD(4) [OF r, of n ?p] out by auto
  qed
  have queue: "sc_queue s (th_priority t) = Some q" using len by (simp add: sc_queue_def array_get_def q_def)
  have mut: "sc_queue_mut s (th_priority t) f = s\<lparr>sc_queues := (sc_queues s)[?p := f q]\<rparr>" for f
    by (simp add: sc_queue_mut_def queue)
  have mut2: "sc_queue_mut (s\<lparr>sc_queues := (sc_queues s)[?p := x]\<rparr>) (th_priority t) f = s\<lparr>sc_queues := (sc_queues s)[?p := f x]\<rparr>" for f x
    using len by (simp add: sc_queue_mut_def sc_queue_def array_get_def)
  have np: "\<not> 32 \<le> unat (th_priority t)" using t(3) by simp
  note run = sc_link_def pool_get_map PRIORITIES_32 queue mut mut2 Let_def pool_get_mut_eq pool_map_modify_apply
    attach_def on_some_def rq_eta t(1,2) np un nh out(2)
  show ?thesis
  proof (cases pl)
    case PlaceTail
    show ?thesis
    proof (cases "rq_tail q")
      case (Some n)
      with live obtain u where "pool_map ts n = Some u" "n \<noteq> k" by blast
      then show ?thesis using PlaceTail Some by (simp add: run)
    qed (use PlaceTail in \<open>simp add: run\<close>)
  next
    case PlaceHead
    show ?thesis
    proof (cases "rq_head q")
      case (Some n)
      with live obtain u where "pool_map ts n = Some u" "n \<noteq> k" by blast
      then show ?thesis using PlaceHead Some by (simp add: run)
    qed (use PlaceHead in \<open>simp add: run\<close>)
  qed
qed

lemma link_effect:
  assumes r: "runq M s ts qs" and t: "k \<in> M" "pool_map ts k = Some t" "unat (th_priority t) < 32"
    and out: "\<not> queued qs k" "sc_idle s \<noteq> Some k"
  obtains s' ts' where "sc_link s ts k pl = (Inr (), s', ts')" "same_rest s s'"
    "altered strip_queue (insert k (set (qs (unat (th_priority t))))) ts ts'"
    "runq M s' ts' (qs(unat (th_priority t) := placed pl k (qs (unat (th_priority t)))))"
proof -
  let ?p = "unat (th_priority t)"
  let ?q = "sc_queues s ! ?p"
  have Q: "queue_links.store.queue ts (rq_head ?q) (rq_tail ?q) (qs ?p)" using runqD(2) [OF r t(3)] .
  have live: "pool_map ts n \<noteq> None" if "n \<in> set (qs ?p)" for n using runqD(4) [OF r that] by auto
  have k: "k \<notin> set (qs ?p)" "pool_map ts k \<noteq> None" using out t by auto
  note A = attach_queue [OF Q k live]
  show thesis
  proof (rule that [OF link_run [OF r t out] _ A(2)])
    show "runq M (sc_mark_ready (s\<lparr>sc_queues := (sc_queues s)[?p :=
        \<lparr>rq_head = (case pl of PlaceTail \<Rightarrow> if rq_tail ?q = None then Some k else rq_head ?q | PlaceHead \<Rightarrow> Some k),
         rq_tail = (case pl of PlaceTail \<Rightarrow> Some k | PlaceHead \<Rightarrow> if rq_head ?q = None then Some k else rq_tail ?q)\<rparr>]\<rparr>)
        (th_priority t) True) (attach pl k (rq_head ?q) (rq_tail ?q) ts) (qs(?p := placed pl k (qs ?p)))"
      by (rule runq_update [OF r t(1,2) refl t(3) A(2) A(1)]) (use t(3) in \<open>auto simp: mark_ready_bit\<close>)
  qed (simp add: same_rest_def)
qed

lemma link_refused:
  assumes "sc_link s ts k pl = (Inl e, s', ts')"
  shows "s' = s \<and> ts' = ts"
  using assms
  by (auto simp: sc_link_def pool_get_map pool_get_mut_eq Let_def pool_map_modify_apply
      split: if_splits option.splits placement.splits)

text \<open>The pool with \<open>k\<close> taken out between its neighbours.\<close>

definition detach :: "object_id \<Rightarrow> thread pool \<Rightarrow> thread pool" where
  "detach k ts = queue_links.store.splice_out k ts"

lemma dequeue_run:
  assumes r: "runq M s ts qs" and t: "pool_map ts k = Some t" and k: "k \<in> set (qs (unat (th_priority t)))"
  defines "q \<equiv> sc_queues s ! unat (th_priority t)"
  defines "h \<equiv> if rq_head q = Some k then queue_links.tnext ts k else rq_head q"
    and "e \<equiv> if rq_tail q = Some k then queue_links.tprev ts k else rq_tail q"
  shows "sc_dequeue s ts k = (Inr (), sc_mark_ready (s\<lparr>sc_queues := (sc_queues s)[unat (th_priority t) :=
      \<lparr>rq_head = h, rq_tail = e\<rparr>]\<rparr>) (th_priority t) (h \<noteq> None), detach k ts)"
proof -
  let ?p = "unat (th_priority t)" and ?l = "th_queue_links t"
  have p: "?p < 32" using runqD(4) [OF r k] by blast
  have Q: "queue_links.store.queue ts (rq_head q) (rq_tail q) (qs ?p)" using runqD(2) [OF r p] by (simp add: q_def)
  have queue: "sc_queue s (th_priority t) = Some q"
    using runqD(1) [OF r] p by (simp add: sc_queue_def array_get_def q_def)
  have mut: "sc_queue_mut s (th_priority t) f = s\<lparr>sc_queues := (sc_queues s)[?p := f q]\<rparr>" for f
    by (simp add: sc_queue_mut_def queue)
  have here: "\<not> (is_unlinked ?l \<and> rq_head q \<noteq> Some k)"
    using queue_list_unlinked(1) [OF Q k] t by (auto simp: is_unlinked_iff links_UNLINKED_def)
  have d: "distinct (qs ?p)" using queue_listD(4) [OF Q] .
  obtain ys zs where split: "qs ?p = ys @ k # zs" using k by (meson split_list)
  have live: "(\<exists>u. pool_map ts n = Some u) \<and> n \<noteq> k" if "ln_next ?l = Some n \<or> ln_previous ?l = Some n" for n
  proof -
    have "n \<in> set (ys @ zs)"
      using queue_list_neighbours [OF Q [unfolded split]] that t opt_last_in [of ys] opt_head_in [of zs] by auto
    then show ?thesis using d split runqD(4) [OF r, of n ?p] by auto
  qed
  obtain a z where ab: "q = \<lparr>rq_head = a, rq_tail = z\<rparr>" by (cases q)
  have here': "(is_unlinked ?l \<and> a \<noteq> Some k) = False" using here by (simp add: ab)
  note run = here' ab detach_def sc_dequeue_def pool_get_map t queue mut Let_def pool_get_mut_eq pool_map_modify_apply
    rq_is_empty_def on_some_def set_queue_eq h_def e_def links_UNLINKED_def
  show ?thesis
  proof (cases "ln_previous ?l")
    case None
    show ?thesis
    proof (cases "ln_next ?l")
      case (Some n)
      then obtain u where "pool_map ts n = Some u" "n \<noteq> k" using live by blast
      with None Some show ?thesis by (simp add: run)
    qed (use None in \<open>simp add: run\<close>)
  next
    case (Some b)
    then obtain v where v: "pool_map ts b = Some v" "b \<noteq> k" using live by blast
    show ?thesis
    proof (cases "ln_next ?l")
      case None
      with v Some show ?thesis by (simp add: run)
    next
      case (Some n)
      then obtain u where "pool_map ts n = Some u" "n \<noteq> k" using live by blast
      with v Some \<open>ln_previous ?l = Some b\<close> show ?thesis by (simp add: run)
    qed
  qed
qed

lemma detach_altered:
  assumes q: "queue_links.store.queue ts h e xs" and k: "k \<in> set xs"
  shows "altered strip_queue (set xs) ts (detach k ts)"
proof -
  have "n \<in> set xs" if "queue_links.tnext ts k = Some n \<or> queue_links.tprev ts k = Some n" for n
    using queue_list_next_in [OF q k, of n] queue_list_prev_in [OF q k, of n] that by blast
  then show ?thesis
    using k by (cases "queue_links.tnext ts k"; cases "queue_links.tprev ts k")
      (auto simp: detach_def on_some_def simp del: bind_eq_Some_conv intro!: altered_modify_then)
qed

lemma detach_self: "pool_map (detach k ts) k = Some u \<Longrightarrow> th_queue_links u = links_UNLINKED"
  by (auto simp: detach_def pool_map_modify_apply set_queue_links_def links_UNLINKED_def)

lemma dequeue_effect:
  assumes r: "runq M s ts qs" and t: "k \<in> M" "pool_map ts k = Some t"
  obtains s' ts' where "sc_dequeue s ts k = (Inr (), s', ts')" "same_rest s s'"
    "altered strip_queue (set (qs (unat (th_priority t)))) ts ts'"
    "runq M s' ts' (qs(unat (th_priority t) := remove1 k (qs (unat (th_priority t)))))"
    "\<not> queued qs k \<Longrightarrow> s' = s \<and> ts' = ts"
proof (cases "queued qs k")
  case False
  let ?p = "unat (th_priority t)"
  have "Option.bind (sc_queue s (th_priority t)) rq_head \<noteq> Some k"
  proof
    assume h: "Option.bind (sc_queue s (th_priority t)) rq_head = Some k"
    then have p: "?p < 32" "rq_head (sc_queues s ! ?p) = Some k"
      using runqD(1) [OF r] by (auto simp: sc_queue_def array_get_def split: if_splits)
    then have "k \<in> set (qs ?p)" using queue_listD(1) [OF runqD(2) [OF r p(1)]] by (metis opt_head_in)
    then show False using False by blast
  qed
  then have "sc_dequeue s ts k = (Inr (), s, ts)"
    using t runqD(5) [OF r t False] by (simp add: sc_dequeue_def pool_get_map is_unlinked_iff)
  moreover have "qs(?p := remove1 k (qs ?p)) = qs" using False by (simp add: fun_upd_idem remove1_idem)
  ultimately show thesis using that r by (simp add: same_rest_def)
next
  case True
  let ?p = "unat (th_priority t)"
  let ?q = "sc_queues s ! ?p"
  have k: "k \<in> set (qs ?p)" using True runq_own_queue [OF r t(2)] by blast
  then obtain ys zs where split: "qs ?p = ys @ k # zs" by (meson split_list)
  have p: "?p < 32" using runqD(4) [OF r k] by blast
  have Q: "queue_links.store.queue ts (rq_head ?q) (rq_tail ?q) (ys @ k # zs)" using runqD(2) [OF r p] split by simp
  have live: "pool_map ts n \<noteq> None" if "n \<in> set (ys @ k # zs)" for n
    using runqD(4) [OF r, of n ?p] that split by auto
  have d: "distinct (ys @ k # zs)" using queue_listD(4) [OF Q] .
  then have rem: "remove1 k (qs ?p) = ys @ zs" by (simp add: split remove1_append)
  note out = queue_links.store.splice_out_queue [OF Q live, folded detach_def]
  note alt = detach_altered [OF Q, of k, folded split]
  let ?h = "if rq_head ?q = Some k then queue_links.tnext ts k else rq_head ?q"
    and ?e = "if rq_tail ?q = Some k then queue_links.tprev ts k else rq_tail ?q"
  have h: "?h \<noteq> None \<longleftrightarrow> ys @ zs \<noteq> []" using queue_list_head [OF out] by blast
  show thesis
  proof (rule that [OF dequeue_run [OF r t(2) k]])
    show "runq M (sc_mark_ready (s\<lparr>sc_queues := (sc_queues s)[?p := \<lparr>rq_head = ?h, rq_tail = ?e\<rparr>]\<rparr>)
        (th_priority t) (?h \<noteq> None)) (detach k ts) (qs(?p := remove1 k (qs ?p)))"
      unfolding rem
    proof (rule runq_update [OF r t refl p _ out])
      show "altered strip_queue (insert k (set (qs ?p))) ts (detach k ts)"
        using alt k by (simp add: insert_absorb)
    qed (use p d split h detach_self in \<open>auto simp: mark_ready_bit\<close>)
  qed (use alt k True in \<open>simp_all add: same_rest_def\<close>)
qed

section \<open>The invariant\<close>

text \<open>What the scheduler reads of a thread, and what it may change of it.\<close>

abbreviation sview :: "thread \<Rightarrow> links \<times> u8 \<times> thread_state \<times> u64 option \<times> nat option" where
  "sview t \<equiv> (th_queue_links t, th_priority t, th_state t, th_deadline t, th_deadline_index t)"

definition strip_sched :: "thread \<Rightarrow> thread" where
  "strip_sched t = t\<lparr>th_state := Inactive, th_priority := 0, th_time_slice := 0,
     th_queue_links := links_UNLINKED, th_deadline := None, th_deadline_index := None\<rparr>"

text \<open>
  The invariant for the threads \<open>M\<close> of this processor, except that the threads in \<open>X\<close> may be in a state
  that does not match the queue they are in.
\<close>

definition thread_ok :: "scheduler \<Rightarrow> (nat \<Rightarrow> object_id list) \<Rightarrow> object_id \<Rightarrow> thread \<Rightarrow> bool" where
  "thread_ok s qs k t \<longleftrightarrow>
     (sc_idle s \<noteq> Some k \<longrightarrow> (queued qs k \<longleftrightarrow> th_state t = Ready) \<and> (th_state t = Running \<longrightarrow> sc_current s = Some k) \<and>
        (th_state t = Exited \<longrightarrow> sc_current s \<noteq> Some k)) \<and>
     (k \<in> dl_ids (sc_deadlines s) \<longrightarrow> th_state t = BlockedNotification)"

definition sched_but ::
  "object_id set \<Rightarrow> object_id set \<Rightarrow> scheduler \<Rightarrow> thread pool \<Rightarrow> (nat \<Rightarrow> object_id list) \<Rightarrow> bool" where
  "sched_but X M s ts qs \<longleftrightarrow> pool_inv ts \<and> runq M s ts qs \<and> dl_inv M (sc_deadlines s) ts \<and>
     (\<forall>k \<in> dl_ids (sc_deadlines s). pool_map ts k \<noteq> None \<and> k \<in> M) \<and>
     (\<forall>k. sc_idle s = Some k \<longrightarrow> \<not> queued qs k) \<and>
     (\<forall>k. sc_current s = Some k \<longrightarrow> sc_idle s \<noteq> Some k \<longrightarrow> pool_map ts k \<noteq> None \<and> k \<in> M) \<and>
     (\<forall>k t. k \<in> M \<longrightarrow> pool_map ts k = Some t \<longrightarrow> unat (th_priority t) < 32 \<and> (k \<notin> X \<longrightarrow> thread_ok s qs k t))"

abbreviation sched_inv :: "object_id set \<Rightarrow> scheduler \<Rightarrow> thread pool \<Rightarrow> (nat \<Rightarrow> object_id list) \<Rightarrow> bool" where
  "sched_inv \<equiv> sched_but {}"

lemma sched_butD:
  assumes "sched_but X M s ts qs"
  shows "pool_inv ts" "runq M s ts qs" "dl_inv M (sc_deadlines s) ts"
    "\<And>k. k \<in> dl_ids (sc_deadlines s) \<Longrightarrow> pool_map ts k \<noteq> None \<and> k \<in> M"
    "\<And>k. sc_idle s = Some k \<Longrightarrow> \<not> queued qs k"
    "\<And>k t. k \<in> M \<Longrightarrow> pool_map ts k = Some t \<Longrightarrow> unat (th_priority t) < 32"
    "\<And>k t. k \<in> M \<Longrightarrow> pool_map ts k = Some t \<Longrightarrow> k \<notin> X \<Longrightarrow> thread_ok s qs k t"
    "\<And>k. sc_current s = Some k \<Longrightarrow> sc_idle s \<noteq> Some k \<Longrightarrow> pool_map ts k \<noteq> None \<and> k \<in> M"
  using assms unfolding sched_but_def by blast+

lemma sched_but_mono: "sched_but X M s ts qs \<Longrightarrow> X \<subseteq> Y \<Longrightarrow> sched_but Y M s ts qs"
  unfolding sched_but_def by blast

lemma sched_but_close:
  assumes "sched_but (insert k X) M s ts qs"
    and "\<And>t. k \<in> M \<Longrightarrow> pool_map ts k = Some t \<Longrightarrow> thread_ok s qs k t"
  shows "sched_but X M s ts qs"
  using assms unfolding sched_but_def by blast

lemma dl_inv_frame:
  assumes "dl_inv M d ts"
    and "\<And>k. map_option (\<lambda>t. (th_deadline t, th_deadline_index t)) (pool_map ts' k) =
      map_option (\<lambda>t. (th_deadline t, th_deadline_index t)) (pool_map ts k)"
  shows "dl_inv M d ts'"
proof -
  have old: "\<exists>u. pool_map ts k = Some u \<and> th_deadline u = th_deadline t \<and> th_deadline_index u = th_deadline_index t"
    if "pool_map ts' k = Some t" for k t
    using assms(2) [of k] that by (cases "pool_map ts k") auto
  have sync: "dl_sync M d ts" using assms(1) by (simp add: dl_inv_def dl_ok_def)
  have "dl_sync M d ts'"
    by (rule dl_syncI) (use old dl_syncD [OF sync] in metis)+
  then show ?thesis using assms(1) by (simp add: dl_inv_def dl_ok_def)
qed

lemma dl_deadline_iff:
  assumes "dl_inv M d ts" and "k \<in> M" and "pool_map ts k = Some t"
  shows "th_deadline t \<noteq> None \<longleftrightarrow> k \<in> dl_ids d"
proof -
  have sync: "dl_sync M d ts" and len: "dl_len d \<le> length (dl_entries d)" using assms(1) by (simp_all add: dl_inv_def dl_ok_def)
  have "k \<in> dl_ids d \<longleftrightarrow> (\<exists>i < dl_len d. de_id (dl_entries d ! i) = k)"
    using in_dl_live [OF len] by auto
  then show ?thesis using dl_syncD [OF sync assms(3)] assms(2) by fastforce
qed

lemma thread_ok_cong:
  "sc_idle s' = sc_idle s \<Longrightarrow> sc_current s' = sc_current s \<Longrightarrow> dl_ids (sc_deadlines s') \<subseteq> dl_ids (sc_deadlines s) \<Longrightarrow>
   (queued qs' k \<longleftrightarrow> queued qs k) \<Longrightarrow> th_state t' = th_state t \<Longrightarrow> thread_ok s qs k t \<Longrightarrow> thread_ok s' qs' k t'"
  unfolding thread_ok_def by simp blast

text \<open>Changes that the invariant does not see.\<close>

lemma sched_but_frame:
  assumes inv: "sched_but X M s ts qs" and "pool_inv ts'"
    and s: "sc_queues s' = sc_queues s" "sc_ready s' = sc_ready s" "sc_current s' = sc_current s"
      "sc_idle s' = sc_idle s" "sc_deadlines s' = sc_deadlines s"
    and views: "\<And>k. map_option sview (pool_map ts' k) = map_option sview (pool_map ts k)"
  shows "sched_but X M s' ts' qs"
proof -
  have thread: "\<exists>u. pool_map ts k = Some u \<and> th_state u = th_state t \<and> th_priority u = th_priority t"
    if "pool_map ts' k = Some t" for k t
    using views [of k] that by (cases "pool_map ts k") auto
  have live: "pool_map ts' k = None \<longleftrightarrow> pool_map ts k = None" for k
    using views [of k] by (cases "pool_map ts k"; cases "pool_map ts' k") simp_all
  show ?thesis
    unfolding sched_but_def s
  proof (intro conjI allI impI ballI)
    show "runq M s' ts' qs"
    proof (rule runq_frame [OF sched_butD(2) [OF inv] s(1,2)])
      fix k
      show "map_option (\<lambda>t. (th_queue_links t, th_priority t)) (pool_map ts' k) =
          map_option (\<lambda>t. (th_queue_links t, th_priority t)) (pool_map ts k)"
        using views [of k] by (cases "pool_map ts k"; cases "pool_map ts' k") auto
    qed
    show "dl_inv M (sc_deadlines s) ts'"
    proof (rule dl_inv_frame [OF sched_butD(3) [OF inv]])
      fix k
      show "map_option (\<lambda>t. (th_deadline t, th_deadline_index t)) (pool_map ts' k) =
          map_option (\<lambda>t. (th_deadline t, th_deadline_index t)) (pool_map ts k)"
        using views [of k] by (cases "pool_map ts k"; cases "pool_map ts' k") auto
    qed
  next
    fix k t assume k: "k \<in> M" "pool_map ts' k = Some t"
    obtain u where u: "pool_map ts k = Some u" "th_state u = th_state t" "th_priority u = th_priority t"
      using thread [OF k(2)] by blast
    show "unat (th_priority t) < 32" using sched_butD(6) [OF inv k(1) u(1)] u(3) by simp
    assume "k \<notin> X"
    then show "thread_ok s' qs k t"
      by (intro thread_ok_cong [OF s(4,3) _ refl u(2) [symmetric] sched_butD(7) [OF inv k(1) u(1)]]) (simp_all add: s(5))
  next
    show "pool_inv ts'" by (rule assms(2))
  next
    fix k assume "k \<in> dl_ids (sc_deadlines s)"
    then show "pool_map ts' k \<noteq> None" "k \<in> M" unfolding live using sched_butD(4) [OF inv] by blast+
  next
    fix k assume "sc_idle s = Some k"
    then show "\<not> queued qs k" by (rule sched_butD(5) [OF inv])
  next
    fix k assume "sc_current s = Some k" "sc_idle s \<noteq> Some k"
    then show "pool_map ts' k \<noteq> None" "k \<in> M" unfolding live using sched_butD(8) [OF inv] by blast+
  qed
qed

lemma sched_but_modify:
  assumes "sched_but X M s ts qs" and "\<And>t. sview (f t) = sview t"
  shows "sched_but X M s (pool_modify ts k f) qs"
proof (rule sched_but_frame [OF assms(1)])
  show "map_option sview (pool_map (pool_modify ts k f) k') = map_option sview (pool_map ts k')" for k'
    using assms(2) by (cases "pool_map ts k") (auto simp: pool_map_modify_apply)
  show "pool_inv (pool_modify ts k f)" using sched_butD(1) [OF assms(1)] by (rule pool_inv_modify)
qed simp_all

lemma strip_queue_eqD:
  assumes "strip_queue t' = strip_queue t"
  shows "th_state t' = th_state t" "th_priority t' = th_priority t" "th_deadline t' = th_deadline t"
    "th_deadline_index t' = th_deadline_index t" "th_time_slice t' = th_time_slice t" "th_max_priority t' = th_max_priority t"
  using arg_cong [OF assms, of th_state] arg_cong [OF assms, of th_priority] arg_cong [OF assms, of th_deadline]
    arg_cong [OF assms, of th_deadline_index] arg_cong [OF assms, of th_time_slice] arg_cong [OF assms, of th_max_priority]
  by (simp_all add: strip_queue_def)

lemma runq_members:
  assumes "runq M s ts qs" shows "set (qs p) \<subseteq> M"
  using runqD(4) [OF assms] by blast

lemma sched_but_requeue:
  assumes inv: "sched_but X M s ts qs" and s: "same_rest s s'" and alt: "altered strip_queue K ts ts'"
    and r: "runq M s' ts' qs'" and qs: "\<And>k. k \<notin> X \<Longrightarrow> queued qs' k \<longleftrightarrow> queued qs k"
    and idle: "\<And>k. sc_idle s = Some k \<Longrightarrow> \<not> queued qs' k"
  shows "sched_but X M s' ts' qs'"
proof -
  have s': "sc_current s' = sc_current s" "sc_idle s' = sc_idle s" "sc_deadlines s' = sc_deadlines s"
    using s by (simp_all add: same_rest_def)
  have dl: "dl_inv M (sc_deadlines s) ts'"
  proof (rule dl_inv_frame [OF sched_butD(3) [OF inv]])
    fix k
    have "map_option strip_queue (pool_map ts' k) = map_option strip_queue (pool_map ts k)"
      using alt by (simp add: altered_def)
    then show "map_option (\<lambda>t. (th_deadline t, th_deadline_index t)) (pool_map ts' k) =
        map_option (\<lambda>t. (th_deadline t, th_deadline_index t)) (pool_map ts k)"
      by (cases "pool_map ts k"; cases "pool_map ts' k") (auto dest: strip_queue_eqD)
  qed
  show ?thesis
    unfolding sched_but_def s'
  proof (intro conjI allI impI ballI)
    show "pool_inv ts'" using altered_inv [OF alt sched_butD(1) [OF inv]] .
    show "pool_map ts' k \<noteq> None" "k \<in> M" if "k \<in> dl_ids (sc_deadlines s)" for k
      using sched_butD(4) [OF inv that] unfolding altered_live [OF alt] by blast+
    show "\<not> queued qs' k" if "sc_idle s = Some k" for k using idle [OF that] .
    show "pool_map ts' k \<noteq> None" "k \<in> M" if "sc_current s = Some k" "sc_idle s \<noteq> Some k" for k
      using sched_butD(8) [OF inv that] unfolding altered_live [OF alt] by blast+
    fix k t assume k: "k \<in> M" "pool_map ts' k = Some t"
    obtain u where u: "pool_map ts k = Some u" "strip_queue t = strip_queue u"
      using altered_some [OF alt k(2)] by blast
    show "unat (th_priority t) < 32" using sched_butD(6) [OF inv k(1) u(1)] strip_queue_eqD(2) [OF u(2)] by simp
    assume x: "k \<notin> X"
    show "thread_ok s' qs' k t"
      by (rule thread_ok_cong [OF s'(2,1) _ qs [OF x] strip_queue_eqD(1) [OF u(2)] sched_butD(7) [OF inv k(1) u(1) x]])
        (simp add: s')
  qed (fact r dl)+
qed

lemma queued_upd: "queued (qs(p := xs)) k \<longleftrightarrow> k \<in> set xs \<or> (\<exists>p'. p' \<noteq> p \<and> k \<in> set (qs p'))"
  by (metis fun_upd_other fun_upd_same)

lemma queued_at: "queued qs k \<longleftrightarrow> k \<in> set (qs p) \<or> (\<exists>p'. p' \<noteq> p \<and> k \<in> set (qs p'))"
  using queued_upd [of k qs p "qs p"] by (simp only: fun_upd_triv)

lemma queued_place: "queued (qs(p := placed pl k (qs p))) k' \<longleftrightarrow> queued qs k' \<or> k' = k"
  by (simp only: queued_upd queued_at [of k' qs p] set_placed insert_iff disj_ac)

lemma queued_remove:
  assumes "k' \<noteq> k"
  shows "queued (qs(p := remove1 k (qs p))) k' \<longleftrightarrow> queued qs k'"
  by (simp only: queued_upd queued_at [of k' qs p] in_set_remove1 [OF assms])

lemma queued_removed:
  assumes r: "runq M s ts qs" and t: "pool_map ts k = Some t" and p: "unat (th_priority t) < 32"
  shows "\<not> queued (qs(unat (th_priority t) := remove1 k (qs (unat (th_priority t))))) k"
proof -
  have "distinct (qs (unat (th_priority t)))" using queue_listD(4) [OF runqD(2) [OF r p]] .
  moreover have "k \<notin> set (qs p')" if "p' \<noteq> unat (th_priority t)" for p'
    using runqD(4) [OF r, of k p'] t that by auto
  ultimately show ?thesis unfolding queued_upd by auto
qed

lemma sched_link:
  assumes inv: "sched_but X M s ts qs" and k: "k \<in> X" "k \<in> M" "pool_map ts k = Some t" "\<not> queued qs k" "sc_idle s \<noteq> Some k"
  obtains s' ts' where "sc_link s ts k pl = (Inr (), s', ts')" "same_rest s s'" "altered strip_queue M ts ts'"
    "sched_but X M s' ts' (qs(unat (th_priority t) := placed pl k (qs (unat (th_priority t)))))"
proof -
  let ?p = "unat (th_priority t)"
  have r: "runq M s ts qs" and p: "?p < 32" using sched_butD(2,6) [OF inv] k by blast+
  obtain s' ts' where L: "sc_link s ts k pl = (Inr (), s', ts')" "same_rest s s'"
    "altered strip_queue (insert k (set (qs ?p))) ts ts'" "runq M s' ts' (qs(?p := placed pl k (qs ?p)))"
    by (rule link_effect [OF r k(2,3) p k(4,5)])
  have "sched_but X M s' ts' (qs(?p := placed pl k (qs ?p)))"
    by (rule sched_but_requeue [OF inv L(2,3,4)]; unfold queued_place) (use k sched_butD(5) [OF inv] in auto)
  moreover have "altered strip_queue M ts ts'"
    using altered_mono [OF L(3)] runq_members [OF r] k(2) by simp
  ultimately show thesis using that L by blast
qed

lemma sched_dequeue:
  assumes inv: "sched_but X M s ts qs" and k: "k \<in> X" "k \<in> M" "pool_map ts k = Some t"
  obtains s' ts' where "sc_dequeue s ts k = (Inr (), s', ts')" "same_rest s s'" "altered strip_queue M ts ts'"
    "sched_but X M s' ts' (qs(unat (th_priority t) := remove1 k (qs (unat (th_priority t)))))"
    "\<not> queued (qs(unat (th_priority t) := remove1 k (qs (unat (th_priority t))))) k"
    "\<not> queued qs k \<Longrightarrow> s' = s \<and> ts' = ts"
proof -
  let ?p = "unat (th_priority t)"
  let ?qs = "qs(?p := remove1 k (qs ?p))"
  have r: "runq M s ts qs" and p: "?p < 32" using sched_butD(2,6) [OF inv] k by blast+
  obtain s' ts' where L: "sc_dequeue s ts k = (Inr (), s', ts')" "same_rest s s'"
    "altered strip_queue (set (qs ?p)) ts ts'" "runq M s' ts' ?qs" "\<not> queued qs k \<Longrightarrow> s' = s \<and> ts' = ts"
    using dequeue_effect [OF r k(2,3)] by blast
  have out: "\<not> queued ?qs k" by (rule queued_removed [OF r k(3) p])
  have "sched_but X M s' ts' ?qs"
  proof (rule sched_but_requeue [OF inv L(2,3,4)])
    show "queued ?qs k' \<longleftrightarrow> queued qs k'" if "k' \<notin> X" for k' using queued_remove [of k' k] that k(1) by metis
    show "\<not> queued ?qs k'" if "sc_idle s = Some k'" for k'
      using sched_butD(5) [OF inv that] out queued_remove [of k' k] by metis
  qed
  moreover have "altered strip_queue M ts ts'"
    using altered_mono [OF L(3)] runq_members [OF r] by simp
  ultimately show thesis using that L out by blast
qed

lemma strip_sched_eqs [simp]:
  "strip_sched (t\<lparr>th_state := a\<rparr>) = strip_sched t" "strip_sched (t\<lparr>th_time_slice := b\<rparr>) = strip_sched t"
  "strip_sched (t\<lparr>th_priority := p\<rparr>) = strip_sched t" "strip_sched (strip_queue t) = strip_sched t"
  "strip_sched (strip_deadline t) = strip_sched t"
  by (simp_all add: strip_sched_def strip_queue_def strip_deadline_def)

lemma requeued_sched: "altered strip_queue K ts ts' \<Longrightarrow> altered strip_sched K ts ts'"
  by (erule altered_weaken) simp

lemma retimed_sched: "retimed K ts ts' \<Longrightarrow> altered strip_sched K ts ts'"
  by (drule retimed_altered, erule altered_weaken) simp

text \<open>The deadlines change in entries of \<open>M\<close> only, so the pool does too.\<close>

lemma retimed_live:
  assumes "retimed K ts ts'" and "\<And>k. k \<in> K \<Longrightarrow> pool_map ts k \<noteq> None \<Longrightarrow> k \<in> M"
  shows "altered strip_deadline M ts ts'"
proof -
  have alt: "altered strip_deadline K ts ts'" using retimed_altered [OF assms(1)] .
  have "pool_map ts' k = pool_map ts k" if "k \<notin> M" for k
    using that assms(2) [of k] altered_other [OF alt, of k] altered_live [OF alt, of k] by (cases "k \<in> K") auto
  then show ?thesis using alt by (simp add: altered_def)
qed

lemma strip_deadline_eqD:
  assumes "strip_deadline t' = strip_deadline t"
  shows "th_state t' = th_state t" "th_priority t' = th_priority t" "th_queue_links t' = th_queue_links t"
    "th_time_slice t' = th_time_slice t" "th_max_priority t' = th_max_priority t"
  using arg_cong [OF assms, of th_state] arg_cong [OF assms, of th_priority] arg_cong [OF assms, of th_queue_links]
    arg_cong [OF assms, of th_time_slice] arg_cong [OF assms, of th_max_priority]
  by (simp_all add: strip_deadline_def)

text \<open>A change of the deadlines: the new heap holds no thread of \<open>M\<close> that may not have a deadline.\<close>

lemma sched_but_retime:
  assumes inv: "sched_but X M s ts qs" and alt: "altered strip_deadline M ts ts'" and dl: "dl_inv M d ts'"
    and ids: "\<And>k. k \<in> dl_ids d \<Longrightarrow> pool_map ts k \<noteq> None \<and> k \<in> M"
      "\<And>k. k \<in> dl_ids d \<Longrightarrow> k \<in> M \<Longrightarrow> k \<notin> X \<Longrightarrow> k \<in> dl_ids (sc_deadlines s)"
  shows "sched_but X M (s\<lparr>sc_deadlines := d\<rparr>) ts' qs"
proof -
  let ?s = "s\<lparr>sc_deadlines := d\<rparr>"
  have r: "runq M ?s ts' qs"
  proof (rule runq_frame [OF sched_butD(2) [OF inv]])
    fix k
    have "map_option strip_deadline (pool_map ts' k) = map_option strip_deadline (pool_map ts k)"
      using alt by (simp add: altered_def)
    then show "map_option (\<lambda>t. (th_queue_links t, th_priority t)) (pool_map ts' k) =
        map_option (\<lambda>t. (th_queue_links t, th_priority t)) (pool_map ts k)"
      by (cases "pool_map ts k"; cases "pool_map ts' k") (auto dest: strip_deadline_eqD)
  qed simp_all
  show ?thesis
    unfolding sched_but_def
  proof (intro conjI allI impI ballI)
    show "pool_inv ts'" using altered_inv [OF alt sched_butD(1) [OF inv]] .
    show "pool_map ts' k \<noteq> None" "k \<in> M" if "k \<in> dl_ids (sc_deadlines ?s)" for k
      using that ids(1) [of k] unfolding altered_live [OF alt] by simp_all
    show "\<not> queued qs k" if "sc_idle ?s = Some k" for k
      using sched_butD(5) [OF inv, of k] that by simp
    show "pool_map ts' k \<noteq> None" "k \<in> M" if "sc_current ?s = Some k" "sc_idle ?s \<noteq> Some k" for k
      using that sched_butD(8) [OF inv, of k] unfolding altered_live [OF alt] by simp_all
    fix k t assume k: "k \<in> M" "pool_map ts' k = Some t"
    obtain u where u: "pool_map ts k = Some u" "strip_deadline t = strip_deadline u"
      using altered_some [OF alt k(2)] by blast
    note same = strip_deadline_eqD [OF u(2)]
    show "unat (th_priority t) < 32" using sched_butD(6) [OF inv k(1) u(1)] same(2) by simp
    assume x: "k \<notin> X"
    show "thread_ok ?s qs k t"
      using sched_butD(7) [OF inv k(1) u(1) x] ids(2) [OF _ k(1) x] same(1) by (simp add: thread_ok_def)
  qed (use r dl in simp_all)
qed

text \<open>
  A change of a thread that leaves its links and its deadline alone, and its priority too when it is in
  a queue, opens the invariant for it.
\<close>

lemma sched_but_touch:
  assumes inv: "sched_but X M s ts qs"
    and f: "\<And>t. (th_queue_links (f t), th_deadline (f t), th_deadline_index (f t)) = (th_queue_links t, th_deadline t, th_deadline_index t)"
    and prio: "\<And>t. pool_map ts k = Some t \<Longrightarrow> th_priority (f t) = th_priority t \<or> unat (th_priority (f t)) < 32 \<and> \<not> queued qs k"
  shows "sched_but (insert k X) M s (pool_modify ts k f) qs"
proof -
  let ?ts = "pool_modify ts k f"
  have live: "pool_map ?ts k' = None \<longleftrightarrow> pool_map ts k' = None" for k' by (simp add: pool_map_modify_apply)
  have links: "Option.bind (pool_map ?ts k') (\<lambda>t. g (th_queue_links t)) = Option.bind (pool_map ts k') (\<lambda>t. g (th_queue_links t))"
    for k' and g :: "links \<Rightarrow> object_id option"
    using f by (cases "pool_map ts k") (auto simp: pool_map_modify_apply)
  have thread: "\<exists>u. pool_map ts k' = Some u \<and> th_queue_links u = th_queue_links t \<and> (k' \<noteq> k \<longrightarrow> t = u) \<and>
      (th_priority t = th_priority u \<or> unat (th_priority t) < 32)" if "pool_map ?ts k' = Some t" for k' t
    using that f prio by (fastforce simp: pool_map_modify_apply split: if_splits)
  have r: "runq M s ?ts qs"
    unfolding runq_def
  proof (intro conjI allI impI)
    show "queue_links.store.queue ?ts (rq_head (sc_queues s ! p)) (rq_tail (sc_queues s ! p)) (qs p)" if "p < 32" for p
      unfolding links using runqD(2) [OF sched_butD(2) [OF inv] that] .
    fix p k' assume k': "k' \<in> set (qs p)"
    obtain t where t: "pool_map ts k' = Some t" "unat (th_priority t) = p" using runqD(4) [OF sched_butD(2) [OF inv] k'] by blast
    show "\<exists>t. pool_map ?ts k' = Some t \<and> unat (th_priority t) = p"
      using t prio [of t] k' by (cases "k' = k") (auto simp: pool_map_modify_apply)
  next
    fix k' t assume k': "k' \<in> M" "pool_map ?ts k' = Some t" "\<not> queued qs k'"
    show "th_queue_links t = links_UNLINKED"
      using thread [OF k'(2)] runqD(5) [OF sched_butD(2) [OF inv] k'(1) _ k'(3)] by metis
  qed (use runqD(1,3,4) [OF sched_butD(2) [OF inv]] in blast)+
  have dl: "dl_inv M (sc_deadlines s) ?ts"
    by (rule dl_inv_frame [OF sched_butD(3) [OF inv]]) (use f in \<open>cases "pool_map ts k"; simp add: pool_map_modify_apply\<close>)
  show ?thesis
    unfolding sched_but_def live
  proof (intro conjI allI impI ballI)
    show "pool_inv ?ts" using sched_butD(1) [OF inv] by (rule pool_inv_modify)
    show "\<not> queued qs k'" if "sc_idle s = Some k'" for k' using sched_butD(5) [OF inv that] .
    fix k' t assume k': "k' \<in> M" "pool_map ?ts k' = Some t"
    obtain u where u: "pool_map ts k' = Some u" "th_priority t = th_priority u \<or> unat (th_priority t) < 32" "k' \<noteq> k \<longrightarrow> t = u"
      using thread [OF k'(2)] by blast
    show "unat (th_priority t) < 32" using sched_butD(6) [OF inv k'(1) u(1)] u(2) by auto
    assume "k' \<notin> insert k X"
    then show "thread_ok s qs k' t" using sched_butD(7) [OF inv k'(1) u(1)] u(3) by simp
  next
    show "pool_map ts k' \<noteq> None" "k' \<in> M" if "k' \<in> dl_ids (sc_deadlines s)" for k' using sched_butD(4) [OF inv that] by blast+
    show "pool_map ts k' \<noteq> None" "k' \<in> M" if "sc_current s = Some k'" "sc_idle s \<noteq> Some k'" for k'
      using sched_butD(8) [OF inv that] by blast+
  qed (use r dl in simp_all)
qed

lemma sched_but_state:
  assumes "sched_but X M s ts qs"
  shows "sched_but (insert k X) M s (pool_modify ts k (th_state_update (\<lambda>_. st))) qs"
  by (rule sched_but_touch [OF assms]) simp_all

lemma snd_pool_get_mut: "snd (pool_get_mut ts k f) = pool_modify ts k f"
  by (simp add: pool_modify_def)

lemma apply_effect:
  assumes inv: "sched_but X M s ts qs" and k: "k \<in> M" "pool_map ts k = Some t"
    and st: "transition_next (th_state t) ev = Inr st"
  obtains s' ts' t' where "sc_apply s ts k ev = (Inr st, s', ts')" "altered strip_sched M ts ts'"
    "sched_but (insert k X) M s' ts' qs" "pool_map ts' k = Some t'" "strip_deadline t' = strip_deadline (t\<lparr>th_state := st\<rparr>)"
    "sc_current s' = sc_current s" "sc_idle s' = sc_idle s" "sc_queues s' = sc_queues s" "sc_ready s' = sc_ready s"
    "k \<in> dl_ids (sc_deadlines s') \<Longrightarrow> st = BlockedNotification \<and> k \<in> dl_ids (sc_deadlines s)"
    "st = BlockedNotification \<Longrightarrow> sc_deadlines s' = sc_deadlines s \<and> t' = t\<lparr>th_state := st\<rparr>"
    "sc_ended s' = (if st = Exited \<and> th_state t \<noteq> Exited then saturating_add (sc_ended s) 1 else sc_ended s)"
proof -
  let ?f = "th_state_update (\<lambda>_. st)"
  let ?s = "if st = Exited \<and> th_state t \<noteq> Exited then s\<lparr>sc_ended := saturating_add (sc_ended s) 1\<rparr> else s"
  let ?ts = "pool_modify ts k ?f"
  have alt: "altered strip_sched M ts ?ts" using k(1) by (intro altered_modify) auto
  have inv1: "sched_but (insert k X) M ?s ?ts qs"
    by (rule sched_but_frame [OF sched_but_state [OF inv]]) (simp_all add: pool_inv_modify sched_butD(1) [OF inv])
  have t1: "pool_map ?ts k = Some (t\<lparr>th_state := st\<rparr>)" using k by (simp add: pool_map_modify_apply)
  show thesis
  proof (cases "st = BlockedNotification")
    case True
    have "sc_apply s ts k ev = (Inr st, ?s, ?ts)"
      using True by (simp add: sc_apply_def pool_get_map k st Let_def snd_pool_get_mut)
    then show thesis
      by (rule that [OF _ alt inv1 t1]) (use True in simp_all)
  next
    case False
    obtain d ts2 where d: "dl_remove (sc_deadlines ?s) ?ts k = (d, ts2)" by (metis surj_pair)
    note R = dl_remove_effect [OF sched_butD(3) [OF inv1] d k(1)]
    have alt2: "altered strip_deadline M ?ts ts2"
      by (rule retimed_live [of "dl_ids (sc_deadlines ?s)"]) (use R sched_butD(4) [OF inv1] in blast)+
    have inv2: "sched_but (insert k X) M (?s\<lparr>sc_deadlines := d\<rparr>) ts2 qs"
      by (rule sched_but_retime [OF inv1 alt2]) (use R sched_butD(4) [OF inv1] in blast)+
    obtain t2 where t2: "pool_map ts2 k = Some t2" "strip_deadline t2 = strip_deadline (t\<lparr>th_state := st\<rparr>)"
      using altered_some_fwd [OF alt2 t1] by blast
    have "th_deadline t2 = None" using R t2(1) by simp
    then have gone: "k \<notin> dl_ids d" using dl_deadline_iff [OF conjunct1 [OF R] k(1) t2(1)] by (simp only: simp_thms)
    have run: "sc_apply s ts k ev = (Inr st, ?s\<lparr>sc_deadlines := d\<rparr>, ts2)"
      using False d by (simp add: sc_apply_def pool_get_map k st Let_def snd_pool_get_mut)
    have "altered strip_sched M ts ts2"
      by (rule altered_trans [OF alt altered_weaken [OF alt2]]) simp
    then show thesis
      by (rule that [OF run _ inv2 t2]) (use False gone in simp_all)
  qed
qed

lemma apply_refused:
  assumes "\<And>t. pool_map ts k = Some t \<Longrightarrow> \<not> is_legal (th_state t) ev"
  shows "sc_apply s ts k ev = (Inl (if pool_map ts k = None then InvalidHandle else InvalidState), s, ts)"
  using assms by (cases "pool_map ts k"; cases "transition_next (th_state (the (pool_map ts k))) ev")
    (auto simp: sc_apply_def pool_get_map is_legal_def dest: transition_next_error)

end
