(* ===== verification/Scheduling.thy ===== *)
theory Scheduling
  imports Scheduler
begin

text \<open>
  What the operations of the scheduler do, \<open>src/crates/kernel/sched/src/scheduler.rs\<close>. Each operation is
  shown to keep the invariant \<open>sched_inv\<close> and to change nothing but the scheduling fields of the threads
  \<open>M\<close> of its processor (\<open>kept\<close>). From these lemmas follow the properties: the invariant in every reachable
  state, which thread is picked, that a refused operation changes nothing, and that every ready thread
  of the highest priority gets its turn.
\<close>

section \<open>The operations\<close>

text \<open>What every operation leaves: the invariant for some queues, and no change of other threads or fields.\<close>

definition kept :: "object_id set \<Rightarrow> thread pool \<Rightarrow> scheduler \<Rightarrow> thread pool \<Rightarrow> (nat \<Rightarrow> object_id list) \<Rightarrow> bool" where
  "kept M ts s' ts' qs' \<longleftrightarrow> sched_inv M s' ts' qs' \<and> altered strip_sched M ts ts'"

lemma keptD:
  assumes "kept M ts s' ts' qs'" shows "sched_inv M s' ts' qs'" "altered strip_sched M ts ts'"
  using assms by (simp_all add: kept_def)

lemma not_queued:
  assumes inv: "sched_but X M s ts qs" and k: "k \<in> M" "pool_map ts k = Some t" "k \<notin> X" "th_state t \<noteq> Ready"
  shows "\<not> queued qs k"
  using sched_butD(5) [OF inv, of k] sched_butD(7) [OF inv k(1-3)] k(4) unfolding thread_ok_def by (cases "sc_idle s = Some k") simp_all

lemma transition_to:
  "transition_next st ev = Inr Ready \<Longrightarrow> st \<noteq> Ready"
  "transition_next st ev = Inr Running \<longleftrightarrow> st = Ready \<and> ev = EvSchedule"
  by (clarsimp simp: transition_next_iff TRANSITIONS_def, simp add: transition_next_iff TRANSITIONS_def)

text \<open>A thread that has just become ready enters its queue.\<close>

lemma link_ready:
  assumes inv: "sched_but {k} M s ts qs" and k: "k \<in> M" "pool_map ts k = Some t" "th_state t = Ready" "\<not> queued qs k"
    "k \<notin> dl_ids (sc_deadlines s)"
  obtains
    (idle) "sc_idle s = Some k" "sc_link s ts k pl = (Inl InvalidArgument, s, ts)" "sched_inv M s ts qs"
  | (link) s' ts' where "sc_idle s \<noteq> Some k" "sc_link s ts k pl = (Inr (), s', ts')" "same_rest s s'"
      "altered strip_queue M ts ts'" "sched_inv M s' ts' (qs(unat (th_priority t) := placed pl k (qs (unat (th_priority t)))))"
proof (cases "sc_idle s = Some k")
  case True
  have "sched_inv M s ts qs"
    by (rule sched_but_close [OF inv]) (use True k in \<open>simp add: thread_ok_def\<close>)
  with True show thesis by (intro idle) (simp_all add: sc_link_def)
next
  case False
  let ?qs = "qs(unat (th_priority t) := placed pl k (qs (unat (th_priority t))))"
  obtain s' ts' where L: "sc_link s ts k pl = (Inr (), s', ts')" "same_rest s s'" "altered strip_queue M ts ts'"
    "sched_but {k} M s' ts' ?qs"
    using sched_link [OF inv _ k(1,2,4) False, of pl] by blast
  have "sched_inv M s' ts' ?qs"
  proof (rule sched_but_close [OF L(4)])
    fix t' assume "pool_map ts' k = Some t'"
    then have "th_state t' = Ready" using altered_some [OF L(3)] k(2,3) strip_queue_eqD(1) by (metis option.inject)
    moreover have "queued ?qs k" unfolding queued_place by simp
    ultimately show "thread_ok s' ?qs k t'"
      using L(2) k(5) by (simp add: thread_ok_def same_rest_def del: fun_upd_apply)
  qed
  then show thesis by (rule link [OF False L(1-3)])
qed

lemma apply_ready:
  assumes inv: "sched_inv M s ts qs" and k: "k \<in> M" "pool_map ts k = Some t" and st: "transition_next (th_state t) ev = Inr Ready"
  obtains s' ts' t' where "sc_apply s ts k ev = (Inr Ready, s', ts')" "altered strip_sched M ts ts'" "sched_but {k} M s' ts' qs"
    "pool_map ts' k = Some t'" "strip_deadline t' = strip_deadline (t\<lparr>th_state := Ready\<rparr>)" "\<not> queued qs k" "k \<notin> dl_ids (sc_deadlines s')"
    "sc_current s' = sc_current s" "sc_idle s' = sc_idle s" "sc_ended s' = sc_ended s"
proof -
  have q: "\<not> queued qs k" by (rule not_queued [OF inv k]) (use transition_to(1) [OF st] in simp_all)
  show thesis
  proof (rule apply_effect [OF inv k st])
    fix s' ts' t'
    assume A: "sc_apply s ts k ev = (Inr Ready, s', ts')" "altered strip_sched M ts ts'" "sched_but {k} M s' ts' qs"
      "pool_map ts' k = Some t'" "strip_deadline t' = strip_deadline (t\<lparr>th_state := Ready\<rparr>)"
      "sc_current s' = sc_current s" "sc_idle s' = sc_idle s"
      and dl: "k \<in> dl_ids (sc_deadlines s') \<Longrightarrow> Ready = BlockedNotification \<and> k \<in> dl_ids (sc_deadlines s)"
      and e: "sc_ended s' = (if Ready = Exited \<and> th_state t \<noteq> Exited then saturating_add (sc_ended s) 1 else sc_ended s)"
    have "k \<notin> dl_ids (sc_deadlines s')" using dl by auto
    moreover have "sc_ended s' = sc_ended s" using e by simp
    ultimately show thesis using that [OF A(1-5) q _ A(6,7)] by blast
  qed
qed

abbreviation at_tail :: "object_id \<Rightarrow> thread \<Rightarrow> (nat \<Rightarrow> object_id list) \<Rightarrow> (nat \<Rightarrow> object_id list)" where
  "at_tail k t qs \<equiv> qs(unat (th_priority t) := qs (unat (th_priority t)) @ [k])"

abbreviation taken_out :: "object_id \<Rightarrow> thread \<Rightarrow> (nat \<Rightarrow> object_id list) \<Rightarrow> (nat \<Rightarrow> object_id list)" where
  "taken_out k t qs \<equiv> qs(unat (th_priority t) := remove1 k (qs (unat (th_priority t))))"

lemma placed_tail [simp]: "placed PlaceTail k xs = xs @ [k]"
  by (simp add: placed_def)

lemma placed_head [simp]: "placed PlaceHead k xs = k # xs"
  by (simp add: placed_def)

lemma ready_op:
  assumes inv: "sched_inv M s ts qs" and k: "k \<in> M" "pool_map ts k = Some t" and st: "transition_next (th_state t) ev = Inr Ready"
    and run: "and_then (sc_apply s ts k ev) (\<lambda>_ (s, threads). and_then (sc_enqueue s threads k) (\<lambda>_ (s, threads).
      (Inr (sc_preempts_current s threads k), s, threads))) = (r, s', ts')"
  shows "\<exists>qs'. kept M ts s' ts' qs' \<and> sc_idle s' = sc_idle s \<and> sc_current s' = sc_current s \<and> sc_ended s' = sc_ended s \<and>
    (case r of Inl e \<Rightarrow> sc_idle s = Some k | Inr out \<Rightarrow> sc_idle s \<noteq> Some k \<and> qs' = at_tail k t qs \<and> out = sc_preempts_current s' ts' k)"
proof -
  obtain s1 ts1 t1 where A: "sc_apply s ts k ev = (Inr Ready, s1, ts1)" "altered strip_sched M ts ts1" "sched_but {k} M s1 ts1 qs"
    "pool_map ts1 k = Some t1" "strip_deadline t1 = strip_deadline (t\<lparr>th_state := Ready\<rparr>)" "\<not> queued qs k" "k \<notin> dl_ids (sc_deadlines s1)"
    "sc_current s1 = sc_current s" "sc_idle s1 = sc_idle s" "sc_ended s1 = sc_ended s"
    by (rule apply_ready [OF inv k st])
  have t1: "th_state t1 = Ready" "th_priority t1 = th_priority t" using strip_deadline_eqD [OF A(5)] by simp_all
  from A(3) k(1) A(4) t1(1) A(6,7) show ?thesis
  proof (cases rule: link_ready [where pl = PlaceTail])
    case idle
    then show ?thesis using run A by (auto simp: sc_enqueue_def kept_def)
  next
    case (link s2 ts2)
    have "altered strip_sched M ts ts2" using altered_trans [OF A(2) requeued_sched [OF link(4)]] .
    then show ?thesis
      using run link A t1(2) by (auto simp: sc_enqueue_def kept_def same_rest_def)
  qed
qed

lemma apply_cases:
  assumes "\<And>st. transition_next (th_state t) ev = Inr st \<Longrightarrow> P st" and "pool_map ts k = Some t"
  obtains (refused) "sc_apply s ts k ev = (Inl InvalidState, s, ts)" "\<not> is_legal (th_state t) ev"
  | (legal) st where "transition_next (th_state t) ev = Inr st" "P st"
proof (cases "transition_next (th_state t) ev")
  case (Inl e)
  then have "\<not> is_legal (th_state t) ev" by (simp add: is_legal_def)
  with apply_refused [of ts k ev s] assms(2) show thesis using refused by simp
qed (use assms legal in blast)

lemma sched_but_current_None:
  assumes "sched_but {k} M s ts qs" and "sc_current s = c"
  shows "sched_but {k} M (if c = Some k then s\<lparr>sc_current := None\<rparr> else s) ts qs"
proof (cases "c = Some k")
  case True
  let ?s = "s\<lparr>sc_current := None\<rparr>"
  have "runq M ?s ts qs" by (rule runq_frame [OF sched_butD(2) [OF assms(1)]]) simp_all
  moreover have "thread_ok ?s qs k' t" if "k' \<in> M" "pool_map ts k' = Some t" "k' \<notin> {k}" for k' t
    using sched_butD(7) [OF assms(1) that] that(3) assms(2) True by (auto simp: thread_ok_def)
  ultimately show ?thesis using assms True unfolding sched_but_def by simp
qed (use assms in simp)

lemma leaves_effect:
  assumes inv: "sched_inv M s ts qs" and k: "k \<in> M" "pool_map ts k = Some t"
    and st: "transition_next (th_state t) ev = Inr st" "st \<noteq> Ready" "st \<noteq> Running"
  obtains s' ts' t' where "sc_leaves_the_processor s ts k ev =
      (Inr (if sc_current s = Some k then outcome_RESCHEDULE else outcome_NOTHING), s', ts')"
    "kept M ts s' ts' (taken_out k t qs)" "pool_map ts' k = Some t'" "th_state t' = st"
    "sc_idle s' = sc_idle s" "sc_current s' = (if sc_current s = Some k then None else sc_current s)"
    "sc_ended s' = (if st = Exited \<and> th_state t \<noteq> Exited then saturating_add (sc_ended s) 1 else sc_ended s)"
    "st = BlockedNotification \<Longrightarrow> sc_deadlines s' = sc_deadlines s \<and> th_deadline t' = th_deadline t \<and> th_deadline_index t' = th_deadline_index t"
proof (rule apply_effect [OF inv k st(1)])
  fix s1 ts1 t1
  assume A: "sc_apply s ts k ev = (Inr st, s1, ts1)" "altered strip_sched M ts ts1"
    "sched_but {k} M s1 ts1 qs" "pool_map ts1 k = Some t1" "strip_deadline t1 = strip_deadline (t\<lparr>th_state := st\<rparr>)"
    "sc_current s1 = sc_current s" "sc_idle s1 = sc_idle s"
    and dl: "k \<in> dl_ids (sc_deadlines s1) \<Longrightarrow> st = BlockedNotification \<and> k \<in> dl_ids (sc_deadlines s)"
      "st = BlockedNotification \<Longrightarrow> sc_deadlines s1 = sc_deadlines s \<and> t1 = t\<lparr>th_state := st\<rparr>"
    and ended: "sc_ended s1 = (if st = Exited \<and> th_state t \<noteq> Exited then saturating_add (sc_ended s) 1 else sc_ended s)"
  have t1: "th_state t1 = st" "th_priority t1 = th_priority t" using strip_deadline_eqD [OF A(5)] by simp_all
  obtain s2 ts2 where D: "sc_dequeue s1 ts1 k = (Inr (), s2, ts2)" "same_rest s1 s2" "altered strip_queue M ts1 ts2"
    "sched_but {k} M s2 ts2 (taken_out k t qs)" "\<not> queued (taken_out k t qs) k"
    using sched_dequeue [OF A(3) _ k(1) A(4)] t1(2) by (metis insertI1)
  obtain t2 where t2: "pool_map ts2 k = Some t2" "strip_queue t2 = strip_queue t1" using altered_some_fwd [OF D(3) A(4)] by blast
  let ?f = "th_time_slice_update (\<lambda>_. 0)"
  let ?s = "if sc_current s = Some k then s2\<lparr>sc_current := None\<rparr> else s2"
  have rest: "sc_current s2 = sc_current s" "sc_idle s2 = sc_idle s" "sc_deadlines s2 = sc_deadlines s1" "sc_ended s2 = sc_ended s1"
    using D(2) A(6,7) by (simp_all add: same_rest_def)
  have t3: "pool_map (pool_modify ts2 k ?f) k = Some (?f t2)" using t2(1) by (simp add: pool_map_modify_apply)
  have run: "sc_leaves_the_processor s ts k ev =
      (Inr (if sc_current s = Some k then outcome_RESCHEDULE else outcome_NOTHING), ?s, pool_modify ts2 k ?f)"
    using rest by (simp add: sc_leaves_the_processor_def A(1) D(1) sc_spend_slice_def snd_pool_get_mut sc_left_the_processor_def)
  have "sched_but {k} M s2 (pool_modify ts2 k ?f) (taken_out k t qs)" by (rule sched_but_modify [OF D(4)]) simp
  then have inv3: "sched_but {k} M ?s (pool_modify ts2 k ?f) (taken_out k t qs)"
    by (rule sched_but_current_None) (use rest in simp)
  have inv4: "sched_inv M ?s (pool_modify ts2 k ?f) (taken_out k t qs)"
  proof (rule sched_but_close [OF inv3])
    fix u assume "pool_map (pool_modify ts2 k ?f) k = Some u"
    then have "th_state u = st" using t3 strip_queue_eqD(1) [OF t2(2)] t1(1) by auto
    moreover have "k \<in> dl_ids (sc_deadlines s1) \<Longrightarrow> st = BlockedNotification" using dl(1) by blast
    ultimately show "thread_ok ?s (taken_out k t qs) k u"
      using D(5) st(2,3) rest(1,3) unfolding thread_ok_def by simp
  qed
  have "altered strip_sched M ts (pool_modify ts2 k ?f)"
    by (rule altered_modify_then [OF altered_trans [OF A(2) requeued_sched [OF D(3)]] k(1)]) simp
  then have "kept M ts ?s (pool_modify ts2 k ?f) (taken_out k t qs)" using inv4 by (simp add: kept_def)
  then show thesis
    by (rule that [OF run _ t3]) (use rest ended dl(2) strip_queue_eqD [OF t2(2)] t1 in auto)
qed

text \<open>Events that make a thread ready, and events that take it off the processor.\<close>

definition readies :: "event \<Rightarrow> bool" where
  "readies ev \<longleftrightarrow> ev \<in> {EvStart, EvWake, EvResume, EvYield, EvSliceExpired, EvDisplaced}"

definition stops :: "event \<Rightarrow> bool" where
  "stops ev \<longleftrightarrow> blocked_state ev \<noteq> None \<or> ev \<in> {EvSuspend, EvFault, EvExit}"

lemma readies_to: "readies ev \<Longrightarrow> transition_next st ev = Inr st' \<Longrightarrow> st' = Ready"
  by (auto simp: readies_def transition_next_iff TRANSITIONS_def)

lemma stops_to: "stops ev \<Longrightarrow> transition_next st ev = Inr st' \<Longrightarrow> st' \<noteq> Ready \<and> st' \<noteq> Running"
  by (cases ev) (auto simp: stops_def transition_next_iff TRANSITIONS_def)

lemma is_legal_iff: "is_legal st ev \<longleftrightarrow> (\<exists>st'. transition_next st ev = Inr st')"
  by (cases "transition_next st ev") (simp_all add: is_legal_def)

lemma kept_refl: "sched_inv M s ts qs \<Longrightarrow> kept M ts s ts qs"
  by (simp add: kept_def)

lemma readies_kept:
  assumes inv: "sched_inv M s ts qs" and k: "k \<in> M" and ev: "readies ev"
    and run: "and_then (sc_apply s ts k ev) (\<lambda>_ (s, threads). and_then (sc_enqueue s threads k) (\<lambda>_ (s, threads).
      (Inr (sc_preempts_current s threads k), s, threads))) = (r, s', ts')"
  shows "\<exists>qs'. kept M ts s' ts' qs' \<and> sc_idle s' = sc_idle s"
proof (cases "\<exists>t. pool_map ts k = Some t \<and> is_legal (th_state t) ev")
  case False
  then have "s' = s" "ts' = ts" using run apply_refused [of ts k ev s] by auto
  then show ?thesis using kept_refl [OF inv] by blast
next
  case True
  then obtain t where t: "pool_map ts k = Some t" "transition_next (th_state t) ev = Inr Ready"
    using readies_to [OF ev] unfolding is_legal_iff by metis
  show ?thesis using ready_op [OF inv k t run] by blast
qed

text \<open>An operation that stops a thread: refused by the table, and then nothing changes, or done.\<close>

lemma stops_effect:
  assumes inv: "sched_inv M s ts qs" and k: "k \<in> M" and ev: "stops ev"
    and run: "sc_leaves_the_processor s ts k ev = (r, s', ts')"
  shows "case r of
      Inl e \<Rightarrow> s' = s \<and> ts' = ts \<and> e = (if pool_map ts k = None then InvalidHandle else InvalidState) \<and>
        (\<forall>t. pool_map ts k = Some t \<longrightarrow> \<not> is_legal (th_state t) ev)
    | Inr out \<Rightarrow> \<exists>t t'. pool_map ts k = Some t \<and> kept M ts s' ts' (taken_out k t qs) \<and> pool_map ts' k = Some t' \<and>
        transition_next (th_state t) ev = Inr (th_state t') \<and> sc_idle s' = sc_idle s \<and>
        (oc_reschedule out \<longleftrightarrow> sc_current s = Some k) \<and> sc_current s' \<noteq> Some k"
proof (cases "\<exists>t. pool_map ts k = Some t \<and> is_legal (th_state t) ev")
  case False
  then have "sc_apply s ts k ev = (Inl (if pool_map ts k = None then InvalidHandle else InvalidState), s, ts)"
    using apply_refused [of ts k ev s] by blast
  then have "(r, s', ts') = (Inl (if pool_map ts k = None then InvalidHandle else InvalidState), s, ts)"
    using run by (simp only: sc_leaves_the_processor_def and_then_simps)
  then show ?thesis using False by auto
next
  case True
  then obtain t st where t: "pool_map ts k = Some t" "transition_next (th_state t) ev = Inr st"
    unfolding is_legal_iff by blast
  have st: "st \<noteq> Ready" "st \<noteq> Running" using stops_to [OF ev t(2)] by simp_all
  show ?thesis
  proof (rule leaves_effect [OF inv k t st])
    fix s2 ts2 t2
    assume L: "sc_leaves_the_processor s ts k ev = (Inr (if sc_current s = Some k then outcome_RESCHEDULE else outcome_NOTHING), s2, ts2)"
      "kept M ts s2 ts2 (taken_out k t qs)" "pool_map ts2 k = Some t2" "th_state t2 = st"
      "sc_idle s2 = sc_idle s" "sc_current s2 = (if sc_current s = Some k then None else sc_current s)"
    then have r: "r = Inr (if sc_current s = Some k then outcome_RESCHEDULE else outcome_NOTHING)" "s' = s2" "ts' = ts2"
      using run by simp_all
    show ?thesis
      unfolding r using L t by (auto simp: outcome_RESCHEDULE_def outcome_NOTHING_def)
  qed
qed

lemma yield_kept:
  assumes inv: "sched_inv M s ts qs" and k: "k \<in> M" and run: "sc_yield_now s ts k = (r, s', ts')"
  shows "\<exists>qs'. kept M ts s' ts' qs' \<and> sc_idle s' = sc_idle s"
proof (cases "\<exists>t. pool_map ts k = Some t \<and> is_legal (th_state t) EvYield")
  case False
  then have "s' = s" "ts' = ts" using run apply_refused [of ts k EvYield s] by (auto simp: sc_yield_now_def)
  then show ?thesis using kept_refl [OF inv] by blast
next
  case True
  then obtain t where t: "pool_map ts k = Some t" "transition_next (th_state t) EvYield = Inr Ready"
    using readies_to [of EvYield] unfolding is_legal_iff by (metis readies_def insertCI)
  obtain s1 ts1 t1 where A: "sc_apply s ts k EvYield = (Inr Ready, s1, ts1)" "altered strip_sched M ts ts1" "sched_but {k} M s1 ts1 qs"
    "pool_map ts1 k = Some t1" "strip_deadline t1 = strip_deadline (t\<lparr>th_state := Ready\<rparr>)" "\<not> queued qs k" "k \<notin> dl_ids (sc_deadlines s1)"
    "sc_current s1 = sc_current s" "sc_idle s1 = sc_idle s" "sc_ended s1 = sc_ended s"
    by (rule apply_ready [OF inv k t])
  let ?ts = "pool_modify ts1 k (th_time_slice_update (\<lambda>_. 0))"
  have B: "sched_but {k} M s1 ?ts qs" by (rule sched_but_modify [OF A(3)]) simp
  have alt: "altered strip_sched M ts ?ts" by (rule altered_modify_then [OF A(2) k]) simp
  have t2: "pool_map ?ts k = Some (t1\<lparr>th_time_slice := 0\<rparr>)" "th_state (t1\<lparr>th_time_slice := 0\<rparr>) = Ready"
    using A(4) strip_deadline_eqD(1) [OF A(5)] by (simp_all add: pool_map_modify_apply)
  from B k t2 A(6,7) show ?thesis
  proof (cases rule: link_ready [where pl = PlaceTail])
    case idle
    then show ?thesis using run A alt by (auto simp: sc_yield_now_def sc_enqueue_def kept_def pool_get_mut_eq)
  next
    case (link s2 ts2)
    have "altered strip_sched M ts ts2" using altered_trans [OF alt requeued_sched [OF link(4)]] .
    then show ?thesis
      using run link A by (auto simp: sc_yield_now_def sc_enqueue_def kept_def same_rest_def pool_get_mut_eq)
  qed
qed

lemma tick_kept:
  assumes inv: "sched_inv M s ts qs" and run: "sc_tick s ts = (out, ts')"
  shows "kept M ts s ts' qs"
proof (cases "\<exists>k. sc_current s = Some k \<and> sc_idle s \<noteq> Some k \<and> pool_map ts k \<noteq> None")
  case False
  then have "ts' = ts" using run by (auto simp: sc_tick_def pool_get_mut_eq split: option.splits if_splits)
  then show ?thesis using kept_refl [OF inv] by simp
next
  case True
  then obtain k where k: "sc_current s = Some k" "sc_idle s \<noteq> Some k" "pool_map ts k \<noteq> None" by blast
  let ?f = "\<lambda>t. t\<lparr>th_time_slice := saturating_sub (th_time_slice t) 1\<rparr>"
  have "ts' = pool_modify ts k ?f"
    using k run by (auto simp: sc_tick_def pool_get_mut_eq pool_get_map pool_map_modify_apply split: option.splits if_splits)
  moreover have "k \<in> M" using sched_butD(8) [OF inv k(1,2)] by simp
  ultimately show ?thesis
    using sched_but_modify [OF inv, of ?f k] altered_modify [of k M strip_sched ?f ts] by (simp add: kept_def)
qed

lemma expired_kept:
  assumes inv: "sched_inv M s ts qs" and run: "sc_expired s ts now = (r, s', ts')"
  shows "kept M ts s' ts' qs \<and> sc_idle s' = sc_idle s"
proof -
  obtain d where d: "dl_expired (sc_deadlines s) ts now = (r, d, ts')" "s' = s\<lparr>sc_deadlines := d\<rparr>"
    using run by (auto simp: sc_expired_def split: prod.splits)
  note E = dl_expired_effect [OF sched_butD(3) [OF inv] d(1)]
  have alt: "altered strip_deadline M ts ts'"
    by (rule retimed_live [of "dl_ids (sc_deadlines s)"]) (use E sched_butD(4) [OF inv] in blast)+
  have "sched_inv M s' ts' qs"
    unfolding d(2) by (rule sched_but_retime [OF inv alt]) (use E sched_butD(4) [OF inv] in blast)+
  moreover have "altered strip_sched M ts ts'" by (rule altered_weaken [OF alt]) simp
  ultimately show ?thesis by (simp add: kept_def d(2))
qed

lemma dl_can_insert_same:
  assumes "sc_deadlines s' = sc_deadlines s" "pool_map ts k = Some t" "pool_map ts' k = Some t'"
    "th_deadline t' = th_deadline t" "th_deadline_index t' = th_deadline_index t"
  shows "dl_can_insert (sc_deadlines s') ts' k = dl_can_insert (sc_deadlines s) ts k"
  using assms by (simp add: dl_can_insert_def pool_get_map)

lemma insert_wait:
  assumes inv: "sched_inv M s ts qs" and k: "k \<in> M" "pool_map ts k = Some t" "th_state t = BlockedNotification"
    and can: "dl_can_insert (sc_deadlines s) ts k = Inr u" and ins: "dl_insert (sc_deadlines s) ts k deadline = (x, d, ts')"
  shows "x = Inr ()" "kept M ts (s\<lparr>sc_deadlines := d\<rparr>) ts' qs" "k \<in> dl_ids d"
proof -
  note I = dl_insert_effect [OF sched_butD(3) [OF inv] can ins]
  have ids: "dl_ids d = insert k (dl_ids (sc_deadlines s))" using arg_cong [OF I(5), of set_mset] by auto
  have alt: "altered strip_deadline M ts ts'"
    by (rule retimed_live [OF I(3)]) (use k sched_butD(4) [OF inv] in blast)
  have "sched_but {k} M (s\<lparr>sc_deadlines := d\<rparr>) ts' qs"
    by (rule sched_but_retime [OF sched_but_mono [OF inv] alt I(2)]) (use ids k sched_butD(4) [OF inv] in auto)
  then have "sched_inv M (s\<lparr>sc_deadlines := d\<rparr>) ts' qs"
  proof (rule sched_but_close)
    fix u assume u: "pool_map ts' k = Some u"
    have "strip_deadline u = strip_deadline t" using altered_some [OF alt u] k(2) by auto
    then have "th_state u = th_state t" by (rule strip_deadline_eqD)
    then show "thread_ok (s\<lparr>sc_deadlines := d\<rparr>) qs k u"
      using sched_butD(7) [OF inv k(1,2)] k(3) by (simp add: thread_ok_def)
  qed
  moreover have "altered strip_sched M ts ts'" by (rule altered_weaken [OF alt]) simp
  ultimately show "kept M ts (s\<lparr>sc_deadlines := d\<rparr>) ts' qs" by (simp add: kept_def)
  show "x = Inr ()" by (rule I(1))
  show "k \<in> dl_ids d" by (simp only: ids insertI1)
qed

text \<open>A thread that waits with a deadline: refused and nothing changed, or blocked with its entry in the heap.\<close>

lemma block_until_effect:
  assumes inv: "sched_inv M s ts qs" and k: "k \<in> M" and run: "sc_on_block_until s ts k ev deadline = (r, s', ts')"
  shows "case r of
      Inl e \<Rightarrow> s' = s \<and> ts' = ts
    | Inr out \<Rightarrow> \<exists>t. pool_map ts k = Some t \<and> kept M ts s' ts' (taken_out k t qs) \<and> k \<in> dl_ids (sc_deadlines s') \<and> sc_idle s' = sc_idle s \<and>
        sc_current s' \<noteq> Some k"
proof (cases "ev = EvBlockNotification \<and> is_ok (dl_can_insert (sc_deadlines s) ts k)")
  case False
  then show ?thesis using run by (cases "dl_can_insert (sc_deadlines s) ts k") (auto simp: sc_on_block_until_def split: if_splits)
next
  case True
  then obtain u where ev: "ev = EvBlockNotification" and can: "dl_can_insert (sc_deadlines s) ts k = Inr u"
    by (cases "dl_can_insert (sc_deadlines s) ts k") auto
  obtain t where t: "pool_map ts k = Some t" using can by (auto simp: dl_can_insert_iff)
  have block: "sc_on_block s ts k ev = sc_leaves_the_processor s ts k ev" using ev by (simp add: sc_on_block_def)
  show ?thesis
  proof (cases "transition_next (th_state t) ev")
    case (Inl e)
    then have "sc_leaves_the_processor s ts k ev = (Inl InvalidState, s, ts)"
      using apply_refused [of ts k ev s] t by (simp add: is_legal_def sc_leaves_the_processor_def)
    then show ?thesis using run ev can block by (auto simp: sc_on_block_until_def)
  next
    case (Inr st)
    then have st: "st = BlockedNotification" using ev by (auto simp: transition_next_iff TRANSITIONS_def)
    show ?thesis
    proof (rule leaves_effect [OF inv k t Inr])
      fix s1 ts1 t1
      assume L: "sc_leaves_the_processor s ts k ev = (Inr (if sc_current s = Some k then outcome_RESCHEDULE else outcome_NOTHING), s1, ts1)"
        "kept M ts s1 ts1 (taken_out k t qs)" "pool_map ts1 k = Some t1" "th_state t1 = st" "sc_idle s1 = sc_idle s"
          "sc_current s1 = (if sc_current s = Some k then None else sc_current s)"
        and same: "st = BlockedNotification \<Longrightarrow> sc_deadlines s1 = sc_deadlines s \<and> th_deadline t1 = th_deadline t \<and> th_deadline_index t1 = th_deadline_index t"
      let ?out = "if sc_current s = Some k then outcome_RESCHEDULE else outcome_NOTHING"
      have can1: "dl_can_insert (sc_deadlines s1) ts1 k = Inr u"
        using dl_can_insert_same [of s1 s, OF _ t L(3)] same [OF st] can by simp
      obtain x d ts2 where ins: "dl_insert (sc_deadlines s1) ts1 k deadline = (x, d, ts2)" by (metis surj_pair)
      note W = insert_wait [OF keptD(1) [OF L(2)] k L(3) _ can1 ins]
      have "kept M ts (s1\<lparr>sc_deadlines := d\<rparr>) ts2 (taken_out k t qs)"
        using W(2) altered_trans [OF keptD(2) [OF L(2)]] L(4) st by (simp add: kept_def)
      moreover have "(r, s', ts') = (Inr ?out, s1\<lparr>sc_deadlines := d\<rparr>, ts2)"
        using run ev can block L(1,4) st ins W(1) by (simp add: sc_on_block_until_def)
      ultimately show ?thesis using t W(3) L(4-6) st by auto
    qed (use st in simp_all)
  qed
qed


text \<open>A change of priority: a ready thread moves to the end of the queue of its new priority.\<close>

lemma priority_touch:
  fixes moves :: bool
  assumes inv: "sched_but {k} M s ts qs" and k: "k \<in> M" "pool_map ts k = Some t" "\<not> queued qs k" and p: "unat p < 32"
  defines "ts' \<equiv> (if moves then sc_spend_slice (pool_modify ts k (th_priority_update (\<lambda>_. p))) k
    else pool_modify ts k (th_priority_update (\<lambda>_. p)))"
  obtains t' where "sched_but {k} M s ts' qs" "altered strip_sched M ts ts'" "pool_map ts' k = Some t'"
    "th_state t' = th_state t" "th_priority t' = p"
proof -
  let ?ts = "pool_modify ts k (th_priority_update (\<lambda>_. p))"
  have a: "sched_but {k} M s ?ts qs"
    using sched_but_touch [OF inv, of "th_priority_update (\<lambda>_. p)" k] k p by simp
  have alt: "altered strip_sched M ts ?ts" by (rule altered_modify [OF k(1)]) simp
  have m: "pool_map ?ts k = Some (t\<lparr>th_priority := p\<rparr>)" using k(2) by (simp add: pool_map_modify_apply)
  show thesis
  proof (cases moves)
    case True
    let ?f = "th_time_slice_update (\<lambda>_. 0)"
    have ts': "ts' = pool_modify ?ts k ?f" using True by (simp add: ts'_def sc_spend_slice_def snd_pool_get_mut)
    show thesis
    proof (rule that)
      show "sched_but {k} M s ts' qs" unfolding ts' by (rule sched_but_modify [OF a]) simp
      show "altered strip_sched M ts ts'" unfolding ts' by (rule altered_modify_then [OF alt k(1)]) simp
      show "pool_map ts' k = Some (t\<lparr>th_priority := p, th_time_slice := 0\<rparr>)" using m by (simp add: ts' pool_map_modify_apply)
    qed simp_all
  next
    case False
    show thesis by (rule that [of "t\<lparr>th_priority := p\<rparr>"]) (use False a alt m in \<open>simp_all add: ts'_def\<close>)
  qed
qed

lemma set_priority_kept:
  assumes inv: "sched_inv M s ts qs" and k: "k \<in> M" and run: "sc_set_priority s ts k p = (r, s', ts')"
  shows "\<exists>qs'. kept M ts s' ts' qs' \<and> sc_idle s' = sc_idle s"
proof (cases "\<exists>t. pool_map ts k = Some t \<and> unat p < 32 \<and> \<not> th_max_priority t < p")
  case False
  then have "s' = s" "ts' = ts" using run by (auto simp: sc_set_priority_def pool_get_map PRIORITIES_32 split: option.splits if_splits)
  then show ?thesis using kept_refl [OF inv] by blast
next
  case True
  then obtain t where t: "pool_map ts k = Some t" "unat p < 32" "\<not> th_max_priority t < p" by blast
  let ?moves = "th_priority t \<noteq> p"
  let ?set = "\<lambda>ts. if ?moves then sc_spend_slice (pool_modify ts k (th_priority_update (\<lambda>_. p))) k
    else pool_modify ts k (th_priority_update (\<lambda>_. p))"
  have np: "\<not> 32 \<le> unat p" using t(2) by simp
  have any: "sched_but {k} M s ts qs" by (rule sched_but_mono [OF inv]) simp
  show ?thesis
  proof (cases "th_state t = Ready")
    case True
    obtain s1 ts1 where D: "sc_dequeue s ts k = (Inr (), s1, ts1)" "same_rest s s1" "altered strip_queue M ts ts1"
      "sched_but {k} M s1 ts1 (taken_out k t qs)" "\<not> queued (taken_out k t qs) k"
      using sched_dequeue [OF any _ k t(1)] by blast
    obtain t1 where t1: "pool_map ts1 k = Some t1" "strip_queue t1 = strip_queue t" using altered_some_fwd [OF D(3) t(1)] by blast
    obtain t2 where P: "sched_but {k} M s1 (?set ts1) (taken_out k t qs)" "altered strip_sched M ts1 (?set ts1)"
      "pool_map (?set ts1) k = Some t2" "th_state t2 = th_state t1" "th_priority t2 = p"
      by (rule priority_touch [OF D(4) k t1(1) D(5) t(2)])
    have st: "th_state t2 = Ready" using P(4) strip_queue_eqD(1) [OF t1(2)] True by simp
    have dl: "k \<notin> dl_ids (sc_deadlines s1)"
      using sched_butD(7) [OF inv k t(1)] True D(2) by (auto simp: thread_ok_def same_rest_def)
    have alt: "altered strip_sched M ts (?set ts1)" using altered_trans [OF requeued_sched [OF D(3)] P(2)] .
    have run1: "sc_set_priority s ts k p = and_then (sc_enqueue s1 (?set ts1) k) (\<lambda>_ (s, threads).
        (Inr (sc_preempts_current s threads k), s, threads))"
      using t np True D(1) t1(1) by (simp add: sc_set_priority_def pool_get_map PRIORITIES_32 Let_def pool_get_mut_eq)
    from P(1) k P(3) st D(5) dl show ?thesis
    proof (cases rule: link_ready [where pl = PlaceTail])
      case idle
      then show ?thesis using run run1 alt D(2) by (auto simp: sc_enqueue_def kept_def same_rest_def)
    next
      case (link s2 ts2)
      have "altered strip_sched M ts ts2" using altered_trans [OF alt requeued_sched [OF link(4)]] .
      then show ?thesis using run run1 link D(2) by (auto simp: sc_enqueue_def kept_def same_rest_def)
    qed
  next
    case False
    have q: "\<not> queued qs k" by (rule not_queued [OF inv k t(1) _ False]) simp
    obtain t2 where P: "sched_but {k} M s (?set ts) qs" "altered strip_sched M ts (?set ts)"
      "pool_map (?set ts) k = Some t2" "th_state t2 = th_state t" "th_priority t2 = p"
      by (rule priority_touch [OF any k t(1) q t(2)])
    have "sched_inv M s (?set ts) qs"
      by (rule sched_but_close [OF P(1)]) (use sched_butD(7) [OF inv k t(1)] P(3,4) in \<open>simp add: thread_ok_def\<close>)
    moreover have "s' = s" "ts' = ?set ts"
      using run t np False by (auto simp: sc_set_priority_def pool_get_map PRIORITIES_32 Let_def pool_get_mut_eq split: if_splits)
    ultimately show ?thesis using P(2) by (auto simp: kept_def)
  qed
qed

section \<open>Picking a thread\<close>

definition higher_ready :: "(nat \<Rightarrow> object_id list) \<Rightarrow> nat \<Rightarrow> bool" where
  "higher_ready qs p \<longleftrightarrow> (\<exists>q > p. qs q \<noteq> [])"

text \<open>The queues once the running thread is back: at the head if it was displaced, else at the tail.\<close>

definition put_back_queues :: "scheduler \<Rightarrow> thread pool \<Rightarrow> (nat \<Rightarrow> object_id list) \<Rightarrow> nat \<Rightarrow> object_id list" where
  "put_back_queues s ts qs =
     (case sc_current s of
        None \<Rightarrow> qs
      | Some k \<Rightarrow>
          (case pool_map ts k of
             None \<Rightarrow> qs
           | Some t \<Rightarrow>
               let p = unat (th_priority t)
               in if th_state t = Running \<and> sc_idle s \<noteq> Some k
                  then qs(p := (if 0 < th_time_slice t \<and> higher_ready qs p then k # qs p else qs p @ [k]))
                  else qs))"

lemma highest_ready_queues:
  assumes r: "runq M s ts qs"
  shows "sc_highest_ready s = None \<longleftrightarrow> (\<forall>p. qs p = [])"
    "sc_highest_ready s = Some p \<Longrightarrow> qs (unat p) \<noteq> [] \<and> \<not> higher_ready qs (unat p) \<and> unat p < 32"
  using runqD(3) [OF r] highest_ready_bit [of s p] by (auto simp: highest_ready_None higher_ready_def)

lemma displaced_iff:
  assumes r: "runq M s ts qs"
  shows "(case sc_highest_ready s of Some highest \<Rightarrow> p < highest | None \<Rightarrow> False) \<longleftrightarrow> higher_ready qs (unat p)"
proof (cases "sc_highest_ready s")
  case None
  then show ?thesis using highest_ready_queues(1) [OF r] by (simp add: higher_ready_def)
next
  case (Some h)
  note H = highest_ready_queues(2) [OF r Some]
  show ?thesis
  proof
    assume "case sc_highest_ready s of Some highest \<Rightarrow> p < highest | None \<Rightarrow> False"
    then show "higher_ready qs (unat p)" using H Some by (auto simp: higher_ready_def word_less_nat_alt)
  next
    assume "higher_ready qs (unat p)"
    then obtain q where q: "unat p < q" "qs q \<noteq> []" by (auto simp: higher_ready_def)
    then have "q \<le> unat h" using H by (auto simp: higher_ready_def not_less)
    then show "case sc_highest_ready s of Some highest \<Rightarrow> p < highest | None \<Rightarrow> False"
      using q(1) Some by (simp add: word_less_nat_alt)
  qed
qed

lemma running_is_current:
  assumes "sched_inv M s ts qs" "k \<in> M" "pool_map ts k = Some t" "th_state t = Running" "sc_idle s \<noteq> Some k"
  shows "sc_current s = Some k"
  using sched_butD(7) [OF assms(1-3)] assms(4,5) unfolding thread_ok_def by simp

definition nobody_runs :: "object_id set \<Rightarrow> scheduler \<Rightarrow> thread pool \<Rightarrow> bool" where
  "nobody_runs M s ts \<longleftrightarrow> (\<forall>k t. k \<in> M \<longrightarrow> pool_map ts k = Some t \<longrightarrow> th_state t = Running \<longrightarrow> sc_idle s = Some k)"

lemma put_back_effect:
  assumes inv: "sched_inv M s ts qs"
  obtains s1 ts1 where "sc_put_back s ts = (Inr (), s1, ts1)" "kept M ts s1 ts1 (put_back_queues s ts qs)"
    "sc_idle s1 = sc_idle s" "sc_current s1 = sc_current s"
    "nobody_runs M s ts1"
proof (cases "\<exists>k t. sc_current s = Some k \<and> pool_map ts k = Some t \<and> th_state t = Running \<and> sc_idle s \<noteq> Some k")
  case False
  have "sc_put_back s ts = (Inr (), s, ts)"
    using False by (auto simp: sc_put_back_def pool_get_map split: option.splits)
  moreover have "put_back_queues s ts qs = qs"
    using False by (auto simp: put_back_queues_def Let_def split: option.splits)
  moreover have "sc_idle s = Some k" if "k \<in> M" "pool_map ts k = Some t" "th_state t = Running" for k t
    using running_is_current [OF inv that] that False by blast
  ultimately show thesis by (intro that [of s ts]) (simp_all add: kept_refl inv nobody_runs_def)
next
  case True
  then obtain k t where k: "sc_current s = Some k" "pool_map ts k = Some t" "th_state t = Running" "sc_idle s \<noteq> Some k" by blast
  have M: "k \<in> M" using sched_butD(8) [OF inv k(1,4)] by simp
  let ?d = "0 < th_time_slice t \<and> higher_ready qs (unat (th_priority t))"
  let ?ev = "if ?d then EvDisplaced else EvSliceExpired" and ?pl = "if ?d then PlaceHead else PlaceTail"
  have st: "transition_next (th_state t) ?ev = Inr Ready" by (simp add: k(3) transition_next_iff TRANSITIONS_def)
  obtain s1 ts1 t1 where A: "sc_apply s ts k ?ev = (Inr Ready, s1, ts1)" "altered strip_sched M ts ts1" "sched_but {k} M s1 ts1 qs"
    "pool_map ts1 k = Some t1" "strip_deadline t1 = strip_deadline (t\<lparr>th_state := Ready\<rparr>)" "\<not> queued qs k" "k \<notin> dl_ids (sc_deadlines s1)"
    "sc_current s1 = sc_current s" "sc_idle s1 = sc_idle s" "sc_ended s1 = sc_ended s"
    by (rule apply_ready [OF inv M k(2) st])
  note t1 = strip_deadline_eqD [OF A(5)]
  let ?f = "th_time_slice_update (\<lambda>_. 0)"
  let ?ts = "if ?d then ts1 else pool_modify ts1 k ?f" and ?t = "if ?d then t1 else ?f t1"
  have run: "sc_put_back s ts = sc_link s1 ?ts k ?pl"
  proof -
    note d = displaced_iff [OF sched_butD(2) [OF inv], of "th_priority t"]
    show ?thesis
    proof (cases ?d)
      case True
      then show ?thesis using k A(1) by (simp add: sc_put_back_def pool_get_map Let_def d)
    next
      case False
      then show ?thesis using k A(1) by (auto simp: sc_put_back_def pool_get_map Let_def d sc_spend_slice_def snd_pool_get_mut)
    qed
  qed
  have B: "sched_but {k} M s1 ?ts qs" using A(3) sched_but_modify [OF A(3), of ?f k] by simp
  have alt: "altered strip_sched M ts ?ts" using A(2) altered_modify_then [OF A(2) M, of ?f] by simp
  have t2: "pool_map ?ts k = Some ?t" "th_state ?t = Ready" "th_priority ?t = th_priority t"
    using A(4) t1 by (simp_all add: pool_map_modify_apply)
  have qs: "put_back_queues s ts qs = qs(unat (th_priority t) := placed ?pl k (qs (unat (th_priority t))))"
    using k by (simp add: put_back_queues_def Let_def)
  from B M t2(1,2) A(6,7) show thesis
  proof (cases rule: link_ready [where pl = ?pl])
    case idle
    then show thesis using A(9) k(4) by simp
  next
    case (link s2 ts2)
    have inv2: "sched_inv M s2 ts2 (put_back_queues s ts qs)" using link(5) unfolding t2(3) qs .
    have same: "sc_current s2 = sc_current s" "sc_idle s2 = sc_idle s" using link(3) A(8,9) by (simp_all add: same_rest_def)
    have "kept M ts s2 ts2 (put_back_queues s ts qs)"
      using inv2 altered_trans [OF alt requeued_sched [OF link(4)]] by (simp add: kept_def)
    moreover have "sc_idle s = Some k'" if r: "k' \<in> M" "pool_map ts2 k' = Some t'" "th_state t' = Running" for k' t'
    proof -
      obtain u where u: "pool_map ?ts k' = Some u" "strip_queue t' = strip_queue u" using altered_some [OF link(4) r(2)] .
      have "k' \<noteq> k" using u t2(1,2) r(3) strip_queue_eqD(1) [OF u(2)] by auto
      then show ?thesis using running_is_current [OF inv2 r] same k(1) by auto
    qed
    moreover have "sc_put_back s ts = (Inr (), s2, ts2)" unfolding run by (rule link(2))
    ultimately show thesis by (intro that [of s2 ts2] same) (simp_all add: nobody_runs_def)
  qed
qed

text \<open>Putting another thread on the processor when no thread of it runs.\<close>

lemma sched_but_current:
  assumes inv: "sched_but X M s ts qs" and X: "k \<in> X \<or> sc_idle s = Some k"
    and k: "sc_idle s \<noteq> Some k \<Longrightarrow> pool_map ts k \<noteq> None \<and> k \<in> M"
    and none: "\<And>k' t. k' \<in> M \<Longrightarrow> k' \<notin> X \<Longrightarrow> pool_map ts k' = Some t \<Longrightarrow> th_state t = Running \<Longrightarrow> sc_idle s = Some k'"
  shows "sched_but X M (s\<lparr>sc_current := Some k\<rparr>) ts qs"
proof -
  let ?s = "s\<lparr>sc_current := Some k\<rparr>"
  have "runq M ?s ts qs" by (rule runq_frame [OF sched_butD(2) [OF inv]]) simp_all
  moreover have "thread_ok ?s qs k' t" if "k' \<in> M" "pool_map ts k' = Some t" "k' \<notin> X" for k' t
    using sched_butD(7) [OF inv that] none [OF that(1,3,2)] X that(3) unfolding thread_ok_def by auto
  ultimately show ?thesis using inv k unfolding sched_but_def by simp
qed

lemma pick_idle_effect:
  assumes inv: "sched_inv M s ts qs" and empty: "\<And>p. put_back_queues s ts qs p = []"
    and run: "sc_pick_next s ts = (r, s', ts')"
  shows "r = (case sc_idle s of None \<Rightarrow> Inl NotRunnable | Some i \<Rightarrow> Inr i)" "kept M ts s' ts' (put_back_queues s ts qs)"
    "sc_idle s' = sc_idle s" "\<And>i. sc_idle s = Some i \<Longrightarrow> sc_current s' = Some i"
proof -
  let ?qs = "put_back_queues s ts qs"
  obtain s1 ts1 where P: "sc_put_back s ts = (Inr (), s1, ts1)" "kept M ts s1 ts1 ?qs"
    "sc_idle s1 = sc_idle s" "sc_current s1 = sc_current s" "nobody_runs M s ts1"
    by (rule put_back_effect [OF inv])
  have none: "\<And>k t. k \<in> M \<Longrightarrow> pool_map ts1 k = Some t \<Longrightarrow> th_state t = Running \<Longrightarrow> sc_idle s = Some k"
    using P(5) by (simp add: nobody_runs_def)
  note inv1 = keptD(1) [OF P(2)]
  have h: "sc_highest_ready s1 = None" using highest_ready_queues(1) [OF sched_butD(2) [OF inv1]] empty by simp
  have "r = (case sc_idle s of None \<Rightarrow> Inl NotRunnable | Some i \<Rightarrow> Inr i) \<and> kept M ts s' ts' ?qs \<and> sc_idle s' = sc_idle s \<and>
      (\<forall>i. sc_idle s = Some i \<longrightarrow> sc_current s' = Some i)"
  proof (cases "sc_idle s")
    case None
    then show ?thesis using run P h by (auto simp: sc_pick_next_def)
  next
    case (Some i)
    have "sched_inv M (s1\<lparr>sc_current := Some i\<rparr>) ts1 ?qs"
      by (rule sched_but_current [OF inv1]) (use Some P(3) none in auto)
    then have "kept M ts (s1\<lparr>sc_current := Some i\<rparr>) ts1 ?qs" using keptD(2) [OF P(2)] by (simp add: kept_def)
    then show ?thesis using run P h Some by (auto simp: sc_pick_next_def)
  qed
  then show "r = (case sc_idle s of None \<Rightarrow> Inl NotRunnable | Some i \<Rightarrow> Inr i)" "kept M ts s' ts' ?qs"
    "sc_idle s' = sc_idle s" "\<And>i. sc_idle s = Some i \<Longrightarrow> sc_current s' = Some i" by blast+
qed

lemma top_unique: "qs p \<noteq> [] \<Longrightarrow> \<not> higher_ready qs p \<Longrightarrow> qs q \<noteq> [] \<Longrightarrow> \<not> higher_ready qs q \<Longrightarrow> p = q"
  unfolding higher_ready_def by (metis linorder_neqE_nat)

text \<open>The first thread of a queue goes on the processor: the end of \<open>pick_next\<close>.\<close>

definition put_on :: "scheduler \<Rightarrow> thread pool \<Rightarrow> object_id \<Rightarrow> (error + object_id) \<times> scheduler \<times> thread pool" where
  "put_on s ts k = and_then (sc_dequeue s ts k) (\<lambda>_ (s, threads).
     case pool_get threads k of
       Inl _ \<Rightarrow> (Inl InvalidHandle, s, threads)
     | Inr thread \<Rightarrow>
         (case transition_next (th_state thread) EvSchedule of
            Inl e \<Rightarrow> (Inl e, s, threads)
          | Inr state \<Rightarrow>
              (Inr k, s\<lparr>sc_current := Some k\<rparr>,
               snd (pool_get_mut threads k (\<lambda>thread. thread\<lparr>th_state := state,
                 th_time_slice := (if th_time_slice thread = 0 then DEFAULT_TIME_SLICE_TICKS
                                   else th_time_slice thread)\<rparr>)))))"

lemma put_on_effect:
  assumes inv: "sched_inv M s ts qs" and none: "nobody_runs M s ts" and p: "qs p = k # ks"
    and run: "put_on s ts k = (r, s', ts')"
  shows "r = Inr k \<and> kept M ts s' ts' (qs(p := ks)) \<and> sc_idle s' = sc_idle s \<and> sc_current s' = Some k \<and>
    k \<in> M \<and> sc_idle s \<noteq> Some k \<and>
    (\<exists>t'. pool_map ts' k = Some t' \<and> th_state t' = Running \<and> 0 < th_time_slice t' \<and> unat (th_priority t') = p)"
proof -
  note rq = sched_butD(2) [OF inv]
  obtain t where t: "k \<in> M" "pool_map ts k = Some t" "unat (th_priority t) = p" "p < 32"
    using runqD(4) [OF rq, of k p] p by auto
  have idle: "sc_idle s \<noteq> Some k" using sched_butD(5) [OF inv, of k] p by (metis list.set_intros(1))
  have ok: "th_state t = Ready" "k \<notin> dl_ids (sc_deadlines s)"
  proof -
    have "queued qs k" using p by (metis list.set_intros(1))
    then show "th_state t = Ready" using sched_butD(7) [OF inv t(1,2)] idle unfolding thread_ok_def by blast
    then show "k \<notin> dl_ids (sc_deadlines s)" using sched_butD(7) [OF inv t(1,2)] unfolding thread_ok_def by auto
  qed
  obtain s2 ts2 where D: "sc_dequeue s ts k = (Inr (), s2, ts2)" "same_rest s s2" "altered strip_queue M ts ts2"
    "sched_but {k} M s2 ts2 (qs(p := ks))" "\<not> queued (qs(p := ks)) k"
    using sched_dequeue [OF sched_but_mono [OF inv] _ t(1,2), of "{k}"] t(3) p by (metis empty_subsetI insertI1 remove1.simps(2))
  obtain t2 where t2: "pool_map ts2 k = Some t2" "strip_queue t2 = strip_queue t" using altered_some_fwd [OF D(3) t(2)] by blast
  note same = strip_queue_eqD [OF t2(2)]
  let ?f = "\<lambda>t. t\<lparr>th_state := Running, th_time_slice := (if th_time_slice t = 0 then DEFAULT_TIME_SLICE_TICKS else th_time_slice t)\<rparr>"
  let ?ts = "pool_modify ts2 k ?f" and ?s = "s2\<lparr>sc_current := Some k\<rparr>"
  have rest: "sc_idle s2 = sc_idle s" "sc_deadlines s2 = sc_deadlines s" using D(2) by (simp_all add: same_rest_def)
  have "transition_next (th_state t2) EvSchedule = Inr Running" using same(1) ok(1) by (simp add: transition_to(2))
  then have res: "r = Inr k" "s' = ?s" "ts' = ?ts"
    using run D(1) t2(1) by (simp_all add: put_on_def pool_get_map snd_pool_get_mut)
  have t3: "pool_map ?ts k = Some (?f t2)" using t2(1) by (simp add: pool_map_modify_apply)
  have "sched_but {k} M s2 ?ts (qs(p := ks))" using sched_but_touch [OF D(4), of ?f k] by simp
  then have inv3: "sched_but {k} M ?s ?ts (qs(p := ks))"
  proof (rule sched_but_current)
    fix k' u assume u: "k' \<in> M" "k' \<notin> {k}" "pool_map ?ts k' = Some u" "th_state u = Running"
    then have "pool_map ts2 k' = Some u" by (simp add: pool_map_modify_apply)
    then obtain v where "pool_map ts k' = Some v" "strip_queue u = strip_queue v" using altered_some [OF D(3)] by blast
    then show "sc_idle s2 = Some k'" using none u(1,4) strip_queue_eqD(1) rest(1) unfolding nobody_runs_def by metis
  qed (use t(1) t2(1) in \<open>simp_all add: pool_map_modify_apply\<close>)
  have "sched_inv M ?s ?ts (qs(p := ks))"
  proof (rule sched_but_close [OF inv3])
    fix u assume "pool_map ?ts k = Some u"
    then have "th_state u = Running" using t3 by auto
    then show "thread_ok ?s (qs(p := ks)) k u"
      using D(5) ok(2) rest(2) unfolding thread_ok_def by (simp del: fun_upd_apply)
  qed
  moreover have "altered strip_sched M ts ?ts"
    by (rule altered_modify_then [OF requeued_sched [OF D(3)] t(1)]) (simp add: strip_sched_def)
  ultimately show ?thesis
    using res t3 rest(1) t idle same(2) by (auto simp: kept_def DEFAULT_TIME_SLICE_TICKS_def word_gt_0)
qed

lemma pick_ready_effect:
  assumes inv: "sched_inv M s ts qs" and p: "put_back_queues s ts qs p = k # ks" "\<not> higher_ready (put_back_queues s ts qs) p"
    and run: "sc_pick_next s ts = (r, s', ts')"
  shows "r = Inr k \<and> kept M ts s' ts' ((put_back_queues s ts qs)(p := ks)) \<and> sc_idle s' = sc_idle s \<and> sc_current s' = Some k \<and>
    k \<in> M \<and> sc_idle s \<noteq> Some k \<and>
    (\<exists>t'. pool_map ts' k = Some t' \<and> th_state t' = Running \<and> 0 < th_time_slice t' \<and> unat (th_priority t') = p)"
proof -
  let ?qs = "put_back_queues s ts qs"
  obtain s1 ts1 where P: "sc_put_back s ts = (Inr (), s1, ts1)" "kept M ts s1 ts1 ?qs"
    "sc_idle s1 = sc_idle s" "sc_current s1 = sc_current s" "nobody_runs M s ts1"
    by (rule put_back_effect [OF inv])
  note inv1 = keptD(1) [OF P(2)]
  note r1 = sched_butD(2) [OF inv1]
  obtain h where h: "sc_highest_ready s1 = Some h" using highest_ready_queues(1) [OF r1] p(1) by (cases "sc_highest_ready s1") auto
  note top = highest_ready_queues(2) [OF r1 h]
  have hp: "unat h = p" using top p by (intro top_unique [of ?qs]) simp_all
  have "Option.bind (sc_queue s1 h) rq_head = Some k"
    using queue_listD(1) [OF runqD(2) [OF r1, of p]] p(1) hp top runqD(1) [OF r1] by (simp add: sc_queue_def array_get_def)
  then have "sc_pick_next s ts = put_on s1 ts1 k" by (simp add: sc_pick_next_def P(1) h put_on_def)
  then have "put_on s1 ts1 k = (r, s', ts')" using run by simp
  note R = put_on_effect [OF inv1 _ p(1) this]
  have none: "nobody_runs M s1 ts1" using P(3,5) by (simp add: nobody_runs_def)
  have "kept M ts s' ts' (?qs(p := ks))"
    using R [OF none] altered_trans [OF keptD(2) [OF P(2)]] unfolding kept_def by blast
  then show ?thesis using R [OF none] P(3) by simp
qed

section \<open>Turns\<close>

text \<open>A number of ticks, then a switch; and a sequence of such turns with the threads they pick.\<close>

primrec sc_ticks :: "nat \<Rightarrow> scheduler \<Rightarrow> thread pool \<Rightarrow> thread pool" where
  "sc_ticks 0 s ts = ts"
| "sc_ticks (Suc n) s ts = sc_ticks n s (snd (sc_tick s ts))"

primrec turns :: "nat list \<Rightarrow> scheduler \<Rightarrow> thread pool \<Rightarrow> (error + object_id) list" where
  "turns [] s ts = []"
| "turns (n # ns) s ts = (case sc_pick_next s (sc_ticks n s ts) of (r, s, ts) \<Rightarrow> r # turns ns s ts)"

definition running_low :: "nat \<Rightarrow> scheduler \<Rightarrow> thread pool \<Rightarrow> bool" where
  "running_low p s ts \<longleftrightarrow> (\<forall>k t. sc_current s = Some k \<longrightarrow> pool_map ts k = Some t \<longrightarrow> th_state t = Running \<longrightarrow>
     sc_idle s \<noteq> Some k \<longrightarrow> unat (th_priority t) \<le> p)"

lemma tick_views:
  assumes "pool_map (snd (sc_tick s ts)) k = Some t"
  shows "\<exists>u. pool_map ts k = Some u \<and> th_state u = th_state t \<and> th_priority u = th_priority t"
  using assms
  by (auto simp: sc_tick_def pool_get_mut_eq pool_get_map pool_map_modify_apply split: option.splits if_splits)

lemma ticks_keep:
  assumes "sched_inv M s ts qs" and "running_low p s ts"
  shows "sched_inv M s (sc_ticks n s ts) qs \<and> running_low p s (sc_ticks n s ts)"
  using assms
proof (induction n arbitrary: ts)
  case (Suc n)
  obtain out ts' where t: "sc_tick s ts = (out, ts')" by (metis surj_pair)
  have "sched_inv M s ts' qs" using keptD(1) [OF tick_kept [OF Suc.prems(1) t]] .
  moreover have "running_low p s ts'"
    using Suc.prems(2) tick_views [of s ts] t unfolding running_low_def by fastforce
  ultimately show ?case using Suc.IH t by simp
qed simp

text \<open>While nobody of a higher priority is ready or runs, the queue of \<open>p\<close> loses nobody but its first.\<close>

lemma put_back_low:
  assumes low: "running_low p s ts" and top: "\<not> higher_ready qs p"
  shows "\<not> higher_ready (put_back_queues s ts qs) p" "\<exists>ys. put_back_queues s ts qs p = qs p @ ys"
proof -
  have "\<not> higher_ready (put_back_queues s ts qs) p \<and> (\<exists>ys. put_back_queues s ts qs p = qs p @ ys)"
  proof (cases "\<exists>k t. sc_current s = Some k \<and> pool_map ts k = Some t \<and> th_state t = Running \<and> sc_idle s \<noteq> Some k")
    case False
    then have "put_back_queues s ts qs = qs"
      by (auto simp: put_back_queues_def Let_def split: option.splits)
    then show ?thesis using top by simp
  next
    case True
    then obtain k t where k: "sc_current s = Some k" "pool_map ts k = Some t" "th_state t = Running" "sc_idle s \<noteq> Some k" by blast
    let ?q = "unat (th_priority t)"
    have q: "?q \<le> p" using low k by (simp add: running_low_def)
    obtain xs where xs: "put_back_queues s ts qs = qs(?q := xs)" "?q = p \<longrightarrow> xs = qs p @ [k]"
      using k top by (auto simp: put_back_queues_def Let_def)
    have "\<not> higher_ready (qs(?q := xs)) p" using top q by (auto simp: higher_ready_def)
    then show ?thesis using xs by auto
  qed
  then show "\<not> higher_ready (put_back_queues s ts qs) p" "\<exists>ys. put_back_queues s ts qs p = qs p @ ys" by blast+
qed

lemma turns_in_order:
  assumes "sched_inv M s ts qs" and "running_low p s ts" and "\<not> higher_ready qs p" and "qs p = xs @ ys" and "length ns \<le> length xs"
  shows "turns ns s ts = map Inr (take (length ns) xs)"
  using assms
proof (induction ns arbitrary: s ts qs xs ys)
  case (Cons n ns)
  then obtain k zs where xs: "xs = k # zs" by (cases xs) auto
  let ?ts = "sc_ticks n s ts"
  have inv: "sched_inv M s ?ts qs" and low: "running_low p s ?ts" using ticks_keep [OF Cons.prems(1,2)] by simp_all
  obtain r s' ts' where pick: "sc_pick_next s ?ts = (r, s', ts')" by (metis surj_pair)
  note B = put_back_low [OF low Cons.prems(3)]
  obtain us where us: "put_back_queues s ?ts qs p = k # zs @ ys @ us" using B(2) Cons.prems(4) xs by auto
  note P = pick_ready_effect [OF inv us B(1) pick]
  let ?qs = "(put_back_queues s ?ts qs)(p := zs @ ys @ us)"
  have inv': "sched_inv M s' ts' ?qs" using P keptD(1) by blast
  have low': "running_low p s' ts'" using P by (auto simp: running_low_def)
  have top': "\<not> higher_ready ?qs p" using B(1) by (auto simp: higher_ready_def)
  have q: "?qs p = zs @ (ys @ us)" by simp
  have "turns ns s' ts' = map Inr (take (length ns) zs)"
    by (rule Cons.IH [OF inv' low' top' q]) (use Cons.prems(5) xs in simp)
  then show ?case using P pick xs by simp
qed simp

section \<open>Properties\<close>

lemma sched_inv_new:
  assumes "pool_inv ts"
    and "\<And>k t. k \<in> M \<Longrightarrow> pool_map ts k = Some t \<Longrightarrow> th_queue_links t = links_UNLINKED \<and> th_state t \<noteq> Ready \<and>
      th_state t \<noteq> Running \<and> th_deadline t = None \<and> th_deadline_index t = None \<and> unat (th_priority t) < 32"
  shows "sched_inv M scheduler_new ts (\<lambda>_. [])"
proof -
  have "runq M scheduler_new ts (\<lambda>_. [])"
    using assms(2) by (auto simp: runq_def scheduler_new_def PRIORITIES_32 run_queue_EMPTY_def)
  moreover have "dl_inv M (deadlines_new THREADS) ts"
    using assms(2) by (auto simp: dl_inv_def dl_ok_def dl_sync_def deadlines_new_def heap_on_def)
  ultimately show ?thesis
    using assms by (auto simp: sched_but_def thread_ok_def scheduler_new_def deadlines_new_def)
qed

lemma example_sched_inv: "sched_inv UNIV scheduler_new example_threads (\<lambda>_. [])"
proof (rule sched_inv_new [OF example_threads_pool(1)])
  fix k t assume t: "pool_map example_threads k = Some t"
  then have "t = example_thread 5" using example_threads_only by blast
  then show "th_queue_links t = links_UNLINKED \<and> th_state t \<noteq> Ready \<and>
      th_state t \<noteq> Running \<and> th_deadline t = None \<and> th_deadline_index t = None \<and> unat (th_priority t) < 32"
    using example_threads_no_deadline [OF t] by (simp add: example_thread_fields)
qed

lemma example_started:
  obtains s ts where "sc_start scheduler_new example_threads (ObjectId 0 1) = (Inr outcome_RESCHEDULE, s, ts)"
    "sched_inv UNIV s ts ((\<lambda>_. [])(5 := [ObjectId 0 1]))" "sc_current s = None" "sc_idle s = None"
proof -
  obtain r s ts where run: "sc_start scheduler_new example_threads (ObjectId 0 1) = (r, s, ts)" by (metis surj_pair)
  have st: "transition_next (th_state (example_thread 5)) EvStart = Inr Ready"
    by (simp add: example_thread_fields transition_next_iff TRANSITIONS_def)
  note R = ready_op [OF example_sched_inv UNIV_I example_threads_pool(2) st run [unfolded sc_start_def]]
  have new: "sc_idle scheduler_new = None" "sc_current scheduler_new = None" by (simp_all add: scheduler_new_def)
  obtain out where r: "r = Inr out" using R new by (cases r) auto
  have q: "kept UNIV example_threads s ts ((\<lambda>_. [])(5 := [ObjectId 0 1]))" "sc_idle s = None" "sc_current s = None"
    and out: "out = sc_preempts_current s ts (ObjectId 0 1)"
    using R new by (auto simp: r example_thread_fields)
  have "pool_map ts (ObjectId 0 1) \<noteq> None"
    using altered_live [OF keptD(2) [OF q(1)], of "ObjectId 0 1"] example_threads_pool(2) by simp
  then have "out = outcome_RESCHEDULE" using q(3) by (auto simp: out sc_preempts_current_def pool_get_map)
  then show thesis using that run r keptD(1) [OF q(1)] q(2,3) by simp
qed

text \<open>
  C32: which thread runs next. First the running thread goes back into its queue, to the head when a higher
  priority displaces it before its slice is spent and to the tail otherwise. Then the first thread of
  the highest priority that holds one is picked: it is running, it has ticks, it is what the processor
  holds, and it has left its queue while every other queue is unchanged. When every queue is empty the
  idle thread is picked, and without one the call is refused with \<open>NotRunnable\<close>. No other error occurs.
\<close>

theorem pick_next_correct:
  assumes "sched_inv M s ts qs" and "sc_pick_next s ts = (r, s', ts')"
  defines "qs1 \<equiv> put_back_queues s ts qs"
  shows "if \<forall>p. qs1 p = [] then r = ok_or (sc_idle s) NotRunnable \<and> sched_inv M s' ts' qs1
    else \<exists>p k ks. qs1 p = k # ks \<and> (\<forall>q > p. qs1 q = []) \<and> r = Inr k \<and> sc_current s' = Some k \<and> sc_idle s \<noteq> Some k \<and>
      sched_inv M s' ts' (qs1(p := ks)) \<and>
      (\<exists>t. pool_map ts' k = Some t \<and> th_state t = Running \<and> 0 < th_time_slice t \<and> unat (th_priority t) = p)"
proof (cases "\<forall>p. qs1 p = []")
  case True
  then show ?thesis
    using pick_idle_effect [OF assms(1) _ assms(2)] keptD(1) by (auto simp: qs1_def ok_or_def)
next
  case False
  obtain s1 ts1 where "kept M ts s1 ts1 qs1" using put_back_effect [OF assms(1)] unfolding qs1_def by metis
  then have rq: "runq M s1 ts1 qs1" using keptD(1) sched_butD(2) by blast
  obtain h where h: "sc_highest_ready s1 = Some h" using highest_ready_queues(1) [OF rq] False by (cases "sc_highest_ready s1") auto
  obtain k ks where k: "qs1 (unat h) = k # ks" "\<not> higher_ready qs1 (unat h)"
    using highest_ready_queues(2) [OF rq h] by (cases "qs1 (unat h)") auto
  note P = pick_ready_effect [OF assms(1) _ _ assms(2), folded qs1_def, OF k]
  have "\<forall>q > unat h. qs1 q = []" using k(2) by (simp add: higher_ready_def)
  then show ?thesis using False P k(1) keptD(1) by auto
qed

theorem pick_next_correct_witness:
  "\<exists>s ts s' ts'. sc_start scheduler_new example_threads (ObjectId 0 1) = (Inr outcome_RESCHEDULE, s, ts) \<and>
     sc_pick_next s ts = (Inr (ObjectId 0 1), s', ts') \<and> sc_current s' = Some (ObjectId 0 1)"
proof -
  obtain s ts where s: "sc_start scheduler_new example_threads (ObjectId 0 1) = (Inr outcome_RESCHEDULE, s, ts)"
    "sched_inv UNIV s ts ((\<lambda>_. [])(5 := [ObjectId 0 1]))" "sc_current s = None"
    by (rule example_started)
  obtain r s' ts' where pick: "sc_pick_next s ts = (r, s', ts')" by (metis surj_pair)
  have "put_back_queues s ts ((\<lambda>_. [])(5 := [ObjectId 0 1])) = (\<lambda>_. [])(5 := [ObjectId 0 1])"
    using s(3) by (simp add: put_back_queues_def)
  with pick_next_correct [OF s(2) pick] have "r = Inr (ObjectId 0 1) \<and> sc_current s' = Some (ObjectId 0 1)"
    by (auto split: if_splits)
  then show ?thesis using s(1) pick by blast
qed

text \<open>
  C33: every ready thread of the highest priority gets its turn. As long as no thread of a higher priority
  is ready or running, the switches that follow one another pick the threads of that queue one after the
  other in the order in which they wait, however many ticks pass between two switches.
\<close>

theorem round_robin:
  assumes "sched_inv M s ts qs" and "\<forall>q > p. qs q = []" and "running_low p s ts" and "length ns \<le> length (qs p)"
  shows "turns ns s ts = map Inr (take (length ns) (qs p))"
  using turns_in_order [OF assms(1,3) _ _ assms(4), of "[]"] assms(2) by (simp add: higher_ready_def)

theorem round_robin_witness:
  "\<exists>s ts. sc_start scheduler_new example_threads (ObjectId 0 1) = (Inr outcome_RESCHEDULE, s, ts) \<and>
     turns [3] s ts = [Inr (ObjectId 0 1)]"
proof -
  obtain s ts where s: "sc_start scheduler_new example_threads (ObjectId 0 1) = (Inr outcome_RESCHEDULE, s, ts)"
    "sched_inv UNIV s ts ((\<lambda>_. [])(5 := [ObjectId 0 1]))" "sc_current s = None"
    by (rule example_started)
  have "turns [3] s ts = [Inr (ObjectId 0 1)]"
    using round_robin [OF s(2), of 5 "[3]"] s(3) by (simp add: running_low_def)
  then show ?thesis using s(1) by blast
qed

lemma stopped_result:
  assumes inv: "sched_inv M s ts qs" and k: "k \<in> M" "pool_map ts k = Some t" "th_state t \<noteq> Ready" "th_state t \<noteq> Running"
  shows "\<exists>qs' t'. sched_inv M s ts qs' \<and> (\<forall>p. k \<notin> set (qs' p)) \<and> pool_map ts k = Some t' \<and>
    th_state t' \<noteq> Ready \<and> th_state t' \<noteq> Running"
  using not_queued [OF inv k(1,2) _ k(3)] inv k(2-4) by auto

lemma stops_all_or_nothing:
  assumes inv: "sched_inv M s ts qs" and k: "k \<in> M" and ev: "stops ev" and run: "sc_leaves_the_processor s ts k ev = (r, s', ts')"
  shows "case r of
      Inl e \<Rightarrow> s' = s \<and> ts' = ts
    | Inr _ \<Rightarrow> (\<exists>qs' t'. sched_inv M s' ts' qs' \<and> (\<forall>p. k \<notin> set (qs' p)) \<and> pool_map ts' k = Some t' \<and>
        th_state t' \<noteq> Ready \<and> th_state t' \<noteq> Running) \<and> (sc_idle s \<noteq> Some k \<longrightarrow> sc_current s' \<noteq> Some k)"
proof (cases r)
  case (Inr out)
  then obtain t t' where e: "kept M ts s' ts' (taken_out k t qs)" "pool_map ts' k = Some t'"
    "transition_next (th_state t) ev = Inr (th_state t')" "sc_current s' \<noteq> Some k"
    using stops_effect [OF inv k ev run] by auto
  have "th_state t' \<noteq> Ready" "th_state t' \<noteq> Running" using stops_to [OF ev e(3)] by simp_all
  then show ?thesis using stopped_result [OF keptD(1) [OF e(1)] k e(2)] e(4) Inr by simp
qed (use stops_effect [OF inv k ev run] in simp)

text \<open>
  C34: stopping a thread is all or nothing. A refused \<open>on_block\<close>, \<open>on_block_until\<close>, \<open>suspend\<close>, \<open>fault\<close> or \<open>exit\<close>
  changes nothing at all: not the state of the thread, not a queue, not a deadline, not the time slice.
  One that is not refused leaves the invariant, with the thread in no queue and not on the processor,
  unless it had exited before, which \<open>exit\<close> accepts without doing anything.
\<close>

theorem stop_all_or_nothing:
  assumes "sched_inv M s ts qs" and "k \<in> M"
    and "(r, s', ts') \<in> {sc_on_block s ts k ev, sc_on_block_until s ts k ev deadline, sc_suspend s ts k, sc_fault s ts k, sc_exit s ts k}"
  shows "case r of
      Inl e \<Rightarrow> s' = s \<and> ts' = ts
    | Inr _ \<Rightarrow> (\<exists>qs' t'. sched_inv M s' ts' qs' \<and> (\<forall>p. k \<notin> set (qs' p)) \<and> pool_map ts' k = Some t' \<and>
        th_state t' \<noteq> Ready \<and> th_state t' \<noteq> Running) \<and> (sc_idle s \<noteq> Some k \<longrightarrow> sc_current s' \<noteq> Some k)"
proof -
  note S = stops_all_or_nothing [OF assms(1,2)]
  consider (block) "sc_on_block s ts k ev = (r, s', ts')" | (until) "sc_on_block_until s ts k ev deadline = (r, s', ts')"
    | (suspend) "sc_suspend s ts k = (r, s', ts')" | (fault) "sc_fault s ts k = (r, s', ts')" | (exit) "sc_exit s ts k = (r, s', ts')"
    using assms(3) by fastforce
  then show ?thesis
  proof cases
    case block
    then show ?thesis
      using S [of ev r s' ts'] by (auto simp: sc_on_block_def stops_def split: if_splits)
  next
    case until
    note B = block_until_effect [OF assms(1,2) until]
    show ?thesis
    proof (cases r)
      case (Inr out)
      then obtain t where e: "pool_map ts k = Some t" "kept M ts s' ts' (taken_out k t qs)" "k \<in> dl_ids (sc_deadlines s')" "sc_current s' \<noteq> Some k"
        using B by auto
      note inv' = keptD(1) [OF e(2)]
      obtain t' where t': "pool_map ts' k = Some t'" using altered_some_fwd [OF keptD(2) [OF e(2)] e(1)] by blast
      have "th_state t' = BlockedNotification" using sched_butD(7) [OF inv' assms(2) t'] e(3) by (simp add: thread_ok_def)
      then show ?thesis using stopped_result [OF inv' assms(2) t'] e(4) Inr by simp
    qed (use B in simp)
  next
    case suspend
    then show ?thesis using S [of EvSuspend r s' ts'] by (simp add: sc_suspend_def stops_def)
  next
    case fault
    then show ?thesis using S [of EvFault r s' ts'] by (simp add: sc_fault_def stops_def)
  next
    case exit
    show ?thesis
    proof (cases "\<exists>t. pool_map ts k = Some t \<and> th_state t = Exited")
      case True
      then obtain t where t: "pool_map ts k = Some t" "th_state t = Exited" by blast
      then have "r = Inr outcome_NOTHING" "s' = s" "ts' = ts" using exit by (simp_all add: sc_exit_def pool_get_map)
      moreover have "sc_idle s \<noteq> Some k \<longrightarrow> sc_current s \<noteq> Some k"
        using sched_butD(7) [OF assms(1,2) t(1)] t(2) by (simp add: thread_ok_def)
      ultimately show ?thesis using stopped_result [OF assms(1,2) t(1)] t(2) by simp
    next
      case False
      then have "(r, s', ts') = (if pool_map ts k = None then (Inl InvalidHandle, s, ts) else sc_leaves_the_processor s ts k EvExit)"
        using exit by (auto simp: sc_exit_def pool_get_map split: option.splits)
      then show ?thesis using S [of EvExit r s' ts'] by (auto simp: stops_def split: if_splits)
    qed
  qed
qed

theorem stop_all_or_nothing_witness:
  "sc_fault scheduler_new example_threads (ObjectId 0 1) = (Inl InvalidState, scheduler_new, example_threads) \<and>
   (\<exists>s' ts' t'. sc_suspend scheduler_new example_threads (ObjectId 0 1) = (Inr outcome_NOTHING, s', ts') \<and>
      pool_map ts' (ObjectId 0 1) = Some t' \<and> th_state t' \<noteq> Ready)"
proof
  note S = stop_all_or_nothing [OF example_sched_inv UNIV_I, of _ _ _ "ObjectId 0 1" EvFault 0]
  obtain r s' ts' where f: "sc_fault scheduler_new example_threads (ObjectId 0 1) = (r, s', ts')" by (metis surj_pair)
  moreover have "r = Inl InvalidState"
    using f apply_refused [of example_threads "ObjectId 0 1" EvFault scheduler_new] example_threads_pool(2)
    by (simp add: sc_fault_def sc_leaves_the_processor_def example_thread_fields is_legal_iff transition_next_iff TRANSITIONS_def)
  ultimately show "sc_fault scheduler_new example_threads (ObjectId 0 1) = (Inl InvalidState, scheduler_new, example_threads)"
    using S [of r s' ts'] by simp
  obtain r s' ts' where u: "sc_suspend scheduler_new example_threads (ObjectId 0 1) = (r, s', ts')" by (metis surj_pair)
  have "r = Inr outcome_NOTHING"
    using leaves_effect [OF example_sched_inv UNIV_I example_threads_pool(2), of EvSuspend Suspended] u
    by (auto simp: sc_suspend_def example_thread_fields transition_next_iff TRANSITIONS_def scheduler_new_def)
  then show "\<exists>s' ts' t'. sc_suspend scheduler_new example_threads (ObjectId 0 1) = (Inr outcome_NOTHING, s', ts') \<and>
      pool_map ts' (ObjectId 0 1) = Some t' \<and> th_state t' \<noteq> Ready"
    using S [of r s' ts'] u by auto
qed

end
