(* ===== verification/Processors.thy ===== *)
theory Processors
  imports Scheduling
begin

text \<open>
  The schedulers of all processors, \<open>src/crates/kernel/sched/src/processors.rs\<close>. Every thread has a home
  processor; an operation on it goes to the scheduler of its home, and a request to switch there becomes
  a bit in \<open>pending\<close> unless the home is the calling processor. \<open>pr_route\<close> is what the routed operations
  share; the locale \<open>sched_op\<close> is the contract of an operation of the scheduler, and shows for all of them
  at once that routing keeps the invariants of every processor.
\<close>

section \<open>Operations\<close>

record processors =
  pr_queues :: "scheduler list"
  pr_caller :: nat
  pr_pending :: u16
  pr_online :: u16
  pr_next_home :: nat

definition processors_new :: processors where
  "processors_new = \<lparr>pr_queues = replicate CPUS scheduler_new, pr_caller = 0, pr_pending = 0, pr_online = 0,
     pr_next_home = 0\<rparr>"

definition pr_select :: "processors \<Rightarrow> u8 \<Rightarrow> processors" where
  "pr_select ps cpu = ps\<lparr>pr_caller := min (unat cpu) (CPUS - 1)\<rparr>"

definition pr_caller_number :: "processors \<Rightarrow> u8" where
  "pr_caller_number ps = (if pr_caller ps < 2 ^ 8 then of_nat (pr_caller ps) else 0)"

definition pr_set_online :: "processors \<Rightarrow> u8 \<Rightarrow> processors" where
  "pr_set_online ps cpu =
     (if unat cpu < CPUS then ps\<lparr>pr_online := or (pr_online ps) (push_bit (unat cpu) 1)\<rparr> else ps)"

text \<open>The loop of \<open>assign\<close>, with the number of rounds left.\<close>

primrec pr_assign_loop :: "nat \<Rightarrow> u16 \<Rightarrow> processors \<Rightarrow> u8 \<times> processors" where
  "pr_assign_loop 0 homes ps = (0, ps)"
| "pr_assign_loop (Suc n) homes ps =
     (let cpu = pr_next_home ps;
          ps = ps\<lparr>pr_next_home := (cpu + 1) mod CPUS\<rparr>
      in if and homes (push_bit cpu 1) \<noteq> 0 then (if cpu < 2 ^ 8 then of_nat cpu else 0, ps)
         else pr_assign_loop n homes ps)"

definition pr_assign :: "processors \<Rightarrow> u8 \<times> processors" where
  "pr_assign ps = pr_assign_loop CPUS (or (pr_online ps) 1) ps"

definition pr_take_pending :: "processors \<Rightarrow> u16 \<times> processors" where
  "pr_take_pending ps = (pr_pending ps, ps\<lparr>pr_pending := 0\<rparr>)"

definition pr_home :: "thread pool \<Rightarrow> object_id \<Rightarrow> error + nat" where
  "pr_home threads oid =
     (case pool_get threads oid of
        Inl _ \<Rightarrow> Inl InvalidHandle
      | Inr thread \<Rightarrow> let cpu = unat (th_cpu thread) in if cpu < CPUS then Inr cpu else Inl InvalidArgument)"

definition pr_outcome :: "processors \<Rightarrow> nat \<Rightarrow> outcome \<Rightarrow> outcome \<times> processors" where
  "pr_outcome ps cpu outcome =
     (if cpu = pr_caller ps then (outcome, ps)
      else (outcome_NOTHING,
            if oc_reschedule outcome then ps\<lparr>pr_pending := or (pr_pending ps) (push_bit cpu 1)\<rparr> else ps))"

definition pr_own :: "processors \<Rightarrow> scheduler option" where
  "pr_own ps = array_get (pr_queues ps) (pr_caller ps)"

definition pr_current :: "processors \<Rightarrow> object_id option" where
  "pr_current ps = Option.bind (pr_own ps) sc_current"

definition pr_idle :: "processors \<Rightarrow> object_id option" where
  "pr_idle ps = Option.bind (pr_own ps) sc_idle"

definition pr_ready_bitmap :: "processors \<Rightarrow> u32" where
  "pr_ready_bitmap ps = (case pr_own ps of None \<Rightarrow> 0 | Some s \<Rightarrow> sc_ready s)"

definition pr_is_idle :: "processors \<Rightarrow> bool" where
  "pr_is_idle ps = (case pr_own ps of None \<Rightarrow> True | Some s \<Rightarrow> sc_is_idle s)"

definition pr_highest_ready :: "processors \<Rightarrow> u8 option" where
  "pr_highest_ready ps = Option.bind (pr_own ps) sc_highest_ready"

definition pr_ended :: "processors \<Rightarrow> u32" where
  "pr_ended ps = (case pr_own ps of None \<Rightarrow> 0 | Some s \<Rightarrow> sc_ended s)"

definition pr_waiting_until :: "processors \<Rightarrow> u32" where
  "pr_waiting_until ps = (case pr_own ps of None \<Rightarrow> 0 | Some s \<Rightarrow> sc_waiting_until s)"

definition pr_next_deadline :: "processors \<Rightarrow> object_id option" where
  "pr_next_deadline ps = Option.bind (pr_own ps) sc_next_deadline"

text \<open>Writing to one of the schedulers; an index outside the array writes nothing.\<close>

definition pr_put :: "processors \<Rightarrow> nat \<Rightarrow> scheduler \<Rightarrow> processors" where
  "pr_put ps cpu s = ps\<lparr>pr_queues := (pr_queues ps)[cpu := s]\<rparr>"

definition pr_set_idle :: "processors \<Rightarrow> object_id \<Rightarrow> processors" where
  "pr_set_idle ps oid = (case pr_own ps of None \<Rightarrow> ps | Some s \<Rightarrow> pr_put ps (pr_caller ps) (sc_set_idle s oid))"

definition pr_adopt :: "processors \<Rightarrow> object_id \<Rightarrow> processors" where
  "pr_adopt ps oid = (case pr_own ps of None \<Rightarrow> ps | Some s \<Rightarrow> pr_put ps (pr_caller ps) (sc_adopt s oid))"

definition pr_cleared :: "processors \<Rightarrow> processors" where
  "pr_cleared ps = (case pr_own ps of None \<Rightarrow> ps | Some s \<Rightarrow> pr_put ps (pr_caller ps) (sc_cleared s))"

definition pr_pick_next :: "processors \<Rightarrow> thread pool \<Rightarrow> (error + object_id) \<times> processors \<times> thread pool" where
  "pr_pick_next ps threads =
     (case pr_own ps of
        None \<Rightarrow> (Inl InvalidArgument, ps, threads)
      | Some s \<Rightarrow> (case sc_pick_next s threads of (r, s, threads) \<Rightarrow> (r, pr_put ps (pr_caller ps) s, threads)))"

definition pr_tick :: "processors \<Rightarrow> thread pool \<Rightarrow> outcome \<times> thread pool" where
  "pr_tick ps threads =
     (case pr_own ps of None \<Rightarrow> (outcome_NOTHING, threads) | Some s \<Rightarrow> sc_tick s threads)"

primrec pr_expired_queues ::
  "scheduler list \<Rightarrow> thread pool \<Rightarrow> u64 \<Rightarrow> object_id option \<times> scheduler list \<times> thread pool" where
  "pr_expired_queues [] threads now = (None, [], threads)"
| "pr_expired_queues (s # ss) threads now =
     (case sc_expired s threads now of
        (Some oid, s, threads) \<Rightarrow> (Some oid, s # ss, threads)
      | (None, s, threads) \<Rightarrow>
          (case pr_expired_queues ss threads now of (r, ss, threads) \<Rightarrow> (r, s # ss, threads)))"

definition pr_expired :: "processors \<Rightarrow> thread pool \<Rightarrow> u64 \<Rightarrow> object_id option \<times> processors \<times> thread pool" where
  "pr_expired ps threads now =
     (case pr_expired_queues (pr_queues ps) threads now of
        (r, queues, threads) \<Rightarrow> (r, ps\<lparr>pr_queues := queues\<rparr>, threads))"

definition pr_enqueue :: "processors \<Rightarrow> thread pool \<Rightarrow> object_id \<Rightarrow> (error + unit) \<times> processors \<times> thread pool" where
  "pr_enqueue ps threads oid =
     (case pr_home threads oid of
        Inl e \<Rightarrow> (Inl e, ps, threads)
      | Inr cpu \<Rightarrow>
          (case array_get (pr_queues ps) cpu of
             None \<Rightarrow> (Inl InvalidArgument, ps, threads)
           | Some s \<Rightarrow>
               (case sc_enqueue s threads oid of
                  (Inl e, s, threads) \<Rightarrow> (Inl e, pr_put ps cpu s, threads)
                | (Inr _, s, threads) \<Rightarrow>
                    let ps = pr_put ps cpu s
                    in (Inr (), if cpu \<noteq> pr_caller ps then ps\<lparr>pr_pending := or (pr_pending ps) (push_bit cpu 1)\<rparr> else ps,
                        threads))))"

definition pr_dequeue :: "processors \<Rightarrow> thread pool \<Rightarrow> object_id \<Rightarrow> (error + unit) \<times> processors \<times> thread pool" where
  "pr_dequeue ps threads oid =
     (case pr_home threads oid of
        Inl e \<Rightarrow> (Inl e, ps, threads)
      | Inr cpu \<Rightarrow>
          (case array_get (pr_queues ps) cpu of
             None \<Rightarrow> (Inl InvalidArgument, ps, threads)
           | Some s \<Rightarrow> (case sc_dequeue s threads oid of (r, s, threads) \<Rightarrow> (r, pr_put ps cpu s, threads))))"

text \<open>The common body of the operations that answer with an outcome.\<close>

definition pr_route ::
  "(scheduler \<Rightarrow> thread pool \<Rightarrow> object_id \<Rightarrow> (error + outcome) \<times> scheduler \<times> thread pool) \<Rightarrow>
   processors \<Rightarrow> thread pool \<Rightarrow> object_id \<Rightarrow> (error + outcome) \<times> processors \<times> thread pool" where
  "pr_route f ps threads oid =
     (case pr_home threads oid of
        Inl e \<Rightarrow> (Inl e, ps, threads)
      | Inr cpu \<Rightarrow>
          (case array_get (pr_queues ps) cpu of
             None \<Rightarrow> (Inl InvalidArgument, ps, threads)
           | Some s \<Rightarrow>
               (case f s threads oid of
                  (Inl e, s, threads) \<Rightarrow> (Inl e, pr_put ps cpu s, threads)
                | (Inr outcome, s, threads) \<Rightarrow>
                    (case pr_outcome (pr_put ps cpu s) cpu outcome of
                       (outcome, ps) \<Rightarrow> (Inr outcome, ps, threads)))))"

definition pr_start_thread where "pr_start_thread = pr_route sc_start"

definition pr_on_wake where "pr_on_wake = pr_route sc_on_wake"

definition pr_on_block where
  "pr_on_block ps threads oid event = pr_route (\<lambda>s threads oid. sc_on_block s threads oid event) ps threads oid"

definition pr_on_block_until where
  "pr_on_block_until ps threads oid event deadline =
     pr_route (\<lambda>s threads oid. sc_on_block_until s threads oid event deadline) ps threads oid"

definition pr_suspend where "pr_suspend = pr_route sc_suspend"

definition pr_resume where "pr_resume = pr_route sc_resume"

definition pr_fault where "pr_fault = pr_route sc_fault"

definition pr_exit where "pr_exit = pr_route sc_exit"

definition pr_yield_now where "pr_yield_now = pr_route sc_yield_now"

definition pr_set_priority where
  "pr_set_priority ps threads oid priority = pr_route (\<lambda>s threads oid. sc_set_priority s threads oid priority) ps threads oid"

section \<open>The invariant of all processors\<close>

definition home_of :: "thread pool \<Rightarrow> nat \<Rightarrow> object_id set" where
  "home_of ts c = {k. \<exists>t. pool_map ts k = Some t \<and> unat (th_cpu t) = c}"

definition procs_inv :: "processors \<Rightarrow> thread pool \<Rightarrow> bool" where
  "procs_inv ps ts \<longleftrightarrow> length (pr_queues ps) = CPUS \<and> pr_caller ps < CPUS \<and> pr_next_home ps < CPUS \<and> pool_inv ts \<and>
     (\<forall>k t. pool_map ts k = Some t \<longrightarrow> unat (th_cpu t) < CPUS) \<and>
     (\<forall>c < CPUS. \<exists>qs. sched_inv (home_of ts c) (pr_queues ps ! c) ts qs)"

lemma procs_invD:
  assumes "procs_inv ps ts"
  shows "length (pr_queues ps) = CPUS" "pr_caller ps < CPUS" "pool_inv ts"
    "\<And>k t. pool_map ts k = Some t \<Longrightarrow> unat (th_cpu t) < CPUS"
    "\<And>c. c < CPUS \<Longrightarrow> \<exists>qs. sched_inv (home_of ts c) (pr_queues ps ! c) ts qs"
    "pr_next_home ps < CPUS"
  using assms unfolding procs_inv_def by blast+

lemma home_of_disjoint: "k \<in> home_of ts c \<Longrightarrow> k \<in> home_of ts c' \<Longrightarrow> c' = c"
  by (auto simp: home_of_def)

lemma altered_cpu: "altered strip_sched K ts ts' \<Longrightarrow> map_option th_cpu (pool_map ts' k) = map_option th_cpu (pool_map ts k)"
proof -
  assume "altered strip_sched K ts ts'"
  then have e: "map_option strip_sched (pool_map ts' k) = map_option strip_sched (pool_map ts k)" by (simp add: altered_def)
  have "th_cpu (strip_sched t) = th_cpu t" for t by (simp add: strip_sched_def)
  then have "th_cpu \<circ> strip_sched = th_cpu" by (simp add: fun_eq_iff)
  then show ?thesis using arg_cong [OF e, of "map_option th_cpu"] by (simp add: option.map_comp)
qed

lemma home_of_cong:
  assumes "\<And>k. map_option th_cpu (pool_map ts' k) = map_option th_cpu (pool_map ts k)"
  shows "home_of ts' c = home_of ts c"
proof -
  have "(\<exists>t. pool_map ts' k = Some t \<and> unat (th_cpu t) = c) \<longleftrightarrow> (\<exists>t. pool_map ts k = Some t \<and> unat (th_cpu t) = c)" for k
    using assms [of k] by (cases "pool_map ts k"; cases "pool_map ts' k") auto
  then show ?thesis by (simp add: home_of_def)
qed

text \<open>The invariant of a processor reads its own threads only.\<close>

lemma runq_on:
  assumes r: "runq M s ts qs" and same: "\<And>k. k \<in> M \<Longrightarrow> pool_map ts' k = pool_map ts k"
  shows "runq M s ts' qs"
  unfolding runq_def
proof (intro conjI allI impI)
  fix p :: nat assume "p < 32"
  have "pool_map ts' k = pool_map ts k" if "k \<in> set (qs p)" for k using runqD(4) [OF r that] same by blast
  then show "queue_links.store.queue ts' (rq_head (sc_queues s ! p)) (rq_tail (sc_queues s ! p)) (qs p)"
    using queue_list_cong [OF runqD(2) [OF r \<open>p < 32\<close>]] by simp
next
  fix p k assume k: "k \<in> set (qs p)"
  show "\<exists>t. pool_map ts' k = Some t \<and> unat (th_priority t) = p" using runqD(4) [OF r k] same by auto
next
  fix k t assume "k \<in> M" "pool_map ts' k = Some t" "\<not> queued qs k"
  then show "th_queue_links t = links_UNLINKED" using runqD(5) [OF r] same by metis
qed (use runqD(1,3,4) [OF r] in blast)+

lemma dl_inv_on:
  assumes inv: "dl_inv M d ts" and ids: "dl_ids d \<subseteq> M" and same: "\<And>k. k \<in> M \<Longrightarrow> pool_map ts' k = pool_map ts k"
  shows "dl_inv M d ts'"
proof -
  have sync: "dl_sync M d ts" and len: "dl_len d \<le> length (dl_entries d)" using inv by (simp_all add: dl_inv_def dl_ok_def)
  have "dl_sync M d ts'"
  proof (rule dl_syncI)
    fix k t i assume k: "pool_map ts' k = Some t" "i < dl_len d" "de_id (dl_entries d ! i) = k"
    then have "k \<in> M" using dl_id_in [OF k(2) len] ids by blast
    then have "pool_map ts k = Some t" using same k(1) by simp
    then show "th_deadline_index t = Some i \<and> th_deadline t = Some (de_deadline (dl_entries d ! i))"
      using dl_syncD(1) [OF sync] k(2,3) by blast
  next
    fix k t assume k: "pool_map ts' k = Some t" "k \<in> M" and none: "\<And>i. i < dl_len d \<Longrightarrow> de_id (dl_entries d ! i) \<noteq> k"
    then have "pool_map ts k = Some t" using same by simp
    then show "th_deadline_index t = None \<and> th_deadline t = None" using dl_syncD(2) [OF sync _ k(2)] none by blast
  qed
  then show ?thesis using inv by (simp add: dl_inv_def dl_ok_def)
qed

lemma sched_inv_on:
  assumes inv: "sched_inv M s ts qs" and "pool_inv ts'" and same: "\<And>k. k \<in> M \<Longrightarrow> pool_map ts' k = pool_map ts k"
  shows "sched_inv M s ts' qs"
proof -
  have "dl_ids (sc_deadlines s) \<subseteq> M" using sched_butD(4) [OF inv] by blast
  then have dl: "dl_inv M (sc_deadlines s) ts'" using dl_inv_on [OF sched_butD(3) [OF inv] _ same] by blast
  have r: "runq M s ts' qs" using runq_on [OF sched_butD(2) [OF inv] same] by blast
  show ?thesis
    unfolding sched_but_def
  proof (intro conjI allI impI ballI)
    fix k assume "k \<in> dl_ids (sc_deadlines s)"
    then show "k \<in> M" "pool_map ts' k \<noteq> None" using sched_butD(4) [OF inv] same by auto
  next
    fix k assume "sc_current s = Some k" "sc_idle s \<noteq> Some k"
    then show "k \<in> M" "pool_map ts' k \<noteq> None" using sched_butD(8) [OF inv] same by auto
  next
    fix k t assume k: "k \<in> M" "pool_map ts' k = Some t"
    then have "pool_map ts k = Some t" using same by simp
    then show "unat (th_priority t) < 32" "thread_ok s qs k t" using sched_butD(6,7) [OF inv k(1)] by auto
  next
    fix k assume "sc_idle s = Some k"
    then show "\<not> queued qs k" by (rule sched_butD(5) [OF inv])
  qed (use assms(2) dl r in simp_all)
qed

text \<open>A change made by one processor to its own threads leaves the invariants of all.\<close>

lemma procs_inv_put:
  assumes inv: "procs_inv ps ts" and c: "c < CPUS" and kept: "kept (home_of ts c) ts s' ts' qs'"
  shows "procs_inv (pr_put ps c s') ts'"
proof -
  note alt = keptD(2) [OF kept]
  have pool: "pool_inv ts'" using altered_inv [OF alt procs_invD(3) [OF inv]] .
  have home: "home_of ts' = home_of ts" by (rule ext, rule home_of_cong [OF altered_cpu [OF alt]])
  have "\<exists>qs. sched_inv (home_of ts' c') (pr_queues (pr_put ps c s') ! c') ts' qs" if c': "c' < CPUS" for c'
  proof (cases "c' = c")
    case True
    then show ?thesis using keptD(1) [OF kept] procs_invD(1) [OF inv] c by (auto simp: home pr_put_def)
  next
    case False
    obtain qs where qs: "sched_inv (home_of ts c') (pr_queues ps ! c') ts qs" using procs_invD(5) [OF inv c'] by blast
    have "pool_map ts' k = pool_map ts k" if "k \<in> home_of ts c'" for k
      using altered_other [OF alt] home_of_disjoint that False by blast
    from sched_inv_on [OF qs pool this] show ?thesis using False by (auto simp: home pr_put_def)
  qed
  moreover have "unat (th_cpu t) < CPUS" if "pool_map ts' k = Some t" for k t
    using altered_cpu [OF alt, of k] procs_invD(4) [OF inv, of k] that by (cases "pool_map ts k") auto
  ultimately show ?thesis using procs_invD [OF inv] pool by (simp add: procs_inv_def pr_put_def)
qed

section \<open>The contract of the routed operations\<close>

text \<open>
  What an operation on a thread of processor \<open>c\<close> may change: the scheduler of \<open>c\<close> becomes the one that
  the operation of the scheduler leaves, and everything else of the record and of the other processors'
  threads stays. When \<open>c\<close> is not the caller, the caller is told of nothing to do, and the wish to
  reschedule becomes a pending bit of \<open>c\<close>.
\<close>

definition isolated :: "nat \<Rightarrow> error + outcome \<Rightarrow> scheduler \<Rightarrow> processors \<Rightarrow> thread pool \<Rightarrow>
    error + outcome \<Rightarrow> processors \<Rightarrow> thread pool \<Rightarrow> bool" where
  "isolated c r' s' ps ts r ps' ts' \<longleftrightarrow>
     (\<forall>k. k \<notin> home_of ts c \<longrightarrow> pool_map ts' k = pool_map ts k) \<and>
     r = (if c = pr_caller ps then r' else map_sum id (\<lambda>_. outcome_NOTHING) r') \<and>
     ps' = ps\<lparr>pr_queues := (pr_queues ps)[c := s'],
       pr_pending := (if c \<noteq> pr_caller ps \<and> (\<exists>out. r' = Inr out \<and> oc_reschedule out)
         then or (pr_pending ps) (push_bit c 1) else pr_pending ps)\<rparr>"

locale sched_op =
  fixes f :: "scheduler \<Rightarrow> thread pool \<Rightarrow> object_id \<Rightarrow> (error + outcome) \<times> scheduler \<times> thread pool"
  assumes keeps: "sched_inv M s ts qs \<Longrightarrow> k \<in> M \<Longrightarrow> f s ts k = (r, s', ts') \<Longrightarrow> \<exists>qs'. kept M ts s' ts' qs'"
begin

lemma route_eq:
  assumes inv: "procs_inv ps ts" and t: "pool_map ts k = Some t" and run: "f (pr_queues ps ! unat (th_cpu t)) ts k = (r, s', ts')"
  shows "pr_route f ps ts k = (let c = unat (th_cpu t); qs = pr_put ps c s' in
    case r of Inl e \<Rightarrow> (Inl e, qs, ts')
    | Inr out \<Rightarrow> (Inr (if c = pr_caller ps then out else outcome_NOTHING),
        if c \<noteq> pr_caller ps \<and> oc_reschedule out then qs\<lparr>pr_pending := or (pr_pending ps) (push_bit c 1)\<rparr> else qs, ts'))"
  using procs_invD(1,4) [OF inv] t run
  by (auto simp: pr_route_def pr_home_def pool_get_map Let_def array_get_def pr_outcome_def pr_put_def split: sum.splits)

lemma route_stale: "pool_map ts k = None \<Longrightarrow> pr_route f ps ts k = (Inl InvalidHandle, ps, ts)"
  by (simp add: pr_route_def pr_home_def pool_get_map)

lemma route_keeps:
  assumes inv: "procs_inv ps ts" and run: "pr_route f ps ts k = (r, ps', ts')"
  shows "procs_inv ps' ts'"
proof (cases "pool_map ts k")
  case None
  then show ?thesis using run inv by (simp add: route_stale)
next
  case (Some t)
  let ?c = "unat (th_cpu t)"
  have c: "?c < CPUS" using procs_invD(4) [OF inv Some] .
  obtain r1 s1 ts1 where f: "f (pr_queues ps ! ?c) ts k = (r1, s1, ts1)" by (metis surj_pair)
  obtain qs where qs: "sched_inv (home_of ts ?c) (pr_queues ps ! ?c) ts qs" using procs_invD(5) [OF inv c] by blast
  have "k \<in> home_of ts ?c" using Some by (simp add: home_of_def)
  then obtain qs' where "kept (home_of ts ?c) ts s1 ts1 qs'" using keeps [OF qs _ f] by blast
  then have p: "procs_inv (pr_put ps ?c s1) ts1" using procs_inv_put [OF inv c] by blast
  have "ts' = ts1 \<and> pr_queues ps' = pr_queues (pr_put ps ?c s1) \<and> pr_caller ps' = pr_caller (pr_put ps ?c s1) \<and>
      pr_next_home ps' = pr_next_home (pr_put ps ?c s1)"
    using run route_eq [OF inv Some f] by (auto simp: Let_def pr_put_def split: sum.splits if_splits)
  then show ?thesis using p by (simp add: procs_inv_def)
qed

lemma route_isolated:
  assumes inv: "procs_inv ps ts" and t: "pool_map ts k = Some t"
    and at: "f (pr_queues ps ! unat (th_cpu t)) ts k = (r', s', ts'')" and run: "pr_route f ps ts k = (r, ps', ts')"
  shows "isolated (unat (th_cpu t)) r' s' ps ts r ps' ts'"
proof -
  let ?c = "unat (th_cpu t)"
  have c: "?c < CPUS" using procs_invD(4) [OF inv t] .
  obtain qs where qs: "sched_inv (home_of ts ?c) (pr_queues ps ! ?c) ts qs" using procs_invD(5) [OF inv c] by blast
  have "k \<in> home_of ts ?c" using t by (simp add: home_of_def)
  then obtain qs' where "kept (home_of ts ?c) ts s' ts'' qs'" using keeps [OF qs _ at] by blast
  then have ts: "\<forall>k'. k' \<notin> home_of ts ?c \<longrightarrow> pool_map ts'' k' = pool_map ts k'"
    using keptD(2) altered_other by blast
  show ?thesis
    using run [unfolded route_eq [OF inv t at]] ts
    by (cases r') (auto simp: isolated_def Let_def pr_put_def split: if_splits)
qed

end

lemma stops_kept:
  assumes "sched_inv M s ts qs" "k \<in> M" "stops ev" "sc_leaves_the_processor s ts k ev = (r, s', ts')"
  shows "\<exists>qs'. kept M ts s' ts' qs'"
  using stops_effect [OF assms] kept_refl [OF assms(1)] by (cases r) auto

lemma start_kept:
  assumes "sched_inv M s ts qs" "k \<in> M" "sc_start s ts k = (r, s', ts')"
  shows "\<exists>qs'. kept M ts s' ts' qs'"
  using readies_kept [OF assms(1,2) _ assms(3) [unfolded sc_start_def]] by (auto simp: readies_def)

lemma resume_kept:
  assumes "sched_inv M s ts qs" "k \<in> M" "sc_resume s ts k = (r, s', ts')"
  shows "\<exists>qs'. kept M ts s' ts' qs'"
  using readies_kept [OF assms(1,2) _ assms(3) [unfolded sc_resume_def]] by (auto simp: readies_def)

interpretation start_op: sched_op sc_start
  by unfold_locales (rule start_kept)

interpretation resume_op: sched_op sc_resume
  by unfold_locales (rule resume_kept)

interpretation suspend_op: sched_op sc_suspend
  by unfold_locales (use stops_kept [where ev = EvSuspend] in \<open>simp add: sc_suspend_def stops_def\<close>)

interpretation fault_op: sched_op sc_fault
  by unfold_locales (use stops_kept [where ev = EvFault] in \<open>simp add: sc_fault_def stops_def\<close>)

interpretation yield_op: sched_op sc_yield_now
  by unfold_locales (use yield_kept in blast)

interpretation priority_op: sched_op "\<lambda>s threads oid. sc_set_priority s threads oid priority" for priority
  by unfold_locales (use set_priority_kept in blast)

lemma wake_kept:
  assumes inv: "sched_inv M s ts qs" and k: "k \<in> M" and run: "sc_on_wake s ts k = (r, s', ts')"
  shows "\<exists>qs'. kept M ts s' ts' qs'"
proof (cases "\<exists>t. pool_map ts k = Some t \<and> th_state t \<noteq> Ready")
  case True
  then have "and_then (sc_apply s ts k EvWake) (\<lambda>_ (s, threads). and_then (sc_enqueue s threads k) (\<lambda>_ (s, threads).
      (Inr (sc_preempts_current s threads k), s, threads))) = (r, s', ts')"
    using run by (auto simp: sc_on_wake_def pool_get_map)
  from readies_kept [OF inv k _ this] show ?thesis by (auto simp: readies_def)
next
  case False
  then have "s' = s" "ts' = ts" using run by (auto simp: sc_on_wake_def pool_get_map split: option.splits if_splits)
  then show ?thesis using kept_refl [OF inv] by blast
qed

interpretation wake_op: sched_op sc_on_wake
  by unfold_locales (rule wake_kept)

lemma block_kept:
  assumes "sched_inv M s ts qs" "k \<in> M" "sc_on_block s ts k ev = (r, s', ts')"
  shows "\<exists>qs'. kept M ts s' ts' qs'"
  using assms stops_kept [OF assms(1,2), of ev r s' ts'] kept_refl [OF assms(1)]
  by (cases "blocked_state ev = None") (auto simp: sc_on_block_def stops_def)

interpretation block_op: sched_op "\<lambda>s threads oid. sc_on_block s threads oid event" for event
  by unfold_locales (rule block_kept)

lemma block_until_kept:
  assumes "sched_inv M s ts qs" "k \<in> M" "sc_on_block_until s ts k ev d = (r, s', ts')"
  shows "\<exists>qs'. kept M ts s' ts' qs'"
  using block_until_effect [OF assms] kept_refl [OF assms(1)] by (cases r) auto

interpretation block_until_op: sched_op "\<lambda>s threads oid. sc_on_block_until s threads oid event deadline" for event deadline
  by unfold_locales (rule block_until_kept)

lemma exit_kept:
  assumes "sched_inv M s ts qs" "k \<in> M" "sc_exit s ts k = (r, s', ts')"
  shows "\<exists>qs'. kept M ts s' ts' qs'"
  using assms(3) stops_kept [OF assms(1,2), of EvExit r s' ts'] kept_refl [OF assms(1)]
  by (auto simp: sc_exit_def stops_def pool_get_map split: option.splits if_splits)

interpretation exit_op: sched_op sc_exit
  by unfold_locales (rule exit_kept)

section \<open>Threads come and go\<close>

definition fresh_thread :: "thread \<Rightarrow> bool" where
  "fresh_thread t \<longleftrightarrow> th_queue_links t = links_UNLINKED \<and> th_state t = Inactive \<and> th_deadline t = None \<and>
     th_deadline_index t = None \<and> unat (th_priority t) < 32"

lemma thread_new_fresh: "thread_new process priority max_priority stack frame = Inr t \<Longrightarrow> fresh_thread (thread_on_processor t cpu)"
  by (auto simp: thread_new_def fresh_thread_def thread_on_processor_def PRIORITY_COUNT_def word_le_nat_alt word_less_nat_alt split: if_splits)

lemma runq_create:
  assumes r: "runq M s ts qs" and new: "pool_map ts k = None" "pool_map ts' = (pool_map ts)(k \<mapsto> t)" "fresh_thread t"
  shows "runq (insert k M) s ts' qs"
proof -
  have old: "pool_map ts' k' = pool_map ts k'" if "pool_map ts k' \<noteq> None" for k' using that new by auto
  show ?thesis
    unfolding runq_def
  proof (intro conjI allI impI)
    fix p :: nat assume p: "p < 32"
    have "pool_map ts' k' = pool_map ts k'" if "k' \<in> set (qs p)" for k'
      using old runqD(4) [OF r that] by auto
    then show "queue_links.store.queue ts' (rq_head (sc_queues s ! p)) (rq_tail (sc_queues s ! p)) (qs p)"
      using queue_list_cong [OF runqD(2) [OF r p]] by simp
  next
    fix p k' assume k': "k' \<in> set (qs p)"
    note m = runqD(4) [OF r k']
    show "k' \<in> insert k M" "p < 32" using m by blast+
    show "\<exists>t. pool_map ts' k' = Some t \<and> unat (th_priority t) = p" using m old by auto
  next
    fix k' u assume "k' \<in> insert k M" "pool_map ts' k' = Some u" "\<not> queued qs k'"
    then show "th_queue_links u = links_UNLINKED"
      using new(2,3) runqD(5) [OF r] by (cases "k' = k") (auto simp: fresh_thread_def)
  qed (use runqD(1,3) [OF r] in simp_all)
qed

lemma dl_inv_create:
  assumes inv: "dl_inv M d ts" and new: "pool_map ts' = (pool_map ts)(k \<mapsto> t)" "fresh_thread t" and dlk: "k \<notin> dl_ids d"
  shows "dl_inv (insert k M) d ts'"
proof -
  have sync: "dl_sync M d ts" and len: "dl_len d \<le> length (dl_entries d)"
    using inv by (simp_all add: dl_inv_def dl_ok_def)
  have "dl_sync (insert k M) d ts'"
  proof (rule dl_syncI)
    fix k' u i assume a: "pool_map ts' k' = Some u" "i < dl_len d" "de_id (dl_entries d ! i) = k'"
    then have "k' \<noteq> k" using dl_id_in [OF a(2) len] dlk by auto
    then have "pool_map ts k' = Some u" using a(1) new(1) by simp
    then show "th_deadline_index u = Some i \<and> th_deadline u = Some (de_deadline (dl_entries d ! i))"
      using dl_syncD(1) [OF sync] a by blast
  next
    fix k' u assume a: "pool_map ts' k' = Some u" "k' \<in> insert k M"
      and none: "\<And>i. i < dl_len d \<Longrightarrow> de_id (dl_entries d ! i) \<noteq> k'"
    show "th_deadline_index u = None \<and> th_deadline u = None"
    proof (cases "k' = k")
      case False
      then have "pool_map ts k' = Some u" "k' \<in> M" using a new(1) by simp_all
      then show ?thesis using dl_syncD(2) [OF sync] none by blast
    qed (use a new in \<open>simp add: fresh_thread_def\<close>)
  qed
  then show ?thesis using inv by (simp add: dl_inv_def dl_ok_def)
qed

lemma sched_inv_create:
  assumes inv: "sched_inv M s ts qs" and new: "pool_map ts k = None" "pool_map ts' = (pool_map ts)(k \<mapsto> t)" "fresh_thread t"
    and pool: "pool_inv ts'"
  shows "sched_inv (insert k M) s ts' qs"
proof -
  have old: "pool_map ts' k' = pool_map ts k'" if "pool_map ts k' \<noteq> None" for k' using that new by auto
  have out: "\<not> queued qs k" using runqD(4) [OF sched_butD(2) [OF inv]] new(1) by fastforce
  have dlk: "k \<notin> dl_ids (sc_deadlines s)" using sched_butD(4) [OF inv] new(1) by blast
  have r: "runq (insert k M) s ts' qs" by (rule runq_create [OF sched_butD(2) [OF inv] new])
  have dl: "dl_inv (insert k M) (sc_deadlines s) ts'" by (rule dl_inv_create [OF sched_butD(3) [OF inv] new(2,3) dlk])
  show ?thesis
    unfolding sched_but_def
  proof (intro conjI allI impI ballI)
    fix k' assume "k' \<in> dl_ids (sc_deadlines s)"
    then show "pool_map ts' k' \<noteq> None" "k' \<in> insert k M" using sched_butD(4) [OF inv] old by auto
  next
    fix k' assume "sc_current s = Some k'" "sc_idle s \<noteq> Some k'"
    then show "pool_map ts' k' \<noteq> None" "k' \<in> insert k M" using sched_butD(8) [OF inv] old by auto
  next
    fix k' u assume u: "k' \<in> insert k M" "pool_map ts' k' = Some u"
    show "unat (th_priority u) < 32" "thread_ok s qs k' u"
    proof (atomize (full), cases "k' = k")
      case True
      then have "u = t" using u(2) new(2) by simp
      then show "unat (th_priority u) < 32 \<and> thread_ok s qs k' u"
        using new(3) out dlk True by (simp add: fresh_thread_def thread_ok_def)
    next
      case False
      then have "pool_map ts k' = Some u" "k' \<in> M" using u new(2) by simp_all
      then show "unat (th_priority u) < 32 \<and> thread_ok s qs k' u" using sched_butD(6,7) [OF inv] by simp
    qed
  next
    fix k' assume "sc_idle s = Some k'"
    then show "\<not> queued qs k'" by (rule sched_butD(5) [OF inv])
  qed (use pool r dl in simp_all)
qed

lemma runq_release:
  assumes rq: "runq M s ts qs" and out: "\<not> queued qs k" and gone: "pool_map ts' = (pool_map ts)(k := None)"
  shows "runq (M - {k}) s ts' qs"
proof -
  have old: "pool_map ts' k' = pool_map ts k'" if "k' \<noteq> k" for k' using that gone by simp
  show ?thesis
    unfolding runq_def
  proof (intro conjI allI impI)
    fix p :: nat assume p: "p < 32"
    have "pool_map ts' k' = pool_map ts k'" if "k' \<in> set (qs p)" for k' using old out that by metis
    then show "queue_links.store.queue ts' (rq_head (sc_queues s ! p)) (rq_tail (sc_queues s ! p)) (qs p)"
      using queue_list_cong [OF runqD(2) [OF rq p]] by simp
  next
    fix p k' assume k': "k' \<in> set (qs p)"
    note m = runqD(4) [OF rq k']
    have ne: "k' \<noteq> k" using out k' by metis
    show "k' \<in> M - {k}" "p < 32" using m ne by blast+
    show "\<exists>t. pool_map ts' k' = Some t \<and> unat (th_priority t) = p" using m old [OF ne] by simp
  next
    fix k' u assume k': "k' \<in> M - {k}" "pool_map ts' k' = Some u" "\<not> queued qs k'"
    then have "k' \<in> M" "pool_map ts k' = Some u" using old by auto
    then show "th_queue_links u = links_UNLINKED" using k'(3) by (rule runqD(5) [OF rq])
  qed (use runqD(1,3) [OF rq] in simp_all)
qed

lemma sched_inv_release:
  assumes inv: "sched_inv M s ts qs" and t: "k \<in> M" "pool_map ts k = Some t"
      "th_state t = Exited \<or> th_state t = Inactive \<and> sc_current s \<noteq> Some k" and gone: "pool_map ts' = (pool_map ts)(k := None)"
    and pool: "pool_inv ts'"
  shows "sched_inv (M - {k}) s ts' qs"
proof -
  have out: "\<not> queued qs k" by (rule not_queued [OF inv t(1,2)]) (use t(3) in auto)
  have dlk: "k \<notin> dl_ids (sc_deadlines s)" using sched_butD(7) [OF inv t(1,2)] t(3) by (auto simp: thread_ok_def)
  have cur: "sc_current s \<noteq> Some k" if "sc_idle s \<noteq> Some k" using sched_butD(7) [OF inv t(1,2)] t(3) that by (auto simp: thread_ok_def)
  have old: "pool_map ts' k' = pool_map ts k'" if "k' \<noteq> k" for k' using that gone by simp
  have r: "runq (M - {k}) s ts' qs" by (rule runq_release [OF sched_butD(2) [OF inv] out gone])
  have dl: "dl_inv (M - {k}) (sc_deadlines s) ts'"
  proof -
    have "dl_inv (M - {k}) (sc_deadlines s) ts"
      using sched_butD(3) [OF inv] by (simp add: dl_inv_def dl_ok_def dl_sync_def)
    moreover have "dl_ids (sc_deadlines s) \<subseteq> M - {k}" using sched_butD(4) [OF inv] dlk by blast
    ultimately show ?thesis using dl_inv_on [of "M - {k}" _ ts ts'] old by simp
  qed
  show ?thesis
    unfolding sched_but_def
  proof (intro conjI allI impI ballI)
    fix k' assume k': "k' \<in> dl_ids (sc_deadlines s)"
    then have "k' \<noteq> k" using dlk by blast
    then show "pool_map ts' k' \<noteq> None" "k' \<in> M - {k}" using sched_butD(4) [OF inv k'] old [of k'] by auto
  next
    fix k' assume k': "sc_current s = Some k'" "sc_idle s \<noteq> Some k'"
    then have "k' \<noteq> k" using cur by auto
    then show "pool_map ts' k' \<noteq> None" "k' \<in> M - {k}" using sched_butD(8) [OF inv k'] old [of k'] by auto
  next
    fix k' u assume u: "k' \<in> M - {k}" "pool_map ts' k' = Some u"
    then have "pool_map ts k' = Some u" "k' \<in> M" using old by auto
    then show "unat (th_priority u) < 32" "thread_ok s qs k' u" using sched_butD(6,7) [OF inv] by simp_all
  next
    fix k' assume "sc_idle s = Some k'"
    then show "\<not> queued qs k'" by (rule sched_butD(5) [OF inv])
  qed (use pool r dl in simp_all)
qed

section \<open>Every step keeps the invariant\<close>

lemma assign_loop_home:
  assumes "pr_assign_loop n homes ps = (cpu, ps')" and "pr_next_home ps < CPUS" and "bit homes 0"
  shows "unat cpu < CPUS \<and> bit homes (unat cpu) \<and> pr_next_home ps' < CPUS \<and> pr_queues ps' = pr_queues ps \<and>
    pr_caller ps' = pr_caller ps \<and> pr_pending ps' = pr_pending ps \<and> pr_online ps' = pr_online ps"
  using assms
proof (induction n arbitrary: ps)
  case 0
  then show ?case by (auto simp: CPUS_def)
next
  case (Suc n)
  let ?c = "pr_next_home ps"
  have c: "?c < 16" using Suc.prems(2) by (simp add: CPUS_def)
  have b: "and homes (push_bit ?c 1) \<noteq> 0 \<longleftrightarrow> bit homes ?c"
    by (rule bit_iff_and_push_bit_not_eq_0 [symmetric])
  have u: "unat (of_nat ?c :: u8) = ?c" using c by (simp add: unat_of_nat)
  show ?case
  proof (cases "bit homes ?c")
    case True
    then show ?thesis using Suc.prems(1) b c u by (auto simp: Let_def CPUS_def)
  next
    case False
    have "pr_assign_loop n homes (ps\<lparr>pr_next_home := (?c + 1) mod CPUS\<rparr>) = (cpu, ps')"
      using Suc.prems(1) b False by (simp add: Let_def)
    from Suc.IH [OF this _ Suc.prems(3)] show ?thesis by (simp add: CPUS_def)
  qed
qed

lemma assign_home:
  assumes "pr_assign ps = (cpu, ps')" and "pr_next_home ps < CPUS"
  shows "unat cpu < CPUS \<and> bit (or (pr_online ps) 1) (unat cpu) \<and> pr_next_home ps' < CPUS \<and> pr_queues ps' = pr_queues ps \<and>
    pr_caller ps' = pr_caller ps \<and> pr_pending ps' = pr_pending ps \<and> pr_online ps' = pr_online ps"
  by (rule assign_loop_home [OF assms(1) [unfolded pr_assign_def] assms(2)]) (simp add: bit_or_iff)

lemma procs_inv_fields:
  assumes "procs_inv ps ts" "pr_queues ps' = pr_queues ps" "pr_caller ps' < CPUS" "pr_next_home ps' < CPUS"
  shows "procs_inv ps' ts"
  using assms(1,3,4) unfolding procs_inv_def assms(2) by blast

lemma procs_inv_create:
  assumes inv: "procs_inv ps ts" and new: "pool_allocate ts t = (Inr k, ts')" "fresh_thread t" "unat (th_cpu t) < CPUS"
  shows "procs_inv ps ts'"
proof -
  obtain fl where "pool_wf ts fl" using procs_invD(3) [OF inv] by (auto simp: pool_inv_wf)
  then have m: "pool_map ts k = None" "pool_map ts' = (pool_map ts)(k \<mapsto> t)"
    using new(1) by (cases rule: pool_allocate_cases [where v = t]; auto)+
  have pool: "pool_inv ts'" using pool_inv_allocate [OF procs_invD(3) [OF inv], of t] new(1) by simp
  have home: "home_of ts' c = (if c = unat (th_cpu t) then insert k (home_of ts c) else home_of ts c)" for c
    using m by (auto simp: home_of_def split: if_splits)
  have "\<exists>qs. sched_inv (home_of ts' c) (pr_queues ps ! c) ts' qs" if c: "c < CPUS" for c
  proof -
    obtain qs where qs: "sched_inv (home_of ts c) (pr_queues ps ! c) ts qs" using procs_invD(5) [OF inv c] by blast
    have "pool_map ts' k' = pool_map ts k'" if "k' \<in> home_of ts c" for k' using that m by (auto simp: home_of_def)
    then show ?thesis
      using sched_inv_create [OF qs m new(2) pool] sched_inv_on [OF qs pool] by (cases "c = unat (th_cpu t)") (auto simp: home)
  qed
  moreover have "unat (th_cpu u) < CPUS" if "pool_map ts' k' = Some u" for k' u
    using that m new(3) procs_invD(4) [OF inv, of k'] by (auto split: if_splits)
  ultimately show ?thesis using procs_invD [OF inv] pool by (simp add: procs_inv_def)
qed

lemma procs_inv_release:
  assumes inv: "procs_inv ps ts" and k: "pool_map ts k = Some t"
      "th_state t = Exited \<or> th_state t = Inactive \<and> (\<forall>c < CPUS. sc_current (pr_queues ps ! c) \<noteq> Some k)"
  shows "procs_inv ps (snd (pool_force_release ts k))"
proof -
  let ?ts = "snd (pool_force_release ts k)"
  obtain fl where "pool_wf ts fl" using procs_invD(3) [OF inv] by (auto simp: pool_inv_wf)
  then have m: "pool_map ?ts = (pool_map ts)(k := None)" using pool_force_release_spec [OF _ k(1)] by (metis snd_conv)
  have pool: "pool_inv ?ts" by (rule pool_inv_force_release [OF procs_invD(3) [OF inv]])
  have home: "home_of ?ts c = home_of ts c - {k}" for c using m by (auto simp: home_of_def)
  have "\<exists>qs. sched_inv (home_of ?ts c) (pr_queues ps ! c) ?ts qs" if c: "c < CPUS" for c
  proof -
    obtain qs where qs: "sched_inv (home_of ts c) (pr_queues ps ! c) ts qs" using procs_invD(5) [OF inv c] by blast
    show ?thesis
    proof (cases "k \<in> home_of ts c")
      case True
      then show ?thesis using sched_inv_release [OF qs True k(1) _ m pool] k(2) c home by auto
    next
      case False
      have "pool_map ?ts k' = pool_map ts k'" if "k' \<in> home_of ts c" for k' using that m False by auto
      then have "sched_inv (home_of ts c) (pr_queues ps ! c) ?ts qs" using sched_inv_on [OF qs pool] by simp
      moreover have "home_of ?ts c = home_of ts c" using home False by simp
      ultimately show ?thesis by auto
    qed
  qed
  moreover have "unat (th_cpu u) < CPUS" if "pool_map ?ts k' = Some u" for k' u
    using that m procs_invD(4) [OF inv, of k'] by (auto split: if_splits)
  ultimately show ?thesis using procs_invD [OF inv] pool by (simp add: procs_inv_def)
qed

text \<open>A change of fields that the scheduler does not read.\<close>

lemma procs_inv_touch:
  assumes inv: "procs_inv ps ts" and f: "\<And>t. sview (f t) = sview t \<and> th_cpu (f t) = th_cpu t"
  shows "procs_inv ps (pool_modify ts k f)"
proof -
  let ?ts = "pool_modify ts k f"
  have cpu: "map_option th_cpu (pool_map ?ts k') = map_option th_cpu (pool_map ts k')" for k'
    using f by (cases "pool_map ts k") (auto simp: pool_map_modify_apply)
  have home: "home_of ?ts = home_of ts" by (rule ext, rule home_of_cong [OF cpu])
  have "\<exists>qs. sched_inv (home_of ?ts c) (pr_queues ps ! c) ?ts qs" if "c < CPUS" for c
    using procs_invD(5) [OF inv that] sched_but_modify [of "{}" "home_of ts c" _ ts _ f k] f unfolding home by metis
  moreover have "unat (th_cpu u) < CPUS" if "pool_map ?ts k' = Some u" for k' u
    using cpu [of k'] procs_invD(4) [OF inv, of k'] that by (cases "pool_map ts k'") auto
  ultimately show ?thesis
    using procs_invD [OF inv] pool_inv_modify by (simp add: procs_inv_def)
qed

lemma own_sched:
  assumes inv: "procs_inv ps ts" and own: "pr_own ps = Some s"
  obtains qs where "sched_inv (home_of ts (pr_caller ps)) s ts qs"
  using procs_invD(2,5) [OF inv] own by (auto simp: pr_own_def array_get_def split: if_splits)

lemma pick_kept:
  assumes inv: "sched_inv M s ts qs" and run: "sc_pick_next s ts = (r, s', ts')"
  shows "\<exists>qs'. kept M ts s' ts' qs'"
proof (cases "\<forall>p. put_back_queues s ts qs p = []")
  case True
  then show ?thesis using pick_idle_effect(2) [OF inv _ run] by blast
next
  case False
  obtain s1 ts1 where "kept M ts s1 ts1 (put_back_queues s ts qs)" using put_back_effect [OF inv] by metis
  then have rq: "runq M s1 ts1 (put_back_queues s ts qs)" using keptD(1) sched_butD(2) by blast
  obtain h where h: "sc_highest_ready s1 = Some h" using highest_ready_queues(1) [OF rq] False by (cases "sc_highest_ready s1") auto
  then show ?thesis
    using highest_ready_queues(2) [OF rq h] pick_ready_effect [OF inv _ _ run] by (cases "put_back_queues s ts qs (unat h)") blast+
qed

lemma procs_inv_expired_queues:
  assumes "pr_expired_queues ss ts now = (r, ss', ts')" and "pool_inv ts"
    and "\<And>i. i < length ss \<Longrightarrow> \<exists>qs. sched_inv (home_of ts (i + n)) (ss ! i) ts qs"
  shows "length ss' = length ss \<and> altered strip_sched (\<Union>i < length ss. home_of ts (i + n)) ts ts' \<and>
    (\<forall>i < length ss. \<exists>qs. sched_inv (home_of ts (i + n)) (ss' ! i) ts' qs)"
  using assms
proof (induction ss arbitrary: r ts n ss' ts')
  case (Cons s ss)
  obtain qs where qs: "sched_inv (home_of ts n) s ts qs" using Cons.prems(3) [of 0] by auto
  obtain r1 s1 ts1 where e: "sc_expired s ts now = (r1, s1, ts1)" by (metis surj_pair)
  have K: "kept (home_of ts n) ts s1 ts1 qs" using expired_kept [OF qs e] by blast
  note alt = keptD(2) [OF K]
  have own: "home_of ts n \<subseteq> (\<Union>i < length (s # ss). home_of ts (i + n))" by force
  have pool: "pool_inv ts1" using altered_inv [OF alt Cons.prems(2)] .
  have home: "home_of ts1 = home_of ts" by (rule ext, rule home_of_cong [OF altered_cpu [OF alt]])
  have rest: "\<exists>qs. sched_inv (home_of ts1 (i + Suc n)) (ss ! i) ts1 qs" if i: "i < length ss" for i
  proof -
    obtain q where q: "sched_inv (home_of ts (i + Suc n)) (ss ! i) ts q" using Cons.prems(3) [of "Suc i"] i by auto
    have "pool_map ts1 k = pool_map ts k" if "k \<in> home_of ts (i + Suc n)" for k
      using altered_other [OF alt, of k] home_of_disjoint [OF that, of n] by auto
    from sched_inv_on [OF q pool this] show ?thesis unfolding home by blast
  qed
  show ?case
  proof (cases r1)
    case (Some oid)
    then have s: "ss' = s1 # ss" "ts' = ts1" using Cons.prems(1) e by auto
    have "altered strip_sched (\<Union>i < length (s # ss). home_of ts (i + n)) ts ts'"
      unfolding s by (rule altered_mono [OF alt own])
    moreover have "\<exists>q. sched_inv (home_of ts (i + n)) (ss' ! i) ts' q" if "i < length (s # ss)" for i
      using that rest [of "i - 1"] keptD(1) [OF K] unfolding s home by (cases i) auto
    ultimately show ?thesis using s by simp
  next
    case None
    obtain r2 ss2 ts2 where e2: "pr_expired_queues ss ts1 now = (r2, ss2, ts2)" by (metis surj_pair)
    then have s: "ss' = s1 # ss2" "ts' = ts2" using Cons.prems(1) e None by auto
    note IH = Cons.IH [OF e2 pool rest, unfolded home]
    have alt2: "altered strip_sched (\<Union>i < length ss. home_of ts (i + Suc n)) ts1 ts2" using IH by blast
    have "altered strip_sched (\<Union>i < length (s # ss). home_of ts (i + n)) ts ts'"
    proof -
      have "(\<Union>i < length ss. home_of ts (i + Suc n)) \<subseteq> (\<Union>i < length (s # ss). home_of ts (i + n))" by force
      from altered_mono [OF alt2 this] show ?thesis
        unfolding s by (rule altered_trans [OF altered_mono [OF alt own]])
    qed
    moreover have "\<exists>q. sched_inv (home_of ts (i + n)) (ss' ! i) ts' q" if "i < length (s # ss)" for i
    proof (cases i)
      case 0
      have "pool_map ts2 k = pool_map ts1 k" if "k \<in> home_of ts n" for k
        using altered_other [OF alt2, of k] home_of_disjoint [OF that] by fastforce
      from sched_inv_on [OF keptD(1) [OF K] altered_inv [OF alt2 pool] this] show ?thesis using 0 s by auto
    qed (use IH that s in auto)
    ultimately show ?thesis using s IH by simp
  qed
qed simp

lemma procs_inv_expired:
  assumes inv: "procs_inv ps ts" and run: "pr_expired ps ts now = (r, ps', ts')"
  shows "procs_inv ps' ts'"
proof -
  obtain ss where e: "pr_expired_queues (pr_queues ps) ts now = (r, ss, ts')" "ps' = ps\<lparr>pr_queues := ss\<rparr>"
    using run by (auto simp: pr_expired_def split: prod.splits)
  note E = procs_inv_expired_queues [OF e(1) procs_invD(3) [OF inv], of 0]
  have E: "length ss = CPUS" "altered strip_sched (\<Union>i < CPUS. home_of ts i) ts ts'" "\<forall>i < CPUS. \<exists>qs. sched_inv (home_of ts i) (ss ! i) ts' qs"
    using E procs_invD(1,5) [OF inv] by simp_all
  have home: "home_of ts' = home_of ts" by (rule ext, rule home_of_cong [OF altered_cpu [OF E(2)]])
  have "unat (th_cpu u) < CPUS" if "pool_map ts' k' = Some u" for k' u
    using altered_cpu [OF E(2), of k'] procs_invD(4) [OF inv, of k'] that by (cases "pool_map ts k'") auto
  then show ?thesis
    using E home procs_invD [OF inv] altered_inv [OF E(2)] by (simp add: procs_inv_def e(2))
qed

text \<open>
  The steps of the kernel on the schedulers and the threads: the routed operations, what the calling
  processor does, a thread created with a home, the bring-up of an idle thread, an ended thread cleared
  away, a thread whose creation failed given back before it ever ran, and any change of a thread in fields that the scheduler does not read.
\<close>

inductive procs_step :: "processors \<times> thread pool \<Rightarrow> processors \<times> thread pool \<Rightarrow> bool" where
  start: "pr_start_thread ps ts k = (r, ps', ts') \<Longrightarrow> procs_step (ps, ts) (ps', ts')"
| wake: "pr_on_wake ps ts k = (r, ps', ts') \<Longrightarrow> procs_step (ps, ts) (ps', ts')"
| block: "pr_on_block ps ts k ev = (r, ps', ts') \<Longrightarrow> procs_step (ps, ts) (ps', ts')"
| block_until: "pr_on_block_until ps ts k ev d = (r, ps', ts') \<Longrightarrow> procs_step (ps, ts) (ps', ts')"
| suspend: "pr_suspend ps ts k = (r, ps', ts') \<Longrightarrow> procs_step (ps, ts) (ps', ts')"
| resume: "pr_resume ps ts k = (r, ps', ts') \<Longrightarrow> procs_step (ps, ts) (ps', ts')"
| fault: "pr_fault ps ts k = (r, ps', ts') \<Longrightarrow> procs_step (ps, ts) (ps', ts')"
| exit: "pr_exit ps ts k = (r, ps', ts') \<Longrightarrow> procs_step (ps, ts) (ps', ts')"
| yield: "pr_yield_now ps ts k = (r, ps', ts') \<Longrightarrow> procs_step (ps, ts) (ps', ts')"
| priority: "pr_set_priority ps ts k p = (r, ps', ts') \<Longrightarrow> procs_step (ps, ts) (ps', ts')"
| pick: "pr_pick_next ps ts = (res, ps', ts') \<Longrightarrow> procs_step (ps, ts) (ps', ts')"
| tick: "pr_tick ps ts = (out, ts') \<Longrightarrow> procs_step (ps, ts) (ps, ts')"
| expired: "pr_expired ps ts now = (oid, ps', ts') \<Longrightarrow> procs_step (ps, ts) (ps', ts')"
| select: "procs_step (ps, ts) (pr_select ps cpu, ts)"
| online: "procs_step (ps, ts) (pr_set_online ps cpu, ts)"
| pending: "procs_step (ps, ts) (snd (pr_take_pending ps), ts)"
| create: "pr_assign ps = (cpu, ps') \<Longrightarrow> thread_new process priority max_priority stack frame = Inr t \<Longrightarrow>
    pool_allocate ts (thread_on_processor t cpu) = (Inr k, ts') \<Longrightarrow> procs_step (ps, ts) (ps', ts')"
| idle: "pr_own ps = Some s \<Longrightarrow> sc_idle s = None \<Longrightarrow> sc_current s = None \<Longrightarrow> pool_map ts k = Some t \<Longrightarrow>
    unat (th_cpu t) = pr_caller ps \<Longrightarrow> th_state t = Inactive \<Longrightarrow> procs_step (ps, ts) (pr_adopt (pr_set_idle ps k) k, ts)"
| clear: "pool_map ts k = Some t \<Longrightarrow> th_state t = Exited \<Longrightarrow>
    procs_step (ps, ts) (pr_cleared ps, snd (pool_force_release ts k))"
| undo: "pool_map ts k = Some t \<Longrightarrow> th_state t = Inactive \<Longrightarrow> (\<forall>c < CPUS. sc_current (pr_queues ps ! c) \<noteq> Some k) \<Longrightarrow>
    procs_step (ps, ts) (ps, snd (pool_force_release ts k))"
| other: "(\<And>t. sview (f t) = sview t \<and> th_cpu (f t) = th_cpu t) \<Longrightarrow> procs_step (ps, ts) (ps, pool_modify ts k f)"

lemma procs_inv_own:
  assumes inv: "procs_inv ps ts" and own: "pr_own ps = Some s" and kept: "kept (home_of ts (pr_caller ps)) ts s' ts' qs'"
  shows "procs_inv (pr_put ps (pr_caller ps) s') ts'"
  by (rule procs_inv_put [OF inv procs_invD(2) [OF inv] kept])

lemma procs_inv_pick:
  assumes inv: "procs_inv ps ts" and run: "pr_pick_next ps ts = (r, ps', ts')"
  shows "procs_inv ps' ts'"
proof (cases "pr_own ps")
  case (Some s)
  obtain qs where qs: "sched_inv (home_of ts (pr_caller ps)) s ts qs" by (rule own_sched [OF inv Some])
  obtain r1 s1 ts1 where p: "sc_pick_next s ts = (r1, s1, ts1)" by (metis surj_pair)
  then have "ps' = pr_put ps (pr_caller ps) s1" "ts' = ts1" using run Some by (auto simp: pr_pick_next_def)
  then show ?thesis using pick_kept [OF qs p] procs_inv_own [OF inv Some] by blast
qed (use inv run in \<open>simp add: pr_pick_next_def\<close>)

lemma pr_put_same: "pr_own ps = Some s \<Longrightarrow> pr_put ps (pr_caller ps) s = ps"
  by (auto simp: pr_put_def pr_own_def array_get_def split: if_splits)

lemma procs_inv_tick:
  assumes inv: "procs_inv ps ts" and run: "pr_tick ps ts = (out, ts')"
  shows "procs_inv ps ts'"
proof (cases "pr_own ps")
  case (Some s)
  obtain qs where qs: "sched_inv (home_of ts (pr_caller ps)) s ts qs" by (rule own_sched [OF inv Some])
  have "sc_tick s ts = (out, ts')" using run Some by (simp add: pr_tick_def)
  from procs_inv_own [OF inv Some tick_kept [OF qs this]] show ?thesis by (simp add: pr_put_same [OF Some])
qed (use inv run in \<open>simp add: pr_tick_def\<close>)

lemma procs_inv_cleared:
  assumes inv: "procs_inv ps ts"
  shows "procs_inv (pr_cleared ps) ts"
proof (cases "pr_own ps")
  case (Some s)
  obtain qs where qs: "sched_inv (home_of ts (pr_caller ps)) s ts qs" by (rule own_sched [OF inv Some])
  have "sched_inv (home_of ts (pr_caller ps)) (sc_cleared s) ts qs"
    by (rule sched_but_frame [OF qs]) (simp_all add: procs_invD(3) [OF inv] sc_cleared_def)
  then show ?thesis using procs_inv_own [OF inv Some] Some by (simp add: pr_cleared_def kept_def)
qed (use inv in \<open>simp add: pr_cleared_def\<close>)

lemma procs_inv_idle:
  assumes inv: "procs_inv ps ts" and s: "pr_own ps = Some s" "sc_idle s = None" "sc_current s = None"
    and k: "pool_map ts k = Some t" "unat (th_cpu t) = pr_caller ps" "th_state t = Inactive"
  shows "procs_inv (pr_adopt (pr_set_idle ps k) k) ts"
proof -
  let ?M = "home_of ts (pr_caller ps)" and ?s = "s\<lparr>sc_idle := Some k, sc_current := Some k\<rparr>"
  obtain qs where qs: "sched_inv ?M s ts qs" by (rule own_sched [OF inv s(1)])
  have kM: "k \<in> ?M" using k by (simp add: home_of_def)
  have out: "\<not> queued qs k" by (rule not_queued [OF qs kM k(1)]) (simp_all add: k(3))
  have "sched_inv ?M ?s ts qs"
    unfolding sched_but_def
  proof (intro conjI allI impI ballI)
    show "runq ?M ?s ts qs" by (rule runq_frame [OF sched_butD(2) [OF qs]]) simp_all
    fix k' t' assume k': "k' \<in> ?M" "pool_map ts k' = Some t'"
    show "unat (th_priority t') < 32" using sched_butD(6) [OF qs k'] .
    show "thread_ok ?s qs k' t'" using sched_butD(7) [OF qs k'] s(2,3) by (auto simp: thread_ok_def)
  qed (use sched_butD(1,3,4) [OF qs] out in auto)
  moreover have "pr_adopt (pr_set_idle ps k) k = pr_put ps (pr_caller ps) ?s"
    using s(1) by (auto simp: pr_adopt_def pr_set_idle_def pr_own_def pr_put_def array_get_def sc_adopt_def sc_set_idle_def split: if_splits)
  ultimately show ?thesis using procs_inv_own [OF inv s(1)] by (simp add: kept_def)
qed

lemma procs_inv_step: "procs_step x y \<Longrightarrow> procs_inv (fst x) (snd x) \<Longrightarrow> procs_inv (fst y) (snd y)"
proof (induction rule: procs_step.induct)
  case (create ps cpu ps' process priority max_priority stack frame t ts k ts')
  then have inv: "procs_inv ps ts" by simp
  note A = assign_home [OF create(1) procs_invD(6) [OF inv]]
  have "procs_inv ps' ts" by (rule procs_inv_fields [OF inv]) (use A procs_invD(2) [OF inv] in simp_all)
  from procs_inv_create [OF this create(3) thread_new_fresh [OF create(2)]] A show ?case
    by (simp add: thread_on_processor_def)
next
  case (clear ts k t ps)
  then show ?case using procs_inv_release [OF procs_inv_cleared] by simp
next
  case (undo ts k t ps)
  then show ?case using procs_inv_release [of ps ts k t] by simp
next
  case (select ps ts cpu)
  then show ?case using procs_invD(2,6) by (auto intro: procs_inv_fields simp: pr_select_def CPUS_def)
next
  case (online ps ts cpu)
  then show ?case using procs_invD(2,6) by (auto intro: procs_inv_fields simp: pr_set_online_def)
next
  case (pending ps ts)
  then show ?case using procs_invD(2,6) by (auto intro: procs_inv_fields simp: pr_take_pending_def)
qed (auto simp: pr_start_thread_def pr_on_wake_def pr_on_block_def pr_on_block_until_def pr_suspend_def pr_resume_def pr_fault_def
    pr_exit_def pr_yield_now_def pr_set_priority_def
    intro: start_op.route_keeps wake_op.route_keeps block_op.route_keeps block_until_op.route_keeps suspend_op.route_keeps
      resume_op.route_keeps fault_op.route_keeps exit_op.route_keeps yield_op.route_keeps priority_op.route_keeps
      procs_inv_pick procs_inv_tick procs_inv_expired procs_inv_idle procs_inv_touch)

lemma procs_inv_new: "n < 2 ^ 32 \<Longrightarrow> procs_inv processors_new (pool_new n)"
proof -
  assume n: "n < 2 ^ 32"
  have "sched_inv (home_of (pool_new n) c) scheduler_new (pool_new n) (\<lambda>_. [])" for c
    by (rule sched_inv_new [OF pool_inv_new [OF n]]) simp
  then show ?thesis using pool_inv_new [OF n] by (auto simp: procs_inv_def processors_new_def CPUS_def)
qed

section \<open>Properties\<close>

text \<open>
  C35: the invariants of the schedulers hold in every state the kernel can reach from the empty machine,
  with threads that come and go and any interleaving of the operations of up to sixteen processors. For
  every processor there are lists of ready threads, one per priority, that its queues and its bitmap
  represent; a thread is in the list of its priority on its home processor exactly when it is ready and
  in no other; the deadlines are a heap of the threads that wait with one. In particular at most one
  thread of a processor runs, the one it names as current, besides its idle thread.
\<close>

theorem processors_invariant:
  assumes "n < 2 ^ 32" and "procs_step\<^sup>*\<^sup>* (processors_new, pool_new n) (ps, ts)"
  shows "procs_inv ps ts \<and>
    (\<forall>k t. pool_map ts k = Some t \<longrightarrow> th_state t = Running \<longrightarrow> unat (th_cpu t) < CPUS \<and>
       (sc_idle (pr_queues ps ! unat (th_cpu t)) \<noteq> Some k \<longrightarrow> sc_current (pr_queues ps ! unat (th_cpu t)) = Some k))"
proof -
  have "procs_inv (fst y) (snd y)" if "procs_step\<^sup>*\<^sup>* (processors_new, pool_new n) y" for y
    using that by (induction rule: rtranclp_induct) (use procs_inv_new [OF assms(1)] in \<open>auto intro: procs_inv_step\<close>)
  from this [OF assms(2)] have inv: "procs_inv ps ts" by simp
  have "sc_current (pr_queues ps ! unat (th_cpu t)) = Some k"
    if t: "pool_map ts k = Some t" "th_state t = Running" "sc_idle (pr_queues ps ! unat (th_cpu t)) \<noteq> Some k" for k t
  proof -
    obtain qs where "sched_inv (home_of ts (unat (th_cpu t))) (pr_queues ps ! unat (th_cpu t)) ts qs"
      using procs_invD(5) [OF inv procs_invD(4) [OF inv t(1)]] by blast
    moreover have "k \<in> home_of ts (unat (th_cpu t))" using t by (simp add: home_of_def)
    ultimately show ?thesis using running_is_current t by blast
  qed
  then show ?thesis using inv procs_invD(4) [OF inv] by blast
qed

text \<open>A first thread, created at home on processor 0 and started by the processor \<open>cpu\<close>.\<close>

definition example_procs :: "u8 \<Rightarrow> processors" where
  "example_procs cpu = pr_select (snd (pr_assign processors_new)) cpu"

lemma example_procs_step: "procs_step\<^sup>*\<^sup>* (processors_new, pool_new 2) (example_procs cpu, example_threads)"
proof -
  have "fst (pr_assign processors_new) = 0" by code_simp
  then have "pr_assign processors_new = (0, snd (pr_assign processors_new))" by (simp add: prod_eq_iff)
  moreover have "thread_new (ObjectId 0 1) 5 31 0 0 = Inr (example_thread 5)"
    by (simp add: example_thread_def thread_new_def PRIORITY_COUNT_def)
  moreover have "thread_on_processor (example_thread 5) 0 = example_thread 5"
    by (simp add: example_thread_def thread_new_def PRIORITY_COUNT_def thread_on_processor_def)
  moreover have "pool_allocate (pool_new 2) (example_thread 5) = (Inr (ObjectId 0 1), example_threads)"
    unfolding example_threads_def by (simp add: pool_eval)
  ultimately have "procs_step (processors_new, pool_new 2) (snd (pr_assign processors_new), example_threads)"
    by (auto intro: procs_step.create)
  then show ?thesis unfolding example_procs_def
    by (rule rtranclp.rtrancl_into_rtrancl [OF r_into_rtranclp]) (rule procs_step.select)
qed

lemma example_procs_fields:
  "pr_queues (example_procs cpu) = replicate CPUS scheduler_new" "pr_pending (example_procs cpu) = 0"
  "pr_caller (example_procs cpu) = min (unat cpu) 15"
proof -
  have "pr_queues (snd (pr_assign processors_new)) = replicate CPUS scheduler_new"
    "pr_pending (snd (pr_assign processors_new)) = 0"
    by code_simp+
  then show "pr_queues (example_procs cpu) = replicate CPUS scheduler_new" "pr_pending (example_procs cpu) = 0"
    "pr_caller (example_procs cpu) = min (unat cpu) 15"
    by (simp_all add: example_procs_def pr_select_def CPUS_def)
qed

lemma example_procs_inv: "procs_inv (example_procs cpu) example_threads"
proof -
  have "procs_inv (fst y) (snd y)" if "procs_step\<^sup>*\<^sup>* (processors_new, pool_new 2) y" for y
    using that by (induction rule: rtranclp_induct) (use procs_inv_new [of 2] in \<open>auto intro: procs_inv_step\<close>)
  from this [OF example_procs_step] show ?thesis by simp
qed

theorem processors_invariant_witness:
  "\<exists>ps ts t. procs_step\<^sup>*\<^sup>* (processors_new, pool_new 2) (ps, ts) \<and> pool_map ts (ObjectId 0 1) = Some t \<and>
     th_state t = Running \<and> sc_idle (pr_queues ps ! unat (th_cpu t)) \<noteq> Some (ObjectId 0 1) \<and>
     sc_current (pr_queues ps ! unat (th_cpu t)) = Some (ObjectId 0 1)"
proof -
  let ?k = "ObjectId 0 1"
  obtain s ts where s: "sc_start scheduler_new example_threads ?k = (Inr outcome_RESCHEDULE, s, ts)"
    "sched_inv UNIV s ts ((\<lambda>_. [])(5 := [?k]))" "sc_current s = None" "sc_idle s = None"
    by (rule example_started)
  obtain r s' ts' where pick: "sc_pick_next s ts = (r, s', ts')" by (metis surj_pair)
  have q: "put_back_queues s ts ((\<lambda>_. [])(5 := [?k])) = (\<lambda>_. [])(5 := [?k])"
    using s(3) by (simp add: put_back_queues_def)
  note P = pick_ready_effect [OF s(2) _ _ pick, unfolded q, of 5 ?k "[]"]
  have run: "\<exists>t. pool_map ts' ?k = Some t \<and> th_state t = Running" "sc_idle s' = None"
    using P s(4) by (auto simp: higher_ready_def)
  obtain ps1 where ps1: "pr_start_thread (example_procs 0) example_threads ?k = (Inr outcome_RESCHEDULE, ps1, ts)" "pr_own ps1 = Some s"
    "pr_caller ps1 = 0" "pr_queues ps1 = (replicate CPUS scheduler_new)[0 := s]"
    using s(1) start_op.route_eq [OF example_procs_inv example_threads_pool(2), of 0]
    by (auto simp: pr_start_thread_def example_procs_fields example_thread_fields CPUS_def pr_put_def pr_own_def array_get_def)
  define ps2 where "ps2 = pr_put ps1 0 s'"
  have "procs_step\<^sup>*\<^sup>* (example_procs 0, example_threads) (ps1, ts)"
    using procs_step.start [OF ps1(1)] by blast
  moreover have "procs_step (ps1, ts) (ps2, ts')"
    by (rule procs_step.pick [of _ _ r]) (simp add: pr_pick_next_def ps1 pick ps2_def)
  ultimately have reach: "procs_step\<^sup>*\<^sup>* (processors_new, pool_new 2) (ps2, ts')"
    using example_procs_step [of 0] by (meson rtranclp.rtrancl_into_rtrancl rtranclp_trans)
  obtain t where t: "pool_map ts' ?k = Some t" "th_state t = Running" using run(1) by blast
  have idle: "sc_idle (pr_queues ps2 ! c) = None" if "c < CPUS" for c
    using that run(2) by (auto simp: ps2_def pr_put_def ps1 nth_list_update scheduler_new_def)
  have "unat (th_cpu t) < CPUS \<and> (sc_idle (pr_queues ps2 ! unat (th_cpu t)) \<noteq> Some ?k \<longrightarrow>
      sc_current (pr_queues ps2 ! unat (th_cpu t)) = Some ?k)"
    using processors_invariant [OF _ reach] t by simp
  with t reach idle show ?thesis by (metis option.distinct(1))
qed

text \<open>
  The operations that are routed to the home of a thread, each with the operation of the scheduler.
\<close>

inductive routed ::
  "(processors \<Rightarrow> thread pool \<Rightarrow> object_id \<Rightarrow> (error + outcome) \<times> processors \<times> thread pool) \<Rightarrow>
   (scheduler \<Rightarrow> thread pool \<Rightarrow> object_id \<Rightarrow> (error + outcome) \<times> scheduler \<times> thread pool) \<Rightarrow> bool" where
  "routed pr_start_thread sc_start"
| "routed pr_on_wake sc_on_wake"
| "routed (\<lambda>ps ts k. pr_on_block ps ts k ev) (\<lambda>s ts k. sc_on_block s ts k ev)"
| "routed (\<lambda>ps ts k. pr_on_block_until ps ts k ev d) (\<lambda>s ts k. sc_on_block_until s ts k ev d)"
| "routed pr_suspend sc_suspend"
| "routed pr_resume sc_resume"
| "routed pr_fault sc_fault"
| "routed pr_exit sc_exit"
| "routed pr_yield_now sc_yield_now"
| "routed (\<lambda>ps ts k. pr_set_priority ps ts k p) (\<lambda>s ts k. sc_set_priority s ts k p)"

lemmas routed_axioms = start_op.sched_op_axioms wake_op.sched_op_axioms block_op.sched_op_axioms
  block_until_op.sched_op_axioms suspend_op.sched_op_axioms resume_op.sched_op_axioms fault_op.sched_op_axioms
  exit_op.sched_op_axioms yield_op.sched_op_axioms priority_op.sched_op_axioms

lemma routed_op: "routed pr sc \<Longrightarrow> pr = pr_route sc \<and> sched_op sc"
  by (induction rule: routed.induct)
    (intro conjI routed_axioms, simp add: fun_eq_iff pr_start_thread_def pr_on_wake_def pr_on_block_def pr_on_block_until_def
      pr_suspend_def pr_resume_def pr_fault_def pr_exit_def pr_yield_now_def pr_set_priority_def)+

text \<open>
  C36: an operation on a thread acts on its home processor alone. Whichever processor makes the call, the
  home's scheduler becomes what its own operation leaves, the schedulers of the other processors and
  their threads stay as they are, and a wish to reschedule reaches the caller only when it is the home;
  otherwise it becomes the pending bit of the home and the caller is told of nothing to do. The bit is set
  for that wish only, not for every thread made ready elsewhere, and \<open>yield_now\<close> is routed to the home like
  the others; section 16.22 of the document on more than one processor describes both differently. A
  stale name is refused with \<open>InvalidHandle\<close> and changes nothing.
\<close>

theorem processors_isolation:
  assumes "routed pr sc" and "procs_inv ps ts" and "pr ps ts k = (r, ps', ts')"
  shows "case pool_map ts k of
      None \<Rightarrow> r = Inl InvalidHandle \<and> ps' = ps \<and> ts' = ts
    | Some t \<Rightarrow> let c = unat (th_cpu t) in
        case sc (pr_queues ps ! c) ts k of (r', s', ts'') \<Rightarrow> ts' = ts'' \<and> isolated c r' s' ps ts r ps' ts'"
proof -
  have pr: "pr = pr_route sc" and op: "sched_op sc" using routed_op [OF assms(1)] by simp_all
  show ?thesis
  proof (cases "pool_map ts k")
    case None
    then show ?thesis using sched_op.route_stale [OF op None] assms(3) by (simp add: pr)
  next
    case (Some t)
    obtain r' s' ts'' where f: "sc (pr_queues ps ! unat (th_cpu t)) ts k = (r', s', ts'')" by (metis surj_pair)
    have "isolated (unat (th_cpu t)) r' s' ps ts r ps' ts'"
      using sched_op.route_isolated [OF op assms(2) Some f] assms(3) by (simp add: pr)
    moreover have "ts' = ts''"
      using sched_op.route_eq [OF op assms(2) Some f] assms(3) by (auto simp: pr Let_def split: sum.splits)
    ultimately show ?thesis using Some f by (simp add: Let_def)
  qed
qed

theorem processors_isolation_witness:
  "\<exists>ps' ts'. pr_start_thread (example_procs 1) example_threads (ObjectId 0 1) = (Inr outcome_NOTHING, ps', ts') \<and>
     pr_pending ps' = 1 \<and> pr_queues ps' ! 1 = scheduler_new"
proof -
  obtain s ts where s: "sc_start scheduler_new example_threads (ObjectId 0 1) = (Inr outcome_RESCHEDULE, s, ts)"
    by (rule example_started)
  obtain r ps' ts' where run: "pr_start_thread (example_procs 1) example_threads (ObjectId 0 1) = (r, ps', ts')" by (metis surj_pair)
  from processors_isolation [OF routed.intros(1) example_procs_inv run] run s show ?thesis
    by (auto simp: example_threads_pool example_thread_fields example_procs_fields CPUS_def isolated_def outcome_RESCHEDULE_def)
qed

end
