(* ===== verification/IpcBuffer.thy ===== *)
theory IpcBuffer
  imports Abi
begin

text \<open>
  The IPC buffer, \<open>src/crates/abi/src/ipc_buffer.rs\<close>: the page that a thread and the kernel exchange
  everything through. A buffer \<open>[u8; SIZE]\<close> is a list of bytes, \<open>Buffer\<close> and \<open>BufferMut\<close> are the list
  itself, and \<open>Status(u64)\<close> is the word. The accessors compute an offset and read or write the eight
  bytes there; the lemmas read the page as one list of words (\<open>page_words\<close>), where a write of a field is
  the update of one element.
\<close>

section \<open>Layout\<close>

definition IPC_BUFFER_SIZE :: u64 where "IPC_BUFFER_SIZE = PAGE_SIZE"

definition MAX_SYSCALL_ARGUMENTS :: nat where "MAX_SYSCALL_ARGUMENTS = 6"

definition MAX_SYSCALL_RETURN_WORDS :: nat where "MAX_SYSCALL_RETURN_WORDS = 2"

definition SIZE :: nat where "SIZE = unat IPC_BUFFER_SIZE"

definition WORD :: nat where "WORD = 8"

definition SYSCALL_NUMBER :: nat where "SYSCALL_NUMBER = 0"

definition ARGS :: nat where "ARGS = 8"

definition STATUS :: nat where "STATUS = 56"

definition RETURN :: nat where "RETURN = 64"

definition MESSAGE :: nat where "MESSAGE = 128"

definition LABEL :: nat where "LABEL = MESSAGE"

definition WORD_COUNT :: nat where "WORD_COUNT = 136"

definition HANDLE_COUNT :: nat where "HANDLE_COUNT = 144"

definition HANDLES :: nat where "HANDLES = 152"

definition WORDS :: nat where "WORDS = 184"

lemmas layout_defs = IPC_BUFFER_SIZE_def MAX_SYSCALL_ARGUMENTS_def MAX_SYSCALL_RETURN_WORDS_def SIZE_def WORD_def
  SYSCALL_NUMBER_def ARGS_def STATUS_def RETURN_def MESSAGE_def LABEL_def WORD_COUNT_def HANDLE_COUNT_def HANDLES_def
  WORDS_def PAGE_SIZE_def MAX_MESSAGE_WORDS_def MAX_MESSAGE_HANDLES_def

definition KERNEL_LABEL_BASE :: u64 where "KERNEL_LABEL_BASE = 0xFFFFFFFFFFFFFF00"

definition FAULT_LABEL_BASE :: u64 where "FAULT_LABEL_BASE = KERNEL_LABEL_BASE"

definition fault_label :: "fault_kind \<Rightarrow> u64" where
  "fault_label kind = FAULT_LABEL_BASE + ucast (fault_kind_code kind)"

definition fault_kind_of :: "u64 \<Rightarrow> fault_kind option" where
  "fault_kind_of label =
     (case checked_sub label FAULT_LABEL_BASE of
        None \<Rightarrow> None
      | Some code \<Rightarrow> fault_kind_from_code (ucast (ucast code :: u8)))"

definition is_kernel_label :: "u64 \<Rightarrow> bool" where
  "is_kernel_label label \<longleftrightarrow> KERNEL_LABEL_BASE \<le> label"

definition word_offset :: "nat \<Rightarrow> nat option" where
  "word_offset index = (if MAX_MESSAGE_WORDS \<le> index then None else Some (index * WORD + WORDS))"

definition handle_offset :: "nat \<Rightarrow> nat option" where
  "handle_offset index = (if MAX_MESSAGE_HANDLES \<le> index then None else Some (index * WORD + HANDLES))"

definition argument_offset :: "nat \<Rightarrow> nat option" where
  "argument_offset index = (if MAX_SYSCALL_ARGUMENTS \<le> index then None else Some (index * WORD + ARGS))"

definition return_offset :: "nat \<Rightarrow> nat option" where
  "return_offset index = (if MAX_SYSCALL_RETURN_WORDS \<le> index then None else Some (index * WORD + RETURN))"

section \<open>Status words\<close>

type_synonym status = u64

definition PARTIAL_BIT :: u64 where "PARTIAL_BIT = push_bit 32 1"

definition ERROR_MASK :: u64 where "ERROR_MASK = 0xFFFFFFFF"

definition status_OK :: status where "status_OK = 0"

definition status_PARTIAL :: status where "status_PARTIAL = PARTIAL_BIT"

definition status_failed :: "error \<Rightarrow> status" where
  "status_failed error = ucast (error_code error)"

definition status_from_raw :: "u64 \<Rightarrow> error + status" where
  "status_from_raw raw =
     (if and raw (not (or ERROR_MASK PARTIAL_BIT)) \<noteq> 0 then Inl InvalidArgument
      else let code = and raw ERROR_MASK
        in if code = 0 then Inr raw
           else if and raw PARTIAL_BIT \<noteq> 0 then Inl InvalidArgument
           else case error_from_code (ucast code) of
                  Some _ \<Rightarrow> Inr raw
                | None \<Rightarrow> Inl InvalidArgument)"

definition status_error :: "status \<Rightarrow> error option" where
  "status_error s =
     (let code = and s ERROR_MASK in if code = 0 then None else error_from_code (ucast code))"

definition status_is_partial :: "status \<Rightarrow> bool" where
  "status_is_partial s \<longleftrightarrow> and s PARTIAL_BIT \<noteq> 0"

definition status_is_success :: "status \<Rightarrow> bool" where
  "status_is_success s \<longleftrightarrow> and s ERROR_MASK = 0"

section \<open>Messages\<close>

datatype message_error = TooManyWords | TooManyHandles

fun error_of_message_error :: "message_error \<Rightarrow> error" where
  "error_of_message_error TooManyWords = InvalidArgument"
| "error_of_message_error TooManyHandles = InvalidArgument"

record message =
  ms_label :: u64
  ms_word_count :: nat
  ms_handle_count :: nat

definition message_is_kernel_label :: "message \<Rightarrow> bool" where
  "message_is_kernel_label m = is_kernel_label (ms_label m)"

definition message_fault_kind :: "message \<Rightarrow> fault_kind option" where
  "message_fault_kind m = fault_kind_of (ms_label m)"

section \<open>The bytes\<close>

type_synonym buffer = "u8 list"

text \<open>\<open>u64::to_le_bytes\<close> and \<open>u64::from_le_bytes\<close>.\<close>

definition to_le_bytes :: "u64 \<Rightarrow> u8 list" where
  "to_le_bytes w = map (\<lambda>i. ucast (drop_bit (8 * i) w)) [0..<8]"

primrec from_le_bytes :: "u8 list \<Rightarrow> u64" where
  "from_le_bytes [] = 0"
| "from_le_bytes (b # bs) = or (ucast b) (push_bit 8 (from_le_bytes bs))"

definition read_word :: "buffer \<Rightarrow> nat \<Rightarrow> u64 option" where
  "read_word bytes offset =
     (if offset + WORD \<le> length bytes then Some (from_le_bytes (take WORD (drop offset bytes))) else None)"

definition write_word :: "buffer \<Rightarrow> nat \<Rightarrow> u64 \<Rightarrow> bool \<times> buffer" where
  "write_word bytes offset value =
     (if offset + WORD \<le> length bytes
      then (True, take offset bytes @ to_le_bytes value @ drop (offset + WORD) bytes)
      else (False, bytes))"

section \<open>Reading a buffer\<close>

definition unwrap_or :: "'a option \<Rightarrow> 'a \<Rightarrow> 'a" where
  "unwrap_or x d = (case x of None \<Rightarrow> d | Some v \<Rightarrow> v)"

definition buf_syscall_number :: "buffer \<Rightarrow> u64" where
  "buf_syscall_number bytes = unwrap_or (read_word bytes SYSCALL_NUMBER) 0"

definition buf_argument :: "buffer \<Rightarrow> nat \<Rightarrow> u64 option" where
  "buf_argument bytes index = Option.bind (argument_offset index) (read_word bytes)"

definition buf_arguments :: "buffer \<Rightarrow> u64 list" where
  "buf_arguments bytes = map (\<lambda>index. unwrap_or (buf_argument bytes index) 0) [0..<MAX_SYSCALL_ARGUMENTS]"

definition buf_status :: "buffer \<Rightarrow> error + status" where
  "buf_status bytes = status_from_raw (unwrap_or (read_word bytes STATUS) 0)"

definition buf_return_word :: "buffer \<Rightarrow> nat \<Rightarrow> u64 option" where
  "buf_return_word bytes index = Option.bind (return_offset index) (read_word bytes)"

definition buf_message :: "buffer \<Rightarrow> message_error + message" where
  "buf_message bytes =
     (let label = unwrap_or (read_word bytes LABEL) 0;
          words = unwrap_or (read_word bytes WORD_COUNT) 0;
          handles = unwrap_or (read_word bytes HANDLE_COUNT) 0;
          word_count = unat words
      in if MAX_MESSAGE_WORDS < word_count then Inl TooManyWords
         else let handle_count = unat handles
           in if MAX_MESSAGE_HANDLES < handle_count then Inl TooManyHandles
              else Inr \<lparr>ms_label = label, ms_word_count = word_count, ms_handle_count = handle_count\<rparr>)"

definition buf_word :: "buffer \<Rightarrow> nat \<Rightarrow> u64 option" where
  "buf_word bytes index = Option.bind (word_offset index) (read_word bytes)"

definition buf_handle_word :: "buffer \<Rightarrow> nat \<Rightarrow> u64 option" where
  "buf_handle_word bytes index = Option.bind (handle_offset index) (read_word bytes)"

definition buf_handle :: "buffer \<Rightarrow> nat \<Rightarrow> handle option" where
  "buf_handle bytes index = Option.bind (buf_handle_word bytes index) handle_from_raw"

section \<open>Writing a buffer\<close>

definition write_at :: "buffer \<Rightarrow> nat option \<Rightarrow> u64 \<Rightarrow> bool \<times> buffer" where
  "write_at bytes offset value =
     (case offset of None \<Rightarrow> (False, bytes) | Some offset \<Rightarrow> write_word bytes offset value)"

definition buf_set_syscall_number :: "buffer \<Rightarrow> u64 \<Rightarrow> buffer" where
  "buf_set_syscall_number bytes number = snd (write_word bytes SYSCALL_NUMBER number)"

definition buf_set_argument :: "buffer \<Rightarrow> nat \<Rightarrow> u64 \<Rightarrow> bool \<times> buffer" where
  "buf_set_argument bytes index value = write_at bytes (argument_offset index) value"

definition buf_set_status :: "buffer \<Rightarrow> status \<Rightarrow> buffer" where
  "buf_set_status bytes status = snd (write_word bytes STATUS status)"

definition buf_set_return_word :: "buffer \<Rightarrow> nat \<Rightarrow> u64 \<Rightarrow> bool \<times> buffer" where
  "buf_set_return_word bytes index value = write_at bytes (return_offset index) value"

definition buf_set_label :: "buffer \<Rightarrow> u64 \<Rightarrow> buffer" where
  "buf_set_label bytes label = snd (write_word bytes LABEL label)"

definition buf_set_counts :: "buffer \<Rightarrow> nat \<Rightarrow> nat \<Rightarrow> (message_error + unit) \<times> buffer" where
  "buf_set_counts bytes word_count handle_count =
     (if MAX_MESSAGE_WORDS < word_count then (Inl TooManyWords, bytes)
      else if MAX_MESSAGE_HANDLES < handle_count then (Inl TooManyHandles, bytes)
      else let bytes = snd (write_word bytes WORD_COUNT (of_nat word_count));
               bytes = snd (write_word bytes HANDLE_COUNT (of_nat handle_count))
        in (Inr (), bytes))"

definition buf_set_word :: "buffer \<Rightarrow> nat \<Rightarrow> u64 \<Rightarrow> bool \<times> buffer" where
  "buf_set_word bytes index value = write_at bytes (word_offset index) value"

definition buf_set_handle_word :: "buffer \<Rightarrow> nat \<Rightarrow> u64 \<Rightarrow> bool \<times> buffer" where
  "buf_set_handle_word bytes index value = write_at bytes (handle_offset index) value"

definition buf_set_handle :: "buffer \<Rightarrow> nat \<Rightarrow> handle \<Rightarrow> bool \<times> buffer" where
  "buf_set_handle bytes index handle = buf_set_handle_word bytes index (handle_raw handle)"

primrec buf_clear_returns :: "nat list \<Rightarrow> buffer \<Rightarrow> buffer" where
  "buf_clear_returns [] bytes = bytes"
| "buf_clear_returns (index # rest) bytes = buf_clear_returns rest (snd (buf_set_return_word bytes index 0))"

definition buf_clear_result :: "buffer \<Rightarrow> buffer" where
  "buf_clear_result bytes =
     buf_clear_returns [0..<MAX_SYSCALL_RETURN_WORDS] (snd (write_word bytes STATUS 0))"

section \<open>Words and bytes\<close>

lemma length_to_le_bytes [simp]: "length (to_le_bytes w) = 8"
  by (simp add: to_le_bytes_def)

lemma bit_from_le_bytes:
  "bit (from_le_bytes bs) n \<longleftrightarrow> n < 64 \<and> n div 8 < length bs \<and> bit (bs ! (n div 8)) (n mod 8)"
proof (induction bs arbitrary: n)
  case (Cons b bs)
  show ?case
  proof (cases "n < 8")
    case True
    then show ?thesis by (auto simp: bit_simps)
  next
    case False
    then have "n div 8 = Suc ((n - 8) div 8)" "(n - 8) mod 8 = n mod 8"
      by (simp_all add: le_div_geq le_mod_geq)
    moreover have "\<not> bit b n" using False bit_imp_le_length [of b n] by auto
    ultimately show ?thesis using False Cons.IH [of "n - 8"] by (auto simp: bit_simps)
  qed
qed simp

lemma from_to_le_bytes [simp]: "from_le_bytes (to_le_bytes w) = w"
proof (rule bit_word_eqI)
  fix n assume "n < LENGTH(64)"
  then have n: "n < 64" "n div 8 < 8" by simp_all
  have "8 * (n div 8) + n mod 8 = n" by simp
  then show "bit (from_le_bytes (to_le_bytes w)) n \<longleftrightarrow> bit w n"
    using n unfolding bit_from_le_bytes by (simp add: to_le_bytes_def bit_simps)
qed

section \<open>The page as words\<close>

text \<open>The words of a page: the one at position \<open>i\<close> has the offset \<open>8 * i\<close>.\<close>

definition page_words :: "buffer \<Rightarrow> u64 list" where
  "page_words bytes = map (\<lambda>i. from_le_bytes (take 8 (drop (8 * i) bytes))) [0..<length bytes div 8]"

lemma length_page_words [simp]: "length (page_words bytes) = length bytes div 8"
  by (simp add: page_words_def)

lemma SIZE_eq: "SIZE = 4096"
  by (simp add: layout_defs)

lemma read_page: "length bytes = SIZE \<Longrightarrow> i < 512 \<Longrightarrow> read_word bytes (8 * i) = Some (page_words bytes ! i)"
  by (simp add: read_word_def page_words_def SIZE_eq WORD_def)

lemma write_page:
  assumes "length bytes = SIZE" and "i < 512"
  obtains bytes' where "write_word bytes (8 * i) v = (True, bytes')" "length bytes' = SIZE"
    "page_words bytes' = (page_words bytes)[i := v]"
proof -
  define bytes' where "bytes' = take (8 * i) bytes @ to_le_bytes v @ drop (8 * i + 8) bytes"
  have len: "length bytes' = SIZE" using assms by (simp add: bytes'_def SIZE_eq)
  have "page_words bytes' = (page_words bytes)[i := v]"
  proof (rule nth_equalityI)
    show "length (page_words bytes') = length ((page_words bytes)[i := v])" using len assms(1) by simp
    fix j assume "j < length (page_words bytes')"
    then have j: "j < 512" using len by (simp add: SIZE_eq)
    have pw: "page_words bs ! j = from_le_bytes (take 8 (drop (8 * j) bs))" if "length bs = SIZE" for bs
      using j that by (simp add: page_words_def SIZE_eq)
    consider "j < i" | "j = i" | "i < j" by linarith
    then have "take 8 (drop (8 * j) bytes') = (if j = i then to_le_bytes v else take 8 (drop (8 * j) bytes))"
    proof cases
      case 1
      then have "8 \<le> 8 * i - 8 * j" "8 \<le> 4096 - 8 * j" using j by simp_all
      then show ?thesis using 1 assms(1) by (simp add: bytes'_def SIZE_eq drop_take)
    next
      case 2
      then show ?thesis using assms by (simp add: bytes'_def SIZE_eq)
    next
      case 3
      then have "8 * j - 8 * i - 8 + (8 * i + 8) = 8 * j" "8 \<le> 8 * j - 8 * i" by simp_all
      then show ?thesis using 3 assms by (simp add: bytes'_def SIZE_eq)
    qed
    then show "page_words bytes' ! j = (page_words bytes)[i := v] ! j"
      using j assms len pw by (simp add: nth_list_update SIZE_eq)
  qed
  moreover have "write_word bytes (8 * i) v = (True, bytes')"
    using assms by (simp add: write_word_def bytes'_def SIZE_eq WORD_def)
  ultimately show thesis using that len by blast
qed

section \<open>The view of a buffer\<close>

text \<open>What a buffer means: the values of its fields.\<close>

record buffer_view =
  bv_number :: u64
  bv_arguments :: "u64 list"
  bv_status :: u64
  bv_returns :: "u64 list"
  bv_label :: u64
  bv_word_count :: u64
  bv_handle_count :: u64
  bv_handles :: "u64 list"
  bv_words :: "u64 list"

definition field_words :: "nat \<Rightarrow> nat \<Rightarrow> 'a list \<Rightarrow> 'a list" where
  "field_words start count ws = take count (drop start ws)"

definition words_view :: "u64 list \<Rightarrow> buffer_view" where
  "words_view ws = \<lparr>bv_number = ws ! 0, bv_arguments = field_words 1 6 ws, bv_status = ws ! 7, bv_returns = field_words 8 2 ws,
     bv_label = ws ! 16, bv_word_count = ws ! 17, bv_handle_count = ws ! 18, bv_handles = field_words 19 4 ws,
     bv_words = field_words 23 480 ws\<rparr>"

definition buf_view :: "buffer \<Rightarrow> buffer_view" where
  "buf_view bytes = words_view (page_words bytes)"

lemma field_words_update:
  "field_words s n (ws[i := v]) = (if s \<le> i \<and> i < s + n then (field_words s n ws)[i - s := v] else field_words s n ws)"
proof (cases "s \<le> i")
  case True
  have "field_words s n (ws[i := v]) = (field_words s n ws)[i - s := v]"
    using True by (simp add: field_words_def drop_update_swap take_update_swap)
  moreover have "(field_words s n ws)[i - s := v] = field_words s n ws" if "s + n \<le> i"
    using that by (intro list_update_beyond) (simp add: field_words_def)
  ultimately show ?thesis using True by auto
qed (simp add: field_words_def drop_update_cancel)

lemma words_view_update:
  assumes "length ws = 512" and "i < 512"
  shows "words_view (ws[i := v]) =
    (if i = 0 then (words_view ws)\<lparr>bv_number := v\<rparr>
     else if i < 7 then (words_view ws)\<lparr>bv_arguments := (bv_arguments (words_view ws))[i - 1 := v]\<rparr>
     else if i = 7 then (words_view ws)\<lparr>bv_status := v\<rparr>
     else if i < 10 then (words_view ws)\<lparr>bv_returns := (bv_returns (words_view ws))[i - 8 := v]\<rparr>
     else if i < 16 then words_view ws
     else if i = 16 then (words_view ws)\<lparr>bv_label := v\<rparr>
     else if i = 17 then (words_view ws)\<lparr>bv_word_count := v\<rparr>
     else if i = 18 then (words_view ws)\<lparr>bv_handle_count := v\<rparr>
     else if i < 23 then (words_view ws)\<lparr>bv_handles := (bv_handles (words_view ws))[i - 19 := v]\<rparr>
     else if i < 503 then (words_view ws)\<lparr>bv_words := (bv_words (words_view ws))[i - 23 := v]\<rparr>
     else words_view ws)"
  using assms by (simp add: words_view_def field_words_update nth_list_update)

text \<open>The offsets as positions of words.\<close>

lemma offsets:
  "SYSCALL_NUMBER = 8 * 0" "STATUS = 8 * 7" "LABEL = 8 * 16" "WORD_COUNT = 8 * 17" "HANDLE_COUNT = 8 * 18"
  "argument_offset i = (if i < 6 then Some (8 * (1 + i)) else None)"
  "return_offset i = (if i < 2 then Some (8 * (8 + i)) else None)"
  "handle_offset i = (if i < 4 then Some (8 * (19 + i)) else None)"
  "word_offset i = (if i < 480 then Some (8 * (23 + i)) else None)"
  by (simp_all add: layout_defs argument_offset_def return_offset_def handle_offset_def word_offset_def)

lemma write_word_view:
  assumes "length bytes = SIZE" and "i < 512"
  shows "fst (write_word bytes (8 * i) v)" "length (snd (write_word bytes (8 * i) v)) = SIZE"
    "buf_view (snd (write_word bytes (8 * i) v)) = words_view ((page_words bytes)[i := v])"
  using write_page [OF assms, of v] unfolding buf_view_def by (metis fst_conv, metis snd_conv, metis snd_conv)

lemma view_lengths:
  assumes "length bytes = SIZE"
  shows "length (bv_arguments (buf_view bytes)) = 6" "length (bv_returns (buf_view bytes)) = 2"
    "length (bv_handles (buf_view bytes)) = 4" "length (bv_words (buf_view bytes)) = 480"
  using assms by (simp_all add: buf_view_def words_view_def field_words_def SIZE_eq)

lemma read_number_view: "length bytes = SIZE \<Longrightarrow> buf_syscall_number bytes = bv_number (buf_view bytes)"
  using read_page [of bytes 0] by (simp add: buf_syscall_number_def offsets buf_view_def words_view_def unwrap_or_def)

lemma read_status_view: "length bytes = SIZE \<Longrightarrow> buf_status bytes = status_from_raw (bv_status (buf_view bytes))"
  using read_page [of bytes 7] by (simp add: buf_status_def offsets buf_view_def words_view_def unwrap_or_def)

lemma read_at_view:
  assumes "length bytes = SIZE" and "s + n \<le> 512" and "offset = (if i < n then Some (8 * (s + i)) else None)"
  shows "Option.bind offset (read_word bytes) = array_get (field_words s n (page_words bytes)) i"
  using assms read_page [OF assms(1), of "s + i"] by (simp add: array_get_def field_words_def SIZE_eq)

lemma read_indexed_view:
  assumes "length bytes = SIZE"
  shows "buf_argument bytes i = array_get (bv_arguments (buf_view bytes)) i"
    "buf_return_word bytes i = array_get (bv_returns (buf_view bytes)) i"
    "buf_handle_word bytes i = array_get (bv_handles (buf_view bytes)) i"
    "buf_word bytes i = array_get (bv_words (buf_view bytes)) i"
  unfolding buf_argument_def buf_return_word_def buf_handle_word_def buf_word_def
  using read_at_view [OF assms _ offsets(6), of i] read_at_view [OF assms _ offsets(7), of i]
    read_at_view [OF assms _ offsets(8), of i] read_at_view [OF assms _ offsets(9), of i]
  by (simp_all add: buf_view_def words_view_def)

lemma read_arguments_view: "length bytes = SIZE \<Longrightarrow> buf_arguments bytes = bv_arguments (buf_view bytes)"
  by (rule nth_equalityI)
    (simp_all add: buf_arguments_def MAX_SYSCALL_ARGUMENTS_def view_lengths read_indexed_view unwrap_or_def)

lemma read_message_view:
  assumes "length bytes = SIZE"
  shows "buf_message bytes = (let v = buf_view bytes in
    if 480 < unat (bv_word_count v) then Inl TooManyWords
    else if 4 < unat (bv_handle_count v) then Inl TooManyHandles
    else Inr \<lparr>ms_label = bv_label v, ms_word_count = unat (bv_word_count v), ms_handle_count = unat (bv_handle_count v)\<rparr>)"
  using read_page [OF assms, of 16] read_page [OF assms, of 17] read_page [OF assms, of 18]
  by (simp add: buf_message_def offsets buf_view_def words_view_def unwrap_or_def Let_def MAX_MESSAGE_WORDS_def MAX_MESSAGE_HANDLES_def)

lemmas read_views = read_number_view read_status_view read_indexed_view read_arguments_view read_message_view

lemma write_fixed_view:
  assumes "length bytes = SIZE"
  shows "length (buf_set_syscall_number bytes v) = SIZE \<and> buf_view (buf_set_syscall_number bytes v) = (buf_view bytes)\<lparr>bv_number := v\<rparr>"
    "length (buf_set_status bytes v) = SIZE \<and> buf_view (buf_set_status bytes v) = (buf_view bytes)\<lparr>bv_status := v\<rparr>"
    "length (buf_set_label bytes v) = SIZE \<and> buf_view (buf_set_label bytes v) = (buf_view bytes)\<lparr>bv_label := v\<rparr>"
  unfolding buf_set_syscall_number_def buf_set_status_def buf_set_label_def offsets
  using assms by (simp_all only: write_word_view) (simp_all add: words_view_update buf_view_def SIZE_eq)

lemma write_at_view:
  assumes "length bytes = SIZE" and "s + n \<le> 512" and "offset = (if i < n then Some (8 * (s + i)) else None)"
  shows "fst (write_at bytes offset v) = (i < n) \<and> length (snd (write_at bytes offset v)) = SIZE \<and>
    buf_view (snd (write_at bytes offset v)) = (if i < n then words_view ((page_words bytes)[s + i := v]) else buf_view bytes)"
proof (cases "i < n")
  case True
  then have "write_at bytes offset v = write_word bytes (8 * (s + i)) v" "s + i < 512"
    using assms(2,3) by (simp_all add: write_at_def)
  then show ?thesis using True write_word_view [OF assms(1), of "s + i" v] by simp
qed (use assms in \<open>simp add: write_at_def\<close>)

lemma write_indexed_view:
  assumes "length bytes = SIZE"
  shows "case buf_set_argument bytes i v of (r, bytes') \<Rightarrow> r = (i < 6) \<and> length bytes' = SIZE \<and>
      buf_view bytes' = (buf_view bytes)\<lparr>bv_arguments := (bv_arguments (buf_view bytes))[i := v]\<rparr>"
    "case buf_set_return_word bytes i v of (r, bytes') \<Rightarrow> r = (i < 2) \<and> length bytes' = SIZE \<and>
      buf_view bytes' = (buf_view bytes)\<lparr>bv_returns := (bv_returns (buf_view bytes))[i := v]\<rparr>"
    "case buf_set_handle_word bytes i v of (r, bytes') \<Rightarrow> r = (i < 4) \<and> length bytes' = SIZE \<and>
      buf_view bytes' = (buf_view bytes)\<lparr>bv_handles := (bv_handles (buf_view bytes))[i := v]\<rparr>"
    "case buf_set_word bytes i v of (r, bytes') \<Rightarrow> r = (i < 480) \<and> length bytes' = SIZE \<and>
      buf_view bytes' = (buf_view bytes)\<lparr>bv_words := (bv_words (buf_view bytes))[i := v]\<rparr>"
  unfolding buf_set_argument_def buf_set_return_word_def buf_set_handle_word_def buf_set_word_def
  using write_at_view [OF assms _ offsets(6), of i v] write_at_view [OF assms _ offsets(7), of i v]
    write_at_view [OF assms _ offsets(8), of i v] write_at_view [OF assms _ offsets(9), of i v] view_lengths [OF assms] assms
  by (auto simp: words_view_update buf_view_def SIZE_eq split_beta list_update_beyond)

lemma write_counts_view:
  assumes "length bytes = SIZE"
  shows "case buf_set_counts bytes w h of (r, bytes') \<Rightarrow>
      if 480 < w then r = Inl TooManyWords \<and> bytes' = bytes
      else if 4 < h then r = Inl TooManyHandles \<and> bytes' = bytes
      else r = Inr () \<and> length bytes' = SIZE \<and>
        buf_view bytes' = (buf_view bytes)\<lparr>bv_word_count := of_nat w, bv_handle_count := of_nat h\<rparr>"
proof -
  define b where "b = snd (write_word bytes WORD_COUNT (of_nat w))"
  have b: "length b = SIZE" "buf_view b = (buf_view bytes)\<lparr>bv_word_count := of_nat w\<rparr>"
    unfolding b_def offsets using assms by (simp_all only: write_word_view) (simp_all add: words_view_update buf_view_def SIZE_eq)
  have "length (snd (write_word b HANDLE_COUNT (of_nat h))) = SIZE"
    "buf_view (snd (write_word b HANDLE_COUNT (of_nat h))) = (buf_view b)\<lparr>bv_handle_count := of_nat h\<rparr>"
    unfolding offsets using b(1) by (simp_all only: write_word_view) (simp_all add: words_view_update buf_view_def SIZE_eq)
  then show ?thesis using b(2)
    by (simp add: buf_set_counts_def MAX_MESSAGE_WORDS_def MAX_MESSAGE_HANDLES_def b_def Let_def)
qed

lemma clear_result_view:
  assumes "length bytes = SIZE"
  shows "length (buf_clear_result bytes) = SIZE \<and>
    buf_view (buf_clear_result bytes) = (buf_view bytes)\<lparr>bv_status := 0, bv_returns := [0, 0]\<rparr>"
proof -
  define b where "b = buf_set_status bytes 0"
  have b: "length b = SIZE" "buf_view b = (buf_view bytes)\<lparr>bv_status := 0\<rparr>"
    using write_fixed_view(2) [OF assms] by (simp_all add: b_def)
  define c where "c = snd (buf_set_return_word b 0 0)"
  have c: "length c = SIZE" "buf_view c = (buf_view b)\<lparr>bv_returns := (bv_returns (buf_view b))[0 := 0]\<rparr>"
    using write_indexed_view(2) [OF b(1), of 0 0] by (auto simp: c_def)
  obtain x y where xy: "bv_returns (buf_view bytes) = [x, y]"
    using view_lengths(2) [OF assms] by (auto simp: length_Suc_conv numeral_2_eq_2)
  have "buf_clear_result bytes = snd (buf_set_return_word c 1 0)"
    by (simp add: buf_clear_result_def MAX_SYSCALL_RETURN_WORDS_def numeral_2_eq_2 c_def b_def buf_set_status_def)
  then show ?thesis using write_indexed_view(2) [OF c(1), of 1 0] by (auto simp: b c xy)
qed

section \<open>Status words\<close>

lemma status_failed_word: "and (status_failed e) ERROR_MASK = status_failed e" "and (status_failed e) PARTIAL_BIT = 0"
  "status_failed e \<noteq> 0" "and (status_failed e) (not (or ERROR_MASK PARTIAL_BIT)) = 0"
  "ucast (status_failed e) = error_code e"
  by (cases e; simp add: status_failed_def ERROR_MASK_def PARTIAL_BIT_def)+

lemma status_bits:
  fixes raw :: u64
  assumes "and raw (not (or ERROR_MASK PARTIAL_BIT)) = 0"
  shows "raw = or (and raw ERROR_MASK) (and raw PARTIAL_BIT)"
proof -
  have "raw = or (and raw (or ERROR_MASK PARTIAL_BIT)) (and raw (not (or ERROR_MASK PARTIAL_BIT)))"
    by (rule bit_word_eqI) (auto simp: bit_simps)
  then show ?thesis using assms by (simp add: bit.conj_disj_distrib)
qed

lemma partial_bit_cases: "and raw PARTIAL_BIT = 0 \<or> and raw PARTIAL_BIT = PARTIAL_BIT" for raw :: u64
proof -
  have "and raw PARTIAL_BIT = (if bit raw 32 then PARTIAL_BIT else 0)"
    by (rule bit_word_eqI) (auto simp: PARTIAL_BIT_def bit_simps simp del: push_bit_of_1)
  then show ?thesis by simp
qed

lemma error_mask_ucast: "ucast (ucast (and raw ERROR_MASK) :: u32) = and raw ERROR_MASK" for raw :: u64
proof -
  have "ERROR_MASK = mask 32" by (simp add: ERROR_MASK_def mask_eq_exp_minus_1)
  then show ?thesis unfolding \<open>ERROR_MASK = mask 32\<close> by (intro bit_word_eqI) (auto simp: bit_simps)
qed

lemma status_accepted:
  "status_from_raw (status_failed e) = Inr (status_failed e)" "status_from_raw status_OK = Inr status_OK"
  "status_from_raw status_PARTIAL = Inr status_PARTIAL"
  by (simp add: status_from_raw_def status_failed_word del: bit.de_Morgan_disj)
    (simp_all add: status_from_raw_def status_OK_def status_PARTIAL_def ERROR_MASK_def PARTIAL_BIT_def)

lemma status_from_raw_iff:
  "(\<exists>s. status_from_raw raw = Inr s) \<longleftrightarrow> raw = status_OK \<or> raw = status_PARTIAL \<or> (\<exists>e. raw = status_failed e)"
proof
  assume "\<exists>s. status_from_raw raw = Inr s"
  then have raw: "and raw (not (or ERROR_MASK PARTIAL_BIT)) = 0"
    and code: "and raw ERROR_MASK \<noteq> 0 \<longrightarrow>
      and raw PARTIAL_BIT = 0 \<and> error_from_code (ucast (and raw ERROR_MASK)) \<noteq> None"
    by (auto simp: status_from_raw_def Let_def split: if_splits option.splits)
  note bits = status_bits [OF raw]
  show "raw = status_OK \<or> raw = status_PARTIAL \<or> (\<exists>e. raw = status_failed e)"
  proof (cases "and raw ERROR_MASK = 0")
    case True
    then show ?thesis using bits partial_bit_cases [of raw] by (auto simp: status_OK_def status_PARTIAL_def)
  next
    case False
    then obtain e where e: "error_from_code (ucast (and raw ERROR_MASK)) = Some e" "raw = and raw ERROR_MASK"
      using code bits by auto
    then have "status_failed e = raw"
      using from_code_eq_Some(1) [THEN iffD1, OF e(1)] error_mask_ucast [of raw] by (simp add: status_failed_def)
    then show ?thesis by blast
  qed
next
  assume "raw = status_OK \<or> raw = status_PARTIAL \<or> (\<exists>e. raw = status_failed e)"
  then show "\<exists>s. status_from_raw raw = Inr s"
    by (elim disjE exE) (simp_all add: status_accepted)
qed

section \<open>Properties\<close>

text \<open>
  C39: a status word says how a call ended. Success, partial progress and each error are distinct statuses:
  a word that \<open>failed\<close> made reads back as that error and is neither a success nor partial, the two
  successes carry no error, and \<open>from_raw\<close> accepts a word exactly when it is one of these.
\<close>

theorem status_roundtrip:
  "status_from_raw (status_failed e) = Inr (status_failed e) \<and> status_error (status_failed e) = Some e \<and>
   \<not> status_is_success (status_failed e) \<and> \<not> status_is_partial (status_failed e) \<and>
   status_error status_OK = None \<and> status_is_success status_OK \<and> \<not> status_is_partial status_OK \<and>
   status_error status_PARTIAL = None \<and> status_is_success status_PARTIAL \<and> status_is_partial status_PARTIAL \<and>
   (\<forall>raw. (\<exists>s. status_from_raw raw = Inr s) \<longleftrightarrow> raw = status_OK \<or> raw = status_PARTIAL \<or> (\<exists>e. raw = status_failed e))"
proof -
  have "status_error (status_failed e) = Some e" "\<not> status_is_success (status_failed e)" "\<not> status_is_partial (status_failed e)"
    by (simp_all add: status_error_def status_is_success_def status_is_partial_def status_failed_word)
  moreover have "status_error status_OK = None" "status_is_success status_OK" "\<not> status_is_partial status_OK"
    "status_error status_PARTIAL = None" "status_is_success status_PARTIAL" "status_is_partial status_PARTIAL"
    by (simp_all add: status_error_def status_is_success_def status_is_partial_def status_OK_def status_PARTIAL_def
        ERROR_MASK_def PARTIAL_BIT_def)
  ultimately show ?thesis using status_accepted(1) status_from_raw_iff by blast
qed

text \<open>
  C38: the accessors of the IPC buffer implement a record of fields. On every page, whatever bytes it holds,
  each reader returns its field, \<open>None\<close> exactly beyond the end of an area, and \<open>message\<close> fails exactly
  when a count exceeds its area; each writer changes its own field to the value and no other field, and a
  writer that is refused, by an index beyond its area or by a count, changes nothing. So what was
  written is what is read, and a call result cannot reach a message or the reverse.
\<close>

theorem ipc_buffer_refines:
  assumes "length bytes = SIZE"
  defines "v \<equiv> buf_view bytes"
  shows "buf_syscall_number bytes = bv_number v \<and> buf_arguments bytes = bv_arguments v \<and>
    buf_argument bytes i = array_get (bv_arguments v) i \<and> buf_status bytes = status_from_raw (bv_status v) \<and>
    buf_return_word bytes i = array_get (bv_returns v) i \<and> buf_handle_word bytes i = array_get (bv_handles v) i \<and>
    buf_word bytes i = array_get (bv_words v) i \<and>
    buf_message bytes = (if 480 < unat (bv_word_count v) then Inl TooManyWords
      else if 4 < unat (bv_handle_count v) then Inl TooManyHandles
      else Inr \<lparr>ms_label = bv_label v, ms_word_count = unat (bv_word_count v), ms_handle_count = unat (bv_handle_count v)\<rparr>) \<and>
    buf_view (buf_set_syscall_number bytes x) = v\<lparr>bv_number := x\<rparr> \<and>
    buf_view (buf_set_status bytes x) = v\<lparr>bv_status := x\<rparr> \<and>
    buf_view (buf_set_label bytes x) = v\<lparr>bv_label := x\<rparr> \<and>
    fst (buf_set_argument bytes i x) = (i < 6) \<and>
    buf_view (snd (buf_set_argument bytes i x)) = v\<lparr>bv_arguments := (bv_arguments v)[i := x]\<rparr> \<and>
    fst (buf_set_return_word bytes i x) = (i < 2) \<and>
    buf_view (snd (buf_set_return_word bytes i x)) = v\<lparr>bv_returns := (bv_returns v)[i := x]\<rparr> \<and>
    fst (buf_set_handle_word bytes i x) = (i < 4) \<and>
    buf_view (snd (buf_set_handle_word bytes i x)) = v\<lparr>bv_handles := (bv_handles v)[i := x]\<rparr> \<and>
    fst (buf_set_word bytes i x) = (i < 480) \<and>
    buf_view (snd (buf_set_word bytes i x)) = v\<lparr>bv_words := (bv_words v)[i := x]\<rparr> \<and>
    buf_view (buf_clear_result bytes) = v\<lparr>bv_status := 0, bv_returns := [0, 0]\<rparr> \<and>
    (case buf_set_counts bytes w h of
       (Inl e, bytes') \<Rightarrow> e = (if 480 < w then TooManyWords else TooManyHandles) \<and> (480 < w \<or> 4 < h) \<and> bytes' = bytes
     | (Inr _, bytes') \<Rightarrow> w \<le> 480 \<and> h \<le> 4 \<and> buf_view bytes' = v\<lparr>bv_word_count := of_nat w, bv_handle_count := of_nat h\<rparr>)"
proof -
  note R = read_views [OF assms(1)]
  note W = write_fixed_view [OF assms(1), of x] write_indexed_view [OF assms(1), of i x, unfolded case_prod_unfold]
    clear_result_view [OF assms(1)]
  have C: "case buf_set_counts bytes w h of
       (Inl e, bytes') \<Rightarrow> e = (if 480 < w then TooManyWords else TooManyHandles) \<and> (480 < w \<or> 4 < h) \<and> bytes' = bytes
     | (Inr _, bytes') \<Rightarrow> w \<le> 480 \<and> h \<le> 4 \<and> buf_view bytes' = v\<lparr>bv_word_count := of_nat w, bv_handle_count := of_nat h\<rparr>"
    using write_counts_view [OF assms(1), of w h] unfolding v_def by (cases "buf_set_counts bytes w h") (auto split: if_splits)
  show ?thesis using R(1,2,7,3-6,8) W C unfolding v_def Let_def by (intro conjI) simp_all
qed

theorem ipc_buffer_refines_witness:
  "buf_view (buf_set_status (replicate 4096 0) 7) = (buf_view (replicate 4096 0))\<lparr>bv_status := 7\<rparr> \<and>
   \<not> fst (buf_set_argument (replicate 4096 0) 6 1) \<and> fst (buf_set_counts (replicate 4096 0) 481 0) = Inl TooManyWords"
proof -
  have len: "length (replicate 4096 (0 :: u8)) = SIZE" by (simp add: SIZE_eq)
  have "buf_set_counts (replicate 4096 0) 481 0 = (Inl TooManyWords, replicate 4096 0)"
    using ipc_buffer_refines [OF len, of 0 0 481 0] by (cases "buf_set_counts (replicate 4096 0) 481 0") (auto split: sum.splits)
  then show ?thesis using ipc_buffer_refines [OF len, of 6 1 0 0] ipc_buffer_refines [OF len, of 0 7 0 0] by simp
qed

end
