(* ===== verification/MessageTransfer.thy ===== *)
theory MessageTransfer
  imports IpcBuffer Store
begin

text \<open>
  Copying a message between two IPC buffers, \<open>src/crates/kernel/ipc/src/transfer.rs\<close>: the header is checked,
  the handles of the message are looked up in the table of the sender, and only then are the words
  copied and the handles installed in the table of the receiver. The first loop of \<open>transfer\<close> is
  \<open>carry_handles\<close>, the second is \<open>hand_over\<close>.
\<close>

section \<open>Operations\<close>

record transferred =
  tr_words :: u16
  tr_handles :: u8
  tr_truncated :: bool

definition copy_words :: "buffer \<Rightarrow> buffer \<Rightarrow> nat \<Rightarrow> u16 \<times> buffer" where
  "copy_words source target count =
     (let stop = WORDS + count * WORD;
          target = (if stop \<le> length source \<and> stop \<le> length target
            then take WORDS target @ take (stop - WORDS) (drop WORDS source) @ drop stop target
            else target)
      in (if count < 2 ^ 16 then of_nat count else 0, target))"

definition transfer_install :: "objects \<Rightarrow> object_id \<Rightarrow> entry \<Rightarrow> handle option \<times> objects" where
  "transfer_install ob receiver entry =
     (case install_handle ob receiver entry of
        (Inl _, ob) \<Rightarrow> (None, ob)
      | (Inr handle, ob) \<Rightarrow> (Some handle, snd (objects_retain ob (en_object entry))))"

primrec carry_handles :: "nat list \<Rightarrow> buffer \<Rightarrow> objects \<Rightarrow> object_id \<Rightarrow> error + entry list" where
  "carry_handles [] source ob sender = Inr []"
| "carry_handles (index # rest) source ob sender =
     try_result (ok_or (buf_handle source index) InvalidHandle) (\<lambda>handle.
     try_result (arena_lookup (ob_handles ob) sender handle) (\<lambda>entry.
       if \<not> rights_contains (en_rights entry) RIGHT_TRANSFER then Inl AccessDenied
       else try_result (carry_handles rest source ob sender) (\<lambda>carried. Inr (entry # carried))))"

primrec hand_over :: "entry list \<Rightarrow> u8 \<Rightarrow> object_id \<Rightarrow> objects \<Rightarrow> buffer \<Rightarrow> (u8 \<times> bool) \<times> objects \<times> buffer" where
  "hand_over [] handles receiver ob target = ((handles, False), ob, target)"
| "hand_over (entry # rest) handles receiver ob target =
     (case transfer_install ob receiver entry of
        (None, ob) \<Rightarrow> ((handles, True), ob, target)
      | (Some handle, ob) \<Rightarrow>
          hand_over rest (saturating_add handles 1) receiver ob (snd (buf_set_handle target (unat handles) handle)))"

definition transfer ::
  "buffer \<Rightarrow> buffer \<Rightarrow> objects \<Rightarrow> object_id \<Rightarrow> object_id \<Rightarrow> bool \<Rightarrow> (error + transferred) \<times> buffer \<times> objects" where
  "transfer source target ob sender receiver kernel_message =
     (case buf_message source of
        Inl e \<Rightarrow> (Inl (error_of_message_error e), target, ob)
      | Inr message \<Rightarrow>
          if \<not> kernel_message \<and> message_is_kernel_label message then (Inl InvalidArgument, target, ob)
          else case carry_handles [0..<min (ms_handle_count message) MAX_MESSAGE_HANDLES] source ob sender of
            Inl e \<Rightarrow> (Inl e, target, ob)
          | Inr carried \<Rightarrow>
              (case copy_words source target (ms_word_count message) of
                 (words, target) \<Rightarrow>
                   (case hand_over carried 0 receiver ob (buf_set_label target (ms_label message)) of
                      ((handles, truncated), ob, target) \<Rightarrow>
                        (case buf_set_counts target (ms_word_count message) (unat handles) of
                           (Inl e, target) \<Rightarrow> (Inl (error_of_message_error e), target, ob)
                         | (Inr _, target) \<Rightarrow>
                             (Inr \<lparr>tr_words = words, tr_handles = handles, tr_truncated = truncated\<rparr>, target, ob)))))"

section \<open>The words\<close>

lemma page_words_nth: "length bs = SIZE \<Longrightarrow> j < 512 \<Longrightarrow> page_words bs ! j = from_le_bytes (take 8 (drop (8 * j) bs))"
  by (simp add: page_words_def SIZE_eq)

lemma page_words_splice:
  assumes x: "length x = SIZE" and y: "length y = SIZE" and ac: "a + c \<le> 512"
  shows "page_words (take (8 * a) x @ take (8 * c) (drop (8 * a) y) @ drop (8 * a + 8 * c) x) =
    take a (page_words x) @ take c (drop a (page_words y)) @ drop (a + c) (page_words x)"
    (is "page_words ?z = ?ws")
proof (rule nth_equalityI)
  have z: "length ?z = SIZE" using assms by (simp add: SIZE_eq)
  then show "length (page_words ?z) = length ?ws" using assms by (simp add: SIZE_eq)
  fix j assume "j < length (page_words ?z)"
  then have j: "j < 512" using z by (simp add: SIZE_eq)
  consider "j < a" | "a \<le> j" "j < a + c" | "a + c \<le> j" by linarith
  then have "take 8 (drop (8 * j) ?z) = take 8 (drop (8 * j) (if a \<le> j \<and> j < a + c then y else x))"
  proof cases
    case 1
    then have "8 * j + 8 \<le> 8 * a" "8 * a \<le> 4096" using ac by simp_all
    then show ?thesis using 1 x by (simp add: drop_take SIZE_eq)
  next
    case 2
    then have "8 * (j - a) + 8 \<le> 8 * c" "8 * a \<le> 4096" "8 * a + 8 * (j - a) = 8 * j" using ac by simp_all
    then show ?thesis using 2 x y ac by (simp add: drop_take SIZE_eq diff_mult_distrib2)
  next
    case 3
    then have "8 * a + 8 * c + (8 * j - (8 * a + 8 * c)) = 8 * j" "8 * a + 8 * c \<le> 8 * j" by simp_all
    then show ?thesis using 3 x y ac by (simp add: SIZE_eq)
  qed
  then show "page_words ?z ! j = ?ws ! j"
    using j x y z ac by (simp add: page_words_nth nth_append SIZE_eq)
qed

lemma copy_words_view:
  assumes "length source = SIZE" and "length target = SIZE" and "count \<le> 480"
  shows "fst (copy_words source target count) = of_nat count" "length (snd (copy_words source target count)) = SIZE"
    "buf_view (snd (copy_words source target count)) = (buf_view target)
       \<lparr>bv_words := take count (bv_words (buf_view source)) @ drop count (bv_words (buf_view target))\<rparr>"
proof -
  have eq: "copy_words source target count = (of_nat count, take (8 * 23) target @ take (8 * count) (drop (8 * 23) source) @
      drop (8 * 23 + 8 * count) target)"
    using assms by (simp add: copy_words_def layout_defs Let_def mult.commute)
  show "fst (copy_words source target count) = of_nat count" "length (snd (copy_words source target count)) = SIZE"
    using assms by (simp_all add: eq SIZE_eq)
  have splice: "23 + count \<le> 512" using assms(3) by simp
  show "buf_view (snd (copy_words source target count)) = (buf_view target)
       \<lparr>bv_words := take count (bv_words (buf_view source)) @ drop count (bv_words (buf_view target))\<rparr>"
    unfolding eq snd_conv buf_view_def page_words_splice [OF assms(2,1) splice]
    using assms by (simp add: words_view_def field_words_def nth_append SIZE_eq drop_take add.commute)
qed

section \<open>The handles\<close>

lemma pool_refs_modify [simp]: "pool_refs (pool_modify p oid f) = pool_refs p"
proof
  fix k
  show "pool_refs (pool_modify p oid f) k = pool_refs p k"
  proof (cases "pool_occupant p oid")
    case (Inl e)
    then show ?thesis by (simp add: pool_map_def pool_get_def)
  next
    case (Inr oc)
    show ?thesis
    proof (cases "k = oid")
      case True
      then show ?thesis using Inr
        by (auto simp: pool_modify_def pool_get_mut_def pool_refs_occupant pool_occupant_mut_def pool_occupant_alt
            pool_occupant_def pool_slot_set split: option.splits occupancy.splits sum.splits if_splits)
    next
      case False
      then show ?thesis
        using pool_occupant_mut_other [OF False, of p]
        by (auto simp: pool_modify_def pool_get_mut_def pool_refs_occupant split: prod.splits sum.splits)
    qed
  qed
qed

lemma install_refs: "install_handle ob p e = (r, ob') \<Longrightarrow> any_refs ob' = any_refs ob"
proof -
  assume "install_handle ob p e = (r, ob')"
  then have "type_refs ty ob' = type_refs ty ob" for ty
    by (cases ty) (auto simp: install_handle_def write_list_def pool_with_eq split: sum.splits prod.splits)
  then show ?thesis by (simp add: any_refs_def fun_eq_iff)
qed

text \<open>
  What the handles \<open>hs\<close> installed for the entries \<open>es\<close> do to the meaning of handles, and to the counts of
  the objects that have room for the references.
\<close>

definition handed :: "object_id \<Rightarrow> handle list \<Rightarrow> entry list \<Rightarrow> objects \<Rightarrow> objects \<Rightarrow> bool" where
  "handed p hs es ob ob' \<longleftrightarrow> objects_inv ob' \<and> length hs \<le> length es \<and> distinct hs \<and>
     (\<forall>h \<in> set hs. \<forall>q. arena_lookup (ob_handles ob) q h = Inl InvalidHandle) \<and>
     (\<forall>q k. arena_lookup (ob_handles ob') q k = (case map_of (zip hs es) k of
        Some e \<Rightarrow> if q = p then Inr e else Inl InvalidHandle | None \<Rightarrow> arena_lookup (ob_handles ob) q k)) \<and>
     (\<forall>a. ao_type a \<noteq> SystemControlType \<longrightarrow> 0 < any_refs ob a \<longrightarrow> any_refs ob a + length es < 2 ^ 32 \<longrightarrow>
        any_refs ob' a = any_refs ob a + length (filter (\<lambda>e. en_object e = a) (take (length hs) es)))"

lemma handed_none:
  assumes "objects_inv ob'" and "arena_lookup (ob_handles ob') = arena_lookup (ob_handles ob)" and "any_refs ob' = any_refs ob"
  shows "handed p [] es ob ob'"
  using assms by (simp add: handed_def)

lemma transfer_install_effect:
  assumes inv: "objects_inv ob" and run: "transfer_install ob p e = (r, ob')"
  shows "handed p (case r of None \<Rightarrow> [] | Some h \<Rightarrow> [h]) [e] ob ob'"
proof -
  obtain r1 ob1 where i: "install_handle ob p e = (r1, ob1)" by (metis surj_pair)
  note I = install_handle_inv [OF inv i] install_refs [OF i] install_lookup [OF inv i]
  show ?thesis
  proof (cases r1)
    case (Inl x)
    then have "r = None" "ob' = ob1" using run i by (simp_all add: transfer_install_def)
    then show ?thesis using I Inl by (simp add: handed_none)
  next
    case (Inr h)
    obtain r2 ob2 where k: "objects_retain ob1 (en_object e) = (r2, ob2)" by (metis surj_pair)
    have r: "r = Some h" "ob' = ob2" using run i Inr k by (simp_all add: transfer_install_def)
    have spec: "retain_spec ob1 (en_object e) r2 ob2"
      using retain_spec_holds [OF _ k] I(1) by (simp add: objects_inv_def)
    have "ob_handles ob2 = ob_handles ob1" using spec by (auto simp: retain_spec_def split: sum.splits)
    moreover have "any_refs ob2 a = any_refs ob1 a + (if en_object e = a then 1 else 0)"
      if "ao_type a \<noteq> SystemControlType" "0 < any_refs ob1 a" "any_refs ob1 a + 1 < 2 ^ 32" for a
      using spec that by (auto simp: retain_spec_def split: sum.splits if_splits)
    ultimately show ?thesis
      using I Inr retain_inv [OF I(1) k] by (auto simp: handed_def r)
  qed
qed

lemma handed_cons:
  assumes one: "handed p [h] [e] ob ob1" and rest: "handed p hs es ob1 ob'"
  shows "handed p (h # hs) (e # es) ob ob'"
proof -
  have l1: "arena_lookup (ob_handles ob1) q k = (if k = h then if q = p then Inr e else Inl InvalidHandle
      else arena_lookup (ob_handles ob) q k)" for q k
    using one by (simp add: handed_def)
  have new: "arena_lookup (ob_handles ob1) q k = Inl InvalidHandle" if "k \<in> set hs" for k q
    using rest that by (simp add: handed_def)
  have out: "h \<notin> set hs"
  proof
    assume "h \<in> set hs"
    from new [OF this, of p] l1 [of p h] show False by simp
  qed
  have old: "arena_lookup (ob_handles ob) q k = Inl InvalidHandle" if "k \<in> set (h # hs)" for k q
  proof (cases "k = h")
    case True
    then show ?thesis using one by (simp add: handed_def)
  next
    case False
    then show ?thesis using that new [of k q] l1 [of q k] by simp
  qed
  have len: "length hs \<le> length es" using rest by (simp add: handed_def)
  have keys: "map_of (zip hs es) h = None"
    using out len by (auto simp: map_of_eq_None_iff dest: set_zip_leftD)
  have "any_refs ob' a = any_refs ob a + length (filter (\<lambda>e. en_object e = a) (take (length (h # hs)) (e # es)))"
    if "ao_type a \<noteq> SystemControlType" "0 < any_refs ob a" "any_refs ob a + length (e # es) < 2 ^ 32" for a
  proof -
    have "any_refs ob1 a = any_refs ob a + (if en_object e = a then 1 else 0)"
      using one that by (simp add: handed_def)
    then show ?thesis using rest that by (simp add: handed_def)
  qed
  moreover have "arena_lookup (ob_handles ob') q k = (case map_of (zip (h # hs) (e # es)) k of
      Some e \<Rightarrow> if q = p then Inr e else Inl InvalidHandle | None \<Rightarrow> arena_lookup (ob_handles ob) q k)" for q k
    using rest keys l1 [of q k] by (auto simp: handed_def split: option.splits)
  ultimately show ?thesis
    using rest out old by (auto simp: handed_def)
qed

lemma hand_over_effect:
  assumes "objects_inv ob" and "length target = SIZE" and "unat n + length es \<le> 4"
    and "hand_over es n p ob target = ((n', truncated), ob', target')"
  shows "\<exists>hs. handed p hs es ob ob' \<and> truncated = (length hs < length es) \<and> unat n' = unat n + length hs \<and>
    length target' = SIZE \<and> buf_view target' = (buf_view target)\<lparr>bv_handles := take (unat n) (bv_handles (buf_view target)) @
      map handle_raw hs @ drop (unat n + length hs) (bv_handles (buf_view target))\<rparr>"
  using assms
proof (induction es arbitrary: n ob target)
  case Nil
  then show ?case by (intro exI [of _ "[]"]) (simp add: handed_none)
next
  case (Cons e es)
  obtain r ob1 where i: "transfer_install ob p e = (r, ob1)" by (metis surj_pair)
  note I = transfer_install_effect [OF Cons.prems(1) i]
  show ?case
  proof (cases r)
    case None
    then have "n' = n" "truncated" "ob' = ob1" "target' = target" using Cons.prems(4) i by simp_all
    then show ?thesis using I None Cons.prems(2) by (intro exI [of _ "[]"]) (simp add: handed_def)
  next
    case (Some h)
    let ?n = "saturating_add n 1" and ?t = "snd (buf_set_handle target (unat n) h)"
    have n: "unat ?n = unat n + 1" using Cons.prems(3) by simp
    have t: "length ?t = SIZE" "buf_view ?t = (buf_view target)\<lparr>bv_handles := (bv_handles (buf_view target))[unat n := handle_raw h]\<rparr>"
      using write_indexed_view(3) [OF Cons.prems(2), of "unat n" "handle_raw h"] by (auto simp: buf_set_handle_def split_beta)
    have "objects_inv ob1" using I by (simp add: handed_def)
    moreover have "hand_over es ?n p ob1 ?t = ((n', truncated), ob', target')" using Cons.prems(4) i Some by simp
    moreover have "unat ?n + length es \<le> 4" using Cons.prems(3) n by simp
    ultimately obtain hs where hs: "handed p hs es ob1 ob'" "truncated = (length hs < length es)" "unat n' = unat ?n + length hs"
      "length target' = SIZE" "buf_view target' = (buf_view ?t)\<lparr>bv_handles := take (unat ?n) (bv_handles (buf_view ?t)) @
        map handle_raw hs @ drop (unat ?n + length hs) (bv_handles (buf_view ?t))\<rparr>"
      using Cons.IH [OF _ t(1)] by blast
    have "unat n < length (bv_handles (buf_view target))"
      using view_lengths(3) [OF Cons.prems(2)] Cons.prems(3) by simp
    then have "buf_view target' = (buf_view target)\<lparr>bv_handles := take (unat n) (bv_handles (buf_view target)) @
        map handle_raw (h # hs) @ drop (unat n + length (h # hs)) (bv_handles (buf_view target))\<rparr>"
      using hs(5) t(2) n by (simp add: take_Suc_conv_app_nth)
    then show ?thesis
      using hs n handed_cons [OF _ hs(1), of h e ob] I Some by (intro exI [of _ "h # hs"]) simp
  qed
qed

lemma carry_handles_effect:
  "carry_handles is source ob sender = Inr es \<Longrightarrow> length es = length is \<and>
    (\<forall>j < length is. \<exists>h. buf_handle source (is ! j) = Some h \<and>
      arena_lookup (ob_handles ob) sender h = Inr (es ! j) \<and> rights_contains (en_rights (es ! j)) RIGHT_TRANSFER)"
proof (induction "is" arbitrary: es)
  case (Cons i "is")
  then obtain h e es' where h: "buf_handle source i = Some h" "arena_lookup (ob_handles ob) sender h = Inr e"
      "rights_contains (en_rights e) RIGHT_TRANSFER" "carry_handles is source ob sender = Inr es'" "es = e # es'"
    by (auto simp: try_result_eq_Inr split: if_splits)
  with Cons.IH [OF h(4)] show ?case by (auto simp: nth_Cons split: nat.splits)
qed simp

lemma lookup_refusal: "arena_lookup a p h = Inl e \<Longrightarrow> e = InvalidHandle"
  by (auto simp: arena_lookup_eq split: if_splits option.splits)

lemma carry_handles_complete:
  assumes "\<forall>j < length is. \<exists>h. buf_handle source (is ! j) = Some h \<and>
      arena_lookup (ob_handles ob) sender h = Inr (es ! j) \<and> rights_contains (en_rights (es ! j)) RIGHT_TRANSFER"
    and "length es = length is"
  shows "carry_handles is source ob sender = Inr es"
  using assms
proof (induction "is" arbitrary: es)
  case (Cons i "is")
  then obtain e es' where es: "es = e # es'" by (cases es) auto
  with Cons.prems(2) have "length es' = length is" by simp
  moreover have "\<forall>j < length is. \<exists>h. buf_handle source (is ! j) = Some h \<and>
      arena_lookup (ob_handles ob) sender h = Inr (es' ! j) \<and> rights_contains (en_rights (es' ! j)) RIGHT_TRANSFER"
    using Cons.prems(1) unfolding es by (metis Suc_less_eq length_Cons nth_Cons_Suc)
  ultimately have "carry_handles is source ob sender = Inr es'" using Cons.IH by blast
  then show ?case using Cons.prems(1) [rule_format, of 0] unfolding es by auto
qed simp

lemma carry_handles_refusal:
  "carry_handles is source ob sender = Inl e \<Longrightarrow> e = InvalidHandle \<or> e = AccessDenied"
  by (induction "is" arbitrary: e)
    (auto simp: try_result_def ok_or_def dest: lookup_refusal split: if_splits option.splits sum.splits)

section \<open>The message\<close>

lemma message_errors [simp]: "error_of_message_error e = InvalidArgument"
  by (cases e) simp_all

lemma message_bounds:
  assumes "length source = SIZE" and "buf_message source = Inr m"
  shows "ms_label m = bv_label (buf_view source)" "ms_word_count m \<le> 480" "ms_handle_count m \<le> 4"
  using assms(2) by (auto simp: read_views [OF assms(1)] Let_def split: if_splits)

lemma transfer_delivers:
  assumes inv: "objects_inv ob" and len: "length source = SIZE" "length target = SIZE"
    and m: "buf_message source = Inr m" "kernel_message \<or> \<not> message_is_kernel_label m"
    and carried: "carry_handles [0..<ms_handle_count m] source ob sender = Inr es"
    and run: "transfer source target ob sender receiver kernel_message = (r, target', ob')"
  shows "\<exists>hs. handed receiver hs es ob ob' \<and>
    r = Inr \<lparr>tr_words = of_nat (ms_word_count m), tr_handles = of_nat (length hs), tr_truncated = (length hs < length es)\<rparr> \<and>
    buf_view target' = (buf_view target)
      \<lparr>bv_label := ms_label m, bv_word_count := of_nat (ms_word_count m), bv_handle_count := of_nat (length hs),
       bv_handles := map handle_raw hs @ drop (length hs) (bv_handles (buf_view target)),
       bv_words := take (ms_word_count m) (bv_words (buf_view source)) @ drop (ms_word_count m) (bv_words (buf_view target))\<rparr>"
proof -
  note bounds = message_bounds [OF len(1) m(1)]
  have es: "length es = ms_handle_count m" using carry_handles_effect [OF carried] by simp
  define t1 where "t1 = snd (copy_words source target (ms_word_count m))"
  note C = copy_words_view [OF len bounds(2), folded t1_def]
  define t2 where "t2 = buf_set_label t1 (ms_label m)"
  have t2: "length t2 = SIZE" "buf_view t2 = (buf_view t1)\<lparr>bv_label := ms_label m\<rparr>"
    using write_fixed_view(3) [OF C(2)] by (simp_all add: t2_def)
  obtain n truncated ob3 t3 where h: "hand_over es 0 receiver ob t2 = ((n, truncated), ob3, t3)" by (metis surj_pair)
  obtain hs where hs: "handed receiver hs es ob ob3" "truncated = (length hs < length es)" "unat n = length hs"
    "length t3 = SIZE" "buf_view t3 = (buf_view t2)\<lparr>bv_handles := map handle_raw hs @ drop (length hs) (bv_handles (buf_view t2))\<rparr>"
    using hand_over_effect [OF inv t2(1) _ h] es bounds(3) by auto
  have few: "length hs \<le> 4" using hs(1) es bounds(3) by (simp add: handed_def)
  then obtain t4 where t4: "buf_set_counts t3 (ms_word_count m) (unat n) = (Inr (), t4)"
    "buf_view t4 = (buf_view t3)\<lparr>bv_word_count := of_nat (ms_word_count m), bv_handle_count := of_nat (length hs)\<rparr>"
    using write_counts_view [OF hs(4), of "ms_word_count m" "unat n"] bounds(2) hs(3)
    by (auto split: if_splits prod.splits)
  have "copy_words source target (ms_word_count m) = (of_nat (ms_word_count m), t1)"
    using C(1) by (simp add: t1_def prod_eq_iff)
  moreover have "n = of_nat (length hs)" by (simp flip: hs(3))
  ultimately have "r = Inr \<lparr>tr_words = of_nat (ms_word_count m), tr_handles = of_nat (length hs), tr_truncated = truncated\<rparr>"
      "target' = t4" "ob' = ob3"
    using run m carried h t4(1) bounds(3) by (auto simp: transfer_def MAX_MESSAGE_HANDLES_def min_absorb1 t2_def)
  then show ?thesis using hs(1,2,5) t4(2) t2(2) C(3) by auto
qed

text \<open>A header that is accepted, and the entries of the sender that the handles of the message name.\<close>

definition header_accepted :: "buffer \<Rightarrow> bool \<Rightarrow> message \<Rightarrow> bool" where
  "header_accepted source kernel_message m \<longleftrightarrow>
     buf_message source = Inr m \<and> (kernel_message \<or> \<not> message_is_kernel_label m)"

definition message_entries :: "buffer \<Rightarrow> objects \<Rightarrow> object_id \<Rightarrow> message \<Rightarrow> entry list \<Rightarrow> bool" where
  "message_entries source ob sender m es \<longleftrightarrow> length es = ms_handle_count m \<and>
     (\<forall>i < length es. \<exists>h. buf_handle source i = Some h \<and> arena_lookup (ob_handles ob) sender h = Inr (es ! i) \<and>
        rights_contains (en_rights (es ! i)) RIGHT_TRANSFER)"

lemma message_entries_carried:
  "message_entries source ob sender m es \<longleftrightarrow> carry_handles [0..<ms_handle_count m] source ob sender = Inr es"
  using carry_handles_effect [of "[0..<ms_handle_count m]" source ob sender es]
    carry_handles_complete [of "[0..<ms_handle_count m]" source ob sender es]
  by (auto simp: message_entries_def)

lemma transfer_refused:
  assumes "length source = SIZE" and "transfer source target ob sender receiver kernel_message = (r, target', ob')"
  shows "(\<nexists>m. header_accepted source kernel_message m) \<Longrightarrow> r = Inl InvalidArgument \<and> target' = target \<and> ob' = ob"
    and "header_accepted source kernel_message m \<Longrightarrow> \<nexists>es. message_entries source ob sender m es \<Longrightarrow>
      (r = Inl InvalidHandle \<or> r = Inl AccessDenied) \<and> target' = target \<and> ob' = ob"
proof -
  assume "\<nexists>m. header_accepted source kernel_message m"
  then show "r = Inl InvalidArgument \<and> target' = target \<and> ob' = ob"
    using assms(2) by (auto simp: transfer_def header_accepted_def split: sum.splits)
next
  assume m: "header_accepted source kernel_message m" and "\<nexists>es. message_entries source ob sender m es"
  then obtain e where e: "carry_handles [0..<ms_handle_count m] source ob sender = Inl e"
    by (metis message_entries_carried obj_sumE)
  have "ms_handle_count m \<le> 4" using m message_bounds(3) [OF assms(1)] by (simp add: header_accepted_def)
  then have "r = Inl e \<and> target' = target \<and> ob' = ob"
    using assms(2) m e by (auto simp: transfer_def header_accepted_def MAX_MESSAGE_HANDLES_def min_absorb1)
  then show "(r = Inl InvalidHandle \<or> r = Inl AccessDenied) \<and> target' = target \<and> ob' = ob"
    using carry_handles_refusal [OF e] by auto
qed

section \<open>Properties\<close>

text \<open>
  C37: what a message carries from one process to another. A header that cannot be read, or a label that
  the kernel keeps for its own messages, is refused with \<open>InvalidArgument\<close>; a handle that the sender does
  not hold, or holds without the right \<open>TRANSFER\<close>, refuses the message too; and a refused message changes
  neither the buffer of the receiver nor an object. Every other message is delivered: the label and
  exactly its words are copied, and the receiver gets, in order and up to the first that does not fit, the
  sender's own entries with their objects, rights and badges, under handles that named nothing for anyone.
  \<open>truncated\<close> says whether one did not fit. No other handle of any process changes its meaning, every new
  handle counts one reference, and the result area of the receiver's buffer is not touched.
\<close>

theorem transfer_correct:
  assumes "objects_inv ob" and "length source = SIZE" and "length target = SIZE"
    and "transfer source target ob sender receiver kernel_message = (r, target', ob')"
  shows "((\<nexists>m. header_accepted source kernel_message m) \<longrightarrow> r = Inl InvalidArgument \<and> target' = target \<and> ob' = ob) \<and>
    (\<forall>m. header_accepted source kernel_message m \<longrightarrow>
      ((\<nexists>es. message_entries source ob sender m es) \<longrightarrow>
         (r = Inl InvalidHandle \<or> r = Inl AccessDenied) \<and> target' = target \<and> ob' = ob) \<and>
      (\<forall>es. message_entries source ob sender m es \<longrightarrow>
         (\<exists>hs. handed receiver hs es ob ob' \<and>
           r = Inr \<lparr>tr_words = of_nat (ms_word_count m), tr_handles = of_nat (length hs), tr_truncated = (length hs < length es)\<rparr> \<and>
           buf_view target' = (buf_view target)
             \<lparr>bv_label := ms_label m, bv_word_count := of_nat (ms_word_count m), bv_handle_count := of_nat (length hs),
              bv_handles := map handle_raw hs @ drop (length hs) (bv_handles (buf_view target)),
              bv_words := take (ms_word_count m) (bv_words (buf_view source)) @ drop (ms_word_count m) (bv_words (buf_view target))\<rparr>)))"
proof (intro conjI [OF impI allI] impI conjI allI)
  fix m es
  assume "header_accepted source kernel_message m" and "message_entries source ob sender m es"
  then show "\<exists>hs. handed receiver hs es ob ob' \<and>
      r = Inr \<lparr>tr_words = of_nat (ms_word_count m), tr_handles = of_nat (length hs), tr_truncated = (length hs < length es)\<rparr> \<and>
      buf_view target' = (buf_view target)
        \<lparr>bv_label := ms_label m, bv_word_count := of_nat (ms_word_count m), bv_handle_count := of_nat (length hs),
         bv_handles := map handle_raw hs @ drop (length hs) (bv_handles (buf_view target)),
         bv_words := take (ms_word_count m) (bv_words (buf_view source)) @ drop (ms_word_count m) (bv_words (buf_view target))\<rparr>"
    using transfer_delivers [OF assms(1-3) _ _ _ assms(4)] by (auto simp: header_accepted_def message_entries_carried)
qed (use transfer_refused [OF assms(2,4)] in blast)+

text \<open>
  Witness: a process sends itself a message of two words and one handle to an endpoint. With the right
  \<open>TRANSFER\<close> on the handle it arrives, with the right \<open>SEND\<close> only it is refused.
\<close>

lemma lookup_decodes:
  assumes "arena_inv a" and "arena_lookup a p h = Inr e"
  shows "handle_from_raw (handle_raw h) = Some h"
proof -
  have "handle_generation h \<noteq> 0"
    using assms(2) occupant_generation(2) [OF assms(1), of "handle_index h"]
    by (auto simp: arena_lookup_eq split: option.splits if_splits)
  then show ?thesis by (cases h) (auto simp: handle_from_raw_def handle_generation_def)
qed

definition example_message :: "handle \<Rightarrow> buffer" where
  "example_message h = snd (buf_set_counts (snd (buf_set_handle (replicate 4096 0) 0 h)) 2 1)"

lemma example_message_view:
  "length (example_message h) = SIZE"
  "header_accepted (example_message h) False \<lparr>ms_label = 0, ms_word_count = 2, ms_handle_count = 1\<rparr>"
  "buf_handle (example_message h) 0 = handle_from_raw (handle_raw h)"
proof -
  define b where "b = snd (buf_set_handle (replicate 4096 0) 0 h)"
  have z: "length (replicate 4096 0 :: buffer) = SIZE" by (simp add: SIZE_eq)
  have zero: "from_le_bytes (replicate n 0) = 0" for n by (induction n) simp_all
  have "page_words (replicate 4096 0) = replicate 512 0"
    by (rule nth_equalityI) (simp_all add: page_words_def zero drop_replicate take_replicate)
  then have label: "bv_label (buf_view (replicate 4096 0)) = 0" by (simp add: buf_view_def words_view_def)
  have b: "length b = SIZE" "buf_view b = (buf_view (replicate 4096 0))
      \<lparr>bv_handles := (bv_handles (buf_view (replicate 4096 0)))[0 := handle_raw h]\<rparr>"
    using write_indexed_view(3) [OF z, of 0 "handle_raw h"] by (auto simp: b_def buf_set_handle_def split_beta)
  have m: "length (example_message h) = SIZE"
    "buf_view (example_message h) = (buf_view b)\<lparr>bv_word_count := 2, bv_handle_count := 1\<rparr>"
    using write_counts_view [OF b(1), of 2 1] by (auto simp: example_message_def b_def split_beta)
  show "length (example_message h) = SIZE" by (rule m)
  show "header_accepted (example_message h) False \<lparr>ms_label = 0, ms_word_count = 2, ms_handle_count = 1\<rparr>"
    using m b(2) label
    by (simp add: header_accepted_def read_views message_is_kernel_label_def is_kernel_label_def KERNEL_LABEL_BASE_def)
  show "buf_handle (example_message h) 0 = handle_from_raw (handle_raw h)"
    using m b(2) view_lengths(3) [OF z] by (simp add: buf_handle_def read_views array_get_def)
qed

lemma example_message_entries:
  assumes "arena_inv (ob_handles ob)" and "arena_lookup (ob_handles ob) p h = Inr (entry_new example_endpoint rights)"
  shows "message_entries (example_message h) ob p \<lparr>ms_label = 0, ms_word_count = 2, ms_handle_count = 1\<rparr> es \<longleftrightarrow>
    es = [entry_new example_endpoint rights] \<and> rights_contains rights RIGHT_TRANSFER"
  using assms(2) lookup_decodes [OF assms]
  by (auto simp: message_entries_def example_message_view(3) entry_new_def length_Suc_conv)

theorem transfer_correct_witness:
  "(\<exists>ob h t target' ob'. transfer (example_message h) (replicate 4096 0) ob (ObjectId 0 1) (ObjectId 0 1) False = (Inr t, target', ob') \<and>
     tr_words t = 2 \<and> bv_word_count (buf_view target') = 2 \<and> objects_inv ob') \<and>
   (\<exists>ob h e. arena_lookup (ob_handles ob) (ObjectId 0 1) h = Inr (entry_new example_endpoint RIGHT_SEND) \<and>
     transfer (example_message h) (replicate 4096 0) ob (ObjectId 0 1) (ObjectId 0 1) False = (Inl e, replicate 4096 0, ob))"
proof -
  let ?z = "replicate 4096 0 :: buffer" and ?p = "ObjectId 0 1"
  have z: "length ?z = SIZE" by (simp add: SIZE_eq)
  obtain ob h where ob: "store_step\<^sup>*\<^sup>* machine_objects_new ob"
    "arena_lookup (ob_handles ob) ?p h = Inr (entry_new example_endpoint RIGHT_TRANSFER)" by (rule example_installed)
  have inv: "objects_inv ob" "arena_inv (ob_handles ob)"
    using store_steps_inv [OF ob(1)] handle_invD(1) by (auto simp: objects_inv_def)
  obtain r t' ob' where run: "transfer (example_message h) ?z ob ?p ?p False = (r, t', ob')" by (metis surj_pair)
  have sent: "message_entries (example_message h) ob ?p \<lparr>ms_label = 0, ms_word_count = 2, ms_handle_count = 1\<rparr>
      [entry_new example_endpoint RIGHT_TRANSFER]"
    unfolding example_message_entries [OF inv(2) ob(2)] by (simp add: rights_contains_def)
  note T = transfer_correct [OF inv(1) example_message_view(1) z run, THEN conjunct2, rule_format, OF example_message_view(2)]
  from T [THEN conjunct2, rule_format, OF sent] have "\<exists>t. r = Inr t \<and> tr_words t = 2"
      "bv_word_count (buf_view t') = 2" "objects_inv ob'"
    by (auto simp: handed_def)
  with run have 1: "\<exists>ob h t target' ob'. transfer (example_message h) ?z ob ?p ?p False = (Inr t, target', ob') \<and>
     tr_words t = 2 \<and> bv_word_count (buf_view target') = 2 \<and> objects_inv ob'" by force
  obtain ob h where ob: "store_step\<^sup>*\<^sup>* machine_objects_new ob"
    "arena_lookup (ob_handles ob) ?p h = Inr (entry_new example_endpoint RIGHT_SEND)" by (rule example_installed)
  have inv: "objects_inv ob" "arena_inv (ob_handles ob)"
    using store_steps_inv [OF ob(1)] handle_invD(1) by (auto simp: objects_inv_def)
  obtain r t' ob' where run: "transfer (example_message h) ?z ob ?p ?p False = (r, t', ob')" by (metis surj_pair)
  have "\<nexists>es. message_entries (example_message h) ob ?p \<lparr>ms_label = 0, ms_word_count = 2, ms_handle_count = 1\<rparr> es"
    unfolding example_message_entries [OF inv(2) ob(2)] by (simp add: rights_contains_def RIGHT_SEND_def RIGHT_TRANSFER_def)
  then have "\<exists>e. r = Inl e" "t' = ?z" "ob' = ob"
    using transfer_correct [OF inv(1) example_message_view(1) z run, THEN conjunct2, rule_format, OF example_message_view(2)]
    by auto
  then have "\<exists>e. transfer (example_message h) ?z ob ?p ?p False = (Inl e, ?z, ob)" using run by auto
  with 1 ob(2) show ?thesis by blast
qed

end
