(* ===== verification/Spec2Isabelle.thy ===== *)
theory Spec2Isabelle
  imports Prelude Abi Chains Generations Pool Addresses PageTable Regions Objects WaitQueue HandleTable Store Transition Deadline Scheduler Scheduling Processors IpcBuffer MessageTransfer
begin

text \<open>
  A verification of the core of AuDHSOS, a capability microkernel written in Rust. The program consists
  of the interface crate \<open>src/crates/abi\<close>, which the kernel and its users share, the kernel crates under
  \<open>src/crates/kernel\<close> (address types, memory management, objects, scheduling, message passing, system
  calls and the hardware layer), and user-space libraries. The development covers the hardware-independent
  core of the kernel: names and rights, object lifetimes, address spaces as tables of regions, wait
  queues, scheduling on several processors, the buffer that system calls and messages go through, and the
  transfer of a message with its handles.

  \<^bold>\<open>How the parts interact.\<close> Every kernel object lives in a pool and is named by an id that carries a
  generation. A process names objects through handles; a handle names a slot of one arena that all
  processes share, and the slots of a process are threaded into a list whose head the process holds. A
  thread is an object too: the run queues of the schedulers and the wait queues of the endpoints are
  threaded through the thread pool, a heap of deadlines stores its positions in the threads, and the state
  of a thread follows one table of transitions. A thread has a home processor, and an operation on it is
  routed to the scheduler of that processor.

  \<^bold>\<open>Conventions.\<close> A \<open>struct\<close> is a record whose fields carry a prefix, an \<open>enum\<close> is a datatype, and an
  array is a list whose length never changes. \<open>u8\<close> to \<open>u64\<close> are words of that width, with checked,
  saturating and wrapping operations as in the code; \<open>usize\<close> is \<open>nat\<close>. \<open>Result<T, E>\<close> is \<open>'e + 't\<close>. An
  operation on \<open>&mut self\<close> returns its result together with the state it leaves, on its error paths too.
  Loops are structural recursions or functions with a termination proof. The one exception is the
  iterator \<open>Handles\<close>, whose code follows links without a bound; it is a \<open>partial_function\<close>, and
  \<open>handles_of_complete\<close> shows that it ends on every reachable arena. No definition uses fuel other than a
  bound that the code itself has, such as \<open>CPUS\<close> rounds of \<open>assign\<close>.

  \<^bold>\<open>The theories.\<close>
  \<^item> \<open>Prelude\<close>: integers, results and arrays of Rust, shared lemmas. \<open>Chains\<close>: lists threaded through a
    store, with the locale \<open>link_store\<close> that each doubly linked list of the kernel interprets.
    \<open>Generations\<close>: the locale \<open>generation_store\<close>, which shows once that an id that stopped naming something
    stays stale until its slot was handed out \<open>2 ^ 32 - 1\<close> times more; \<open>Pool\<close> and \<open>HandleTable\<close> interpret it.
  \<^item> \<open>Abi\<close>: \<open>abi/src/error.rs\<close>, \<open>rights.rs\<close>, \<open>object.rs\<close>, \<open>handle.rs\<close>, \<open>thread.rs\<close>, \<open>layout.rs\<close>.
  \<^item> \<open>Addresses\<close>: \<open>kernel/types/src\<close>. Alignments round, and ranges of pages and frames behave as sets.
  \<^item> \<open>PageTable\<close>: \<open>kernel/mm/src/page_table.rs\<close>. An entry decodes to what it was made from.
  \<^item> \<open>Regions\<close>: \<open>kernel/mm/src/address_space.rs\<close>. A table of regions is a finite map from pages; insertion,
    removal and protection change exactly the pages asked for, and every reachable table is sorted,
    disjoint and in bounds.
  \<^item> \<open>Pool\<close>: \<open>kernel/objects/src/pool.rs\<close>. The view \<open>pool_map\<close> is the map from ids to values; the
    invariant ties the counts, the generations and the free list, which is a queue, to it.
  \<^item> \<open>Objects\<close>: \<open>object.rs\<close>, \<open>quota.rs\<close>, \<open>config.rs\<close>. The kinds of objects, quotas and port ranges.
  \<^item> \<open>WaitQueue\<close>: \<open>wait_queue.rs\<close>. A queue is a list of threads; a thread enters before the first of
    lower priority, which keeps a queue sorted by priority and then by arrival.
  \<^item> \<open>HandleTable\<close>: \<open>handle_table.rs\<close>. The meaning of handles, and the lists of the processes.
  \<^item> \<open>Store\<close>: \<open>store.rs\<close>. All objects of the machine; the locale \<open>object_pool\<close> is the contract of the
    eight pools. References are counted, the lists of the processes partition the
    arena, and a process resolves only handles that were installed for it.
  \<^item> \<open>Transition\<close>: \<open>kernel/sched/src/transition.rs\<close>. The compiled table is the list of rows.
  \<^item> \<open>Deadline\<close>: \<open>deadline.rs\<close>. The heap is a multiset of deadlines in order, with back pointers.
  \<^item> \<open>Scheduler\<close>, \<open>Scheduling\<close>: \<open>scheduler.rs\<close>. The first holds the operations and the invariant
    \<open>sched_inv\<close>, the second what every operation does: which thread is picked, that stopping a thread is
    all or nothing, and that the threads of one priority take turns.
  \<^item> \<open>Processors\<close>: \<open>processors.rs\<close>. The locale \<open>sched_op\<close> is the contract of the routed operations; the
    step relation \<open>procs_step\<close> composes them with the creation and the end of threads.
  \<^item> \<open>IpcBuffer\<close>: \<open>abi/src/ipc_buffer.rs\<close>. The page of a thread is a list of words, and every accessor
    reads or updates the element that the layout gives it.
  \<^item> \<open>MessageTransfer\<close>: \<open>kernel/ipc/src/transfer.rs\<close>. A refused message changes nothing; a delivered one gives the
    receiver entries of the sender, held with the right \<open>TRANSFER\<close>, under new handles.

  \<^bold>\<open>Bounds.\<close> Properties of pools assume fewer than \<open>2 ^ 32\<close> slots, as \<open>u32\<close> indices require; the machine
  has at most 4096. Those about stale ids and handles hold until a slot was handed out \<open>2 ^ 32 - 1\<close> times,
  when a generation returns.

  \<^bold>\<open>Not modelled.\<close> The hardware layer and the kernel binary consist of assembly, privileged instructions
  and device registers. The system call crates and the kernel core tie the modelled operations to
  that layer: their environment is a trait implemented by it. The page mapper and the frame allocator write
  through it too. Of message passing, the rendezvous of endpoints, notifications and interrupts are not
  modelled; they compose the wait queues, schedulers and transfers that are. The spin locks need the memory ordering of the hardware, so
  that here an operation runs alone, as it does under the kernel lock. The user-space libraries (the
  JavaScript engine, text and graphics, the network stack, cryptography, file systems, drivers) are
  programs of their own that the kernel does not depend on.
\<close>

end
